(* ===== verification/Prelude.thy ===== *)
theory Prelude
  imports Main "HOL-Library.Word" "HOL-Library.AList" "HOL-Library.Signed_Division"
begin

text \<open>
  What the components share: the machine types, the results of fallible Go code, the
  little-endian readers and writers of \<^verbatim>\<open>encoding/binary\<close>, Go maps as association lists
  with distinct keys, and the two interfaces that several components implement: fixed-width
  record codecs and bounded logs.
\<close>

unbundle bit_operations_syntax

section \<open>Machine types\<close>

type_synonym u8 = "8 word"
type_synonym u16 = "16 word"
type_synonym u32 = "32 word"
type_synonym u64 = "64 word"
type_synonym i32 = "32 word"
type_synonym i64 = "64 word"
type_synonym byte = "8 word"

named_theorems go_simps "evaluation of fallible code and of the byte readers"

section \<open>Results of fallible code\<close>

text \<open>
  A Go function that returns \<^verbatim>\<open>(value, error)\<close> returns \<open>Inr value\<close> or
  \<open>Inl (Err e)\<close>; a run-time panic (an index out of range, a division by zero, a failed type
  assertion) is the value \<open>Inl Panic\<close>, so that its absence can be stated.
\<close>

datatype 'e fault = Panic | Err 'e

definition and_then ::
  "'e fault + 'a \<Rightarrow> ('a \<Rightarrow> 'e fault + 'b) \<Rightarrow> 'e fault + 'b" where
  "and_then r f = (case r of Inl e \<Rightarrow> Inl e | Inr x \<Rightarrow> f x)"

lemma and_then_simps [simp]:
  "and_then (Inr x) f = f x"
  "and_then (Inl e) f = Inl e"
  by (simp_all add: and_then_def)

lemma and_then_eq_Inr:
  "and_then r f = Inr y \<longleftrightarrow> (\<exists>x. r = Inr x \<and> f x = Inr y)"
  by (cases r) auto

lemma and_then_assoc: "and_then (and_then r f) g = and_then r (\<lambda>x. and_then (f x) g)"
  by (cases r) auto

definition no_panic :: "'e fault + 'a \<Rightarrow> bool" where
  "no_panic r \<longleftrightarrow> (case r of Inl Panic \<Rightarrow> False | _ \<Rightarrow> True)"

lemma no_panic_simps [simp]:
  "no_panic (Inr x)" "no_panic (Inl (Err e))" "\<not> no_panic (Inl Panic)"
  by (simp_all add: no_panic_def)

lemma no_panic_iff: "no_panic r \<longleftrightarrow> r \<noteq> Inl Panic"
  by (cases r) (auto simp: no_panic_def split: fault.splits)

section \<open>Byte readers\<close>

text \<open>An index or slice expression outside the slice panics.\<close>

definition byte_at :: "byte list \<Rightarrow> nat \<Rightarrow> 'e fault + byte" where
  "byte_at d i = (if i < length d then Inr (d ! i) else Inl Panic)"

definition subslice :: "byte list \<Rightarrow> nat \<Rightarrow> nat \<Rightarrow> 'e fault + byte list" where
  "subslice d lo hi =
     (if lo \<le> hi \<and> hi \<le> length d then Inr (take (hi - lo) (drop lo d)) else Inl Panic)"

text \<open>\<^verbatim>\<open>binary.LittleEndian\<close>: the low byte first.\<close>

definition le_bytes :: "nat \<Rightarrow> 'a::len word \<Rightarrow> byte list" where
  "le_bytes n w = map (\<lambda>i. ucast (drop_bit (8 * i) w)) [0..<n]"

primrec le_word :: "byte list \<Rightarrow> 'a::len word" where
  "le_word [] = 0"
| "le_word (b # bs) = ucast b OR push_bit 8 (le_word bs)"

definition word_at :: "nat \<Rightarrow> byte list \<Rightarrow> nat \<Rightarrow> 'e fault + 'a::len word" where
  "word_at n d i =
     (if i + n \<le> length d then Inr (le_word (take n (drop i d))) else Inl Panic)"

abbreviation put_u16 :: "u16 \<Rightarrow> byte list" where "put_u16 \<equiv> le_bytes 2"
abbreviation put_u32 :: "u32 \<Rightarrow> byte list" where "put_u32 \<equiv> le_bytes 4"
abbreviation put_u64 :: "u64 \<Rightarrow> byte list" where "put_u64 \<equiv> le_bytes 8"

abbreviation u16_at :: "byte list \<Rightarrow> nat \<Rightarrow> 'e fault + u16" where "u16_at \<equiv> word_at 2"
abbreviation u32_at :: "byte list \<Rightarrow> nat \<Rightarrow> 'e fault + u32" where "u32_at \<equiv> word_at 4"
abbreviation u64_at :: "byte list \<Rightarrow> nat \<Rightarrow> 'e fault + u64" where "u64_at \<equiv> word_at 8"

lemma length_le_bytes [simp]: "length (le_bytes n w) = n"
  by (simp add: le_bytes_def)

lemma bit_le_word:
  "bit (le_word bs :: 'a::len word) i \<longleftrightarrow>
     i < LENGTH('a) \<and> i div 8 < length bs \<and> bit (bs ! (i div 8)) (i mod 8)"
proof (induction bs arbitrary: i)
  case Nil
  then show ?case by simp
next
  case (Cons b bs)
  show ?case
  proof (cases "i < 8")
    case True
    then show ?thesis
      by (auto simp: bit_or_iff bit_ucast_iff bit_push_bit_iff)
  next
    case False
    then obtain j where j: "i = j + 8" by (metis add.commute le_add_diff_inverse not_less)
    have "\<not> bit b i" using False by (auto dest: bit_imp_le_length)
    moreover have "(j + 8) div 8 = Suc (j div 8)" by simp
    ultimately show ?thesis
      using Cons.IH [of j] by (auto simp: j bit_or_iff bit_ucast_iff bit_push_bit_iff)
  qed
qed

lemma le_word_bytes:
  assumes "LENGTH('a) \<le> 8 * n"
  shows "le_word (le_bytes n (w :: 'a::len word)) = w"
proof (rule bit_word_eqI)
  fix i assume i: "i < LENGTH('a)"
  then have "i div 8 < n" using assms by linarith
  moreover have "8 * (i div 8) + i mod 8 = i" by simp
  ultimately show "bit (le_word (le_bytes n w) :: 'a word) i = bit w i"
    using i by (simp add: bit_le_word le_bytes_def bit_ucast_iff bit_drop_bit_eq)
qed

lemma le_bytes_word:
  assumes "length bs = n" and "8 * n \<le> LENGTH('a)"
  shows "le_bytes n (le_word bs :: 'a::len word) = bs"
proof (rule nth_equalityI)
  show "length (le_bytes n (le_word bs :: 'a word)) = length bs" using assms by simp
next
  fix k assume "k < length (le_bytes n (le_word bs :: 'a word))"
  then have k: "k < n" by simp
  show "le_bytes n (le_word bs :: 'a word) ! k = bs ! k"
  proof (rule bit_word_eqI)
    fix i assume "i < LENGTH(8)"
    then have i: "i < 8" by simp
    then have "8 * k + i < LENGTH('a)" using k assms by linarith
    with i k show "bit (le_bytes n (le_word bs :: 'a word) ! k) i = bit (bs ! k) i"
      by (simp add: le_bytes_def bit_ucast_iff bit_drop_bit_eq bit_le_word assms)
  qed
qed

lemma le_word_put [simp]:
  "le_word (put_u16 a) = a" "le_word (put_u32 b) = b" "le_word (put_u64 c) = c"
  by (simp_all add: le_word_bytes)

text \<open>Reading past a prefix, and reading a field that was just written.\<close>

lemma byte_at_append [go_simps]:
  "byte_at (xs @ ys) i = (if i < length xs then Inr (xs ! i) else byte_at ys (i - length xs))"
  by (auto simp: byte_at_def nth_append)

lemma byte_at_Cons [go_simps]:
  "byte_at (x # xs) i = (if i = 0 then Inr x else byte_at xs (i - 1))"
  by (cases i) (auto simp: byte_at_def)

lemma word_at_skip: "length xs \<le> i \<Longrightarrow> word_at n (xs @ ys) i = word_at n ys (i - length xs)"
  by (auto simp: word_at_def)

lemma word_at_skip_Cons: "0 < i \<Longrightarrow> word_at n (x # ys) i = word_at n ys (i - 1)"
  by (cases i) (auto simp: word_at_def)

lemma word_at_put [go_simps]:
  "u16_at (put_u16 a @ r) 0 = Inr a"
  "u32_at (put_u32 b @ r) 0 = Inr b"
  "u64_at (put_u64 c @ r) 0 = Inr c"
  "u16_at (put_u16 a) 0 = Inr a"
  "u32_at (put_u32 b) 0 = Inr b"
  "u64_at (put_u64 c) 0 = Inr c"
  by (simp_all add: word_at_def)

lemma subslice_skip: "length xs \<le> lo \<Longrightarrow> lo \<le> hi \<Longrightarrow>
    subslice (xs @ ys) lo hi = subslice ys (lo - length xs) (hi - length xs)"
  by (auto simp: subslice_def)

lemma subslice_skip_Cons: "0 < lo \<Longrightarrow> lo \<le> hi \<Longrightarrow>
    subslice (x # ys) lo hi = subslice ys (lo - 1) (hi - 1)"
  by (cases lo; cases hi) (auto simp: subslice_def)

lemma subslice_prefix [go_simps]: "n = length xs \<Longrightarrow> subslice (xs @ ys) 0 n = Inr xs"
  by (simp add: subslice_def)

lemma subslice_all [go_simps]: "n = length xs \<Longrightarrow> subslice xs 0 n = Inr xs"
  by (simp add: subslice_def)

lemmas read_skip = word_at_skip word_at_skip_Cons subslice_skip subslice_skip_Cons
declare read_skip [go_simps]

text \<open>A read inside the slice does not panic.\<close>

lemma byte_at_ok: "i < length d \<Longrightarrow> byte_at d i = Inr (d ! i)"
  by (simp add: byte_at_def)

lemma word_at_ok: "i + n \<le> length d \<Longrightarrow> word_at n d i = Inr (le_word (take n (drop i d)))"
  by (simp add: word_at_def)

lemma subslice_ok: "lo \<le> hi \<Longrightarrow> hi \<le> length d \<Longrightarrow>
    subslice d lo hi = Inr (take (hi - lo) (drop lo d))"
  by (simp add: subslice_def)

lemma no_panic_reads [simp]:
  "no_panic (byte_at d i) \<longleftrightarrow> i < length d"
  "no_panic (word_at n d i) \<longleftrightarrow> i + n \<le> length d"
  "no_panic (subslice d lo hi) \<longleftrightarrow> lo \<le> hi \<and> hi \<le> length d"
  by (simp_all add: byte_at_def word_at_def subslice_def)

lemma no_panic_and_then:
  "no_panic r \<Longrightarrow> (\<And>x. r = Inr x \<Longrightarrow> no_panic (f x)) \<Longrightarrow> no_panic (and_then r f)"
  by (cases r) (auto simp: no_panic_iff)

lemmas read_ok = byte_at_ok word_at_ok subslice_ok

section \<open>Go maps\<close>

text \<open>
  A Go map is an association list with distinct keys: \<open>map_of\<close> looks a key up,
  \<open>AList.update\<close> stores, \<open>AList.delete\<close> deletes, \<open>length\<close> is
  \<^verbatim>\<open>len\<close>. Its list order stands for one iteration order; what depends on it is
  stated up to permutation.
\<close>

lemma delete_filter: "AList.delete k q = filter (\<lambda>x. fst x \<noteq> k) q"
  by (induction q) auto

lemma foldl_delete: "foldl (\<lambda>q s. AList.delete s q) q ks = filter (\<lambda>x. fst x \<notin> set ks) q"
  by (induction ks arbitrary: q) (auto simp: delete_filter intro: filter_cong)

lemma set_update: "set (AList.update k v q) \<subseteq> insert (k, v) (set q)"
  by (induction q) auto

lemma set_update_eq:
  "distinct (map fst q) \<Longrightarrow> set (AList.update k v q) = insert (k, v) {x \<in> set q. fst x \<noteq> k}"
  by (induction q) (auto simp: image_iff)

lemma length_update:
  "length (AList.update k v q) = (if k \<in> fst ` set q then length q else Suc (length q))"
  by (induction q) auto

lemma length_delete_less:
  "map_of q k = Some v \<Longrightarrow> length (AList.delete k q) < length q"
proof (induction q)
  case (Cons x q)
  then show ?case using AList.length_delete_le [of k q] by (auto split: if_splits)
qed simp

lemma map_of_filter_key:
  "map_of (filter (\<lambda>x. P (fst x)) q) k = (if P k then map_of q k else None)"
  by (induction q) auto

lemmas go_map_simps = AList.update_conv' AList.delete_conv' AList.distinct_update
  AList.distinct_delete map_of_filter_key

section \<open>Words and counters\<close>

lemma unat_of_nat_small: "i < 2 ^ 32 \<Longrightarrow> unat (of_nat i :: u32) = i"
  by (rule of_nat_inverse) simp_all

lemma unat_plus_one:
  assumes "t \<noteq> - 1"
  shows "unat (t + 1 :: u32) = Suc (unat t)"
proof -
  have "1 + t \<noteq> 0" using assms by (metis add.commute eq_neg_iff_add_eq_0)
  from unatSuc [OF this] show ?thesis by (simp only: add.commute)
qed

lemma not_minus_one: "unat (t :: u32) < 2 ^ 32 - 1 \<Longrightarrow> t \<noteq> - 1"
  by (auto simp: unsigned_minus_1_eq_mask mask_eq_exp_minus_1)

lemma less_plus_one: "t \<noteq> - 1 \<Longrightarrow> t < (t + 1 :: u32)"
  unfolding word_less_nat_alt by (subst unat_plus_one) simp_all

lemma sdiv_nonneg: "0 \<le> x \<Longrightarrow> 0 < k \<Longrightarrow> x sdiv k = x div (k :: int)"
  by (simp add: signed_divide_int_def sgn_if)

lemma map_upt_append:
  "map (\<lambda>i. f (a + of_nat i)) [0..<n] @ map (\<lambda>i. f (a + of_nat n + of_nat i)) [0..<m] =
    map (\<lambda>i. f (a + of_nat i :: u32)) [0..<n + m]"
proof -
  have "[0..<n + m] = [0..<n] @ map (\<lambda>i. i + n) [0..<m]"
    using upt_add_eq_append [of 0 n m] map_add_upt [of n m] by (simp add: add.commute)
  then show ?thesis by (simp add: comp_def algebra_simps)
qed

section \<open>Sequences of fixed-width records\<close>

text \<open>
  \<open>read_seq w dec n d\<close> is the loop the decoders share: \<open>n\<close> records of \<open>w\<close> bytes
  read one after the other, the offset advancing by \<open>w\<close> each time (the suffix is the
  slice \<^verbatim>\<open>data[off:]\<close>).
\<close>

fun read_seq ::
  "nat \<Rightarrow> (byte list \<Rightarrow> 'e fault + 'a) \<Rightarrow> nat \<Rightarrow> byte list \<Rightarrow> 'e fault + 'a list" where
  "read_seq w dec 0 d = Inr []"
| "read_seq w dec (Suc n) d =
     and_then (dec d) (\<lambda>x. and_then (read_seq w dec n (drop w d)) (\<lambda>xs. Inr (x # xs)))"

text \<open>
  What a record's encoder and decoder promise: a fixed width, that decoding undoes encoding
  whatever follows, and that enough bytes always decode, to the value they encode.
\<close>

locale record_codec =
  fixes width :: nat
    and enc :: "'a \<Rightarrow> byte list"
    and dec :: "byte list \<Rightarrow> 'e fault + 'a"
  assumes enc_length: "length (enc x) = width"
    and dec_enc: "dec (enc x @ rest) = Inr x"
    and dec_total: "width \<le> length d \<Longrightarrow> \<exists>x. dec d = Inr x \<and> enc x = take width d"
begin

lemma length_concat_enc: "length (concat (map enc xs)) = length xs * width"
  by (induction xs) (simp_all add: enc_length)

lemma read_seq_enc:
  "n = length xs \<Longrightarrow> read_seq width dec n (concat (map enc xs) @ rest) = Inr xs"
  by (induction xs arbitrary: n) (simp_all add: dec_enc enc_length)

lemma read_seq_total:
  "n * width \<le> length d \<Longrightarrow>
    \<exists>xs. read_seq width dec n d = Inr xs \<and> length xs = n \<and> concat (map enc xs) = take (n * width) d"
proof (induction n arbitrary: d)
  case 0
  then show ?case by simp
next
  case (Suc n)
  then obtain x where x: "dec d = Inr x" "enc x = take width d" using dec_total [of d] by auto
  have "n * width \<le> length (drop width d)" using Suc.prems by simp
  from Suc.IH [OF this] obtain xs where xs: "read_seq width dec n (drop width d) = Inr xs"
    "length xs = n" "concat (map enc xs) = take (n * width) (drop width d)" by blast
  with x show ?case by (intro exI [of _ "x # xs"]) (simp add: take_add)
qed

lemma enc_inj: "enc x = enc y \<Longrightarrow> x = y"
  using dec_enc [of x "[]"] dec_enc [of y "[]"] by simp

end

section \<open>Bounded logs\<close>

definition last_n :: "nat \<Rightarrow> 'a list \<Rightarrow> 'a list" where
  "last_n n xs = drop (length xs - n) xs"

lemma length_last_n [simp]: "length (last_n n xs) = min (length xs) n"
  by (auto simp: last_n_def)

lemma last_n_short: "length xs \<le> n \<Longrightarrow> last_n n xs = xs"
  by (simp add: last_n_def)

lemma last_n_append: "last_n n (last_n n xs @ ys) = last_n n (xs @ ys)"
proof (cases "length xs \<le> n")
  case False
  then have "length xs - n \<le> length xs + length ys - n" by simp
  with False show ?thesis
    by (cases "length ys \<le> n") (auto simp: last_n_def add.commute)
qed (simp add: last_n_short)

text \<open>
  A log of bounded capacity keeps the newest entries: what a ring buffer and a shifted slice both
  promise.
\<close>

locale bounded_log =
  fixes capacity :: "'s \<Rightarrow> nat"
    and entries :: "'s \<Rightarrow> 'a list"
    and push :: "'a \<Rightarrow> 's \<Rightarrow> 's"
    and ok :: "'s \<Rightarrow> bool"
  assumes push_ok: "ok s \<Longrightarrow> ok (push x s)"
    and push_capacity: "ok s \<Longrightarrow> capacity (push x s) = capacity s"
    and push_entries: "ok s \<Longrightarrow> entries (push x s) = last_n (capacity s) (entries s @ [x])"
begin

definition pushes :: "'a list \<Rightarrow> 's \<Rightarrow> 's" where
  "pushes xs s = foldl (\<lambda>s x. push x s) s xs"

lemma pushes_ok: "ok s \<Longrightarrow> ok (pushes xs s) \<and> capacity (pushes xs s) = capacity s"
  by (induction xs arbitrary: s) (simp_all add: pushes_def push_ok push_capacity)

lemma pushes_entries:
  assumes "ok s" and "length (entries s) \<le> capacity s"
  shows "entries (pushes xs s) = last_n (capacity s) (entries s @ xs)"
proof (induction xs rule: rev_induct)
  case Nil
  with assms show ?case by (simp add: pushes_def last_n_short)
next
  case (snoc x xs)
  have "pushes (xs @ [x]) s = push x (pushes xs s)" by (simp add: pushes_def)
  with snoc pushes_ok [OF assms(1), of xs] show ?case by (simp add: push_entries last_n_append)
qed

lemma pushes_bounded:
  "ok s \<Longrightarrow> length (entries s) \<le> capacity s \<Longrightarrow> length (entries (pushes xs s)) \<le> capacity s"
  by (simp add: pushes_entries)

end

end
