(* ===== verification/Fixed.thy ===== *)
theory Fixed
  imports Prelude
begin

text \<open>
  The Q16.16 arithmetic of \<^verbatim>\<open>internal/sim/fixed\<close>: \<^verbatim>\<open>fixed.go\<close> and
  \<^verbatim>\<open>vec2.go\<close>. A \<^verbatim>\<open>Fix32\<close> is a 32-bit word read as two's complement by
  \<open>sint\<close>; comparisons are the signed ones. The lemmas relate every operation to exact
  integer arithmetic, with the wrap-around written out, prove the square root against its
  specification and bound the motion computed by \<^verbatim>\<open>MoveToward\<close>.
\<close>

type_synonym fix32 = i32

section \<open>Scalars\<close>

definition Shift :: nat where "Shift = 16"

definition One :: fix32 where "One = push_bit Shift 1"
definition Half :: fix32 where "Half = push_bit (Shift - 1) 1"
definition Max_fix :: fix32 where "Max_fix = 0x7FFFFFFF"
definition Min_fix :: fix32 where "Min_fix = - 0x80000000"
definition Pi_fix :: fix32 where "Pi_fix = 205887"
definition TwoPi :: fix32 where "TwoPi = 411775"
definition Eps :: fix32 where "Eps = 1"

text \<open>\<^verbatim>\<open>int64(a)\<close> sign-extends, \<^verbatim>\<open>int32(x)\<close> keeps the low 32 bits;
  \<^verbatim>\<open>/\<close> on \<^verbatim>\<open>int64\<close> truncates towards zero and panics on a zero divisor.\<close>

definition int64 :: "i32 \<Rightarrow> i64" where "int64 a = scast a"

definition int32 :: "i64 \<Rightarrow> i32" where "int32 x = ucast x"

definition quot64 :: "i64 \<Rightarrow> i64 \<Rightarrow> 'e fault + i64" where
  "quot64 x y = (if y = 0 then Inl Panic else Inr (word_of_int (sint x sdiv sint y)))"

definition FromInt :: "i32 \<Rightarrow> fix32" where
  "FromInt v = push_bit Shift v"

definition ToInt :: "fix32 \<Rightarrow> i32" where
  "ToInt a =
     (let v = int64 a
      in if 0 \<le>s v then int32 (signed_drop_bit Shift v)
         else int32 (- signed_drop_bit Shift (- v)))"

definition fix_Raw :: "fix32 \<Rightarrow> i32" where "fix_Raw a = a"
definition FromRaw :: "i32 \<Rightarrow> fix32" where "FromRaw v = v"

definition fix_Add :: "fix32 \<Rightarrow> fix32 \<Rightarrow> fix32" where "fix_Add a b = a + b"
definition fix_Sub :: "fix32 \<Rightarrow> fix32 \<Rightarrow> fix32" where "fix_Sub a b = a - b"

definition fix_Mul :: "fix32 \<Rightarrow> fix32 \<Rightarrow> fix32" where
  "fix_Mul a b = int32 (signed_drop_bit Shift (int64 a * int64 b))"

definition fix_Div :: "fix32 \<Rightarrow> fix32 \<Rightarrow> 'e fault + fix32" where
  "fix_Div a b =
     and_then (quot64 (push_bit Shift (int64 a)) (int64 b)) (\<lambda>q. Inr (int32 q))"

definition fix_Neg :: "fix32 \<Rightarrow> fix32" where "fix_Neg a = - a"

definition fix_Abs :: "fix32 \<Rightarrow> fix32" where
  "fix_Abs a = (if a <s 0 then - a else a)"

definition fix_Floor :: "fix32 \<Rightarrow> fix32" where
  "fix_Floor a = a AND NOT (One - 1)"

definition fix_Ceil :: "fix32 \<Rightarrow> fix32" where
  "fix_Ceil a = (if a AND (One - 1) = 0 then a else (a AND NOT (One - 1)) + One)"

definition fix_Clamp :: "fix32 \<Rightarrow> fix32 \<Rightarrow> fix32 \<Rightarrow> fix32" where
  "fix_Clamp a lo hi = (if a <s lo then lo else if hi <s a then hi else a)"

definition Min2 :: "fix32 \<Rightarrow> fix32 \<Rightarrow> fix32" where
  "Min2 a b = (if a <s b then a else b)"

definition Max2 :: "fix32 \<Rightarrow> fix32 \<Rightarrow> fix32" where
  "Max2 a b = (if b <s a then a else b)"

lemma sint_halves:
  assumes "0 <s (b :: i64)"
  shows "0 < sint b" and "sint (signed_drop_bit (Suc 0) b) < sint b"
  using assms by (simp_all add: sint_signed_drop_bit_eq drop_bit_Suc word_sless_alt)

text \<open>The binary search of \<^verbatim>\<open>Sqrt\<close>: one bit per turn, from \<open>2 ^ 30\<close> down.\<close>

function sqrt_loop :: "i64 \<Rightarrow> i64 \<Rightarrow> i64 \<Rightarrow> i64" where
  "sqrt_loop n b result =
     (if 0 <s b
      then let trial = result OR b
           in sqrt_loop n (signed_drop_bit 1 b) (if trial * trial \<le>s n then trial else result)
      else result)"
  by pat_completeness auto
termination
  by (relation "measure (\<lambda>(n, b, result). nat (sint b))") (auto simp: sint_halves)

declare sqrt_loop.simps [simp del]

definition Sqrt :: "fix32 \<Rightarrow> fix32" where
  "Sqrt a =
     (if a \<le>s 0 then 0
      else int32 (sqrt_loop (push_bit Shift (int64 a)) (push_bit 30 1) 0))"

section \<open>Vectors\<close>

record Vec2 =
  vX :: fix32
  vY :: fix32

definition V :: "fix32 \<Rightarrow> fix32 \<Rightarrow> Vec2" where "V x y = \<lparr>vX = x, vY = y\<rparr>"

definition VInt :: "i32 \<Rightarrow> i32 \<Rightarrow> Vec2" where
  "VInt x y = \<lparr>vX = FromInt x, vY = FromInt y\<rparr>"

definition vec_Add :: "Vec2 \<Rightarrow> Vec2 \<Rightarrow> Vec2" where
  "vec_Add a b = \<lparr>vX = vX a + vX b, vY = vY a + vY b\<rparr>"

definition vec_Sub :: "Vec2 \<Rightarrow> Vec2 \<Rightarrow> Vec2" where
  "vec_Sub a b = \<lparr>vX = vX a - vX b, vY = vY a - vY b\<rparr>"

definition Scale :: "Vec2 \<Rightarrow> fix32 \<Rightarrow> Vec2" where
  "Scale a s = \<lparr>vX = fix_Mul (vX a) s, vY = fix_Mul (vY a) s\<rparr>"

definition Dot :: "Vec2 \<Rightarrow> Vec2 \<Rightarrow> fix32" where
  "Dot a b = fix_Add (fix_Mul (vX a) (vX b)) (fix_Mul (vY a) (vY b))"

definition LenSq :: "Vec2 \<Rightarrow> fix32" where "LenSq a = Dot a a"

definition Len :: "Vec2 \<Rightarrow> fix32" where "Len a = Sqrt (LenSq a)"

definition DistSq :: "Vec2 \<Rightarrow> Vec2 \<Rightarrow> fix32" where "DistSq a b = LenSq (vec_Sub a b)"

definition Dist :: "Vec2 \<Rightarrow> Vec2 \<Rightarrow> fix32" where "Dist a b = Sqrt (DistSq a b)"

definition Normalize :: "Vec2 \<Rightarrow> 'e fault + Vec2" where
  "Normalize a =
     (let l = Len a
      in if l = 0 then Inr \<lparr>vX = 0, vY = 0\<rparr>
         else and_then (fix_Div (vX a) l) (\<lambda>x.
              and_then (fix_Div (vY a) l) (\<lambda>y. Inr \<lparr>vX = x, vY = y\<rparr>)))"

definition MoveToward :: "Vec2 \<Rightarrow> Vec2 \<Rightarrow> fix32 \<Rightarrow> 'e fault + Vec2" where
  "MoveToward frm target maxDist =
     (let diff = vec_Sub target frm;
          dSq = LenSq diff
      in if dSq \<le>s fix_Mul maxDist maxDist then Inr target
         else let d = Sqrt dSq
              in and_then (fix_Div maxDist d) (\<lambda>q. Inr (vec_Add frm (Scale diff q))))"

section \<open>Exact readings of the arithmetic\<close>

text \<open>Every operation is the exact integer operation followed by reduction to 32 bits.\<close>

lemma sint_i32_bounds: "- (2 ^ 31) \<le> sint (a :: i32)" "sint (a :: i32) < 2 ^ 31"
  using sint_ge [of a] sint_lt [of a] by simp_all

lemma sint_word_of_int_32:
  "- (2 ^ 31) \<le> x \<Longrightarrow> x < 2 ^ 31 \<Longrightarrow> sint (word_of_int x :: i32) = x"
  by (simp add: int_word_sint)

lemma sint_word_of_int_64:
  "- (2 ^ 63) \<le> x \<Longrightarrow> x < 2 ^ 63 \<Longrightarrow> sint (word_of_int x :: i64) = x"
  by (simp add: int_word_sint)

lemma sint_int64 [simp]: "sint (int64 a) = sint a"
  unfolding int64_def by (rule sint_up_scast) (simp add: is_up)

lemma int64_eq_0 [simp]: "int64 a = 0 \<longleftrightarrow> a = 0"
  by (metis sint_int64 signed_0 signed_eq_0_iff)

lemma int32_word_of_int [simp]: "int32 (word_of_int x) = word_of_int x"
  unfolding int32_def by (rule ucast_down_wi) (simp add: is_down)

lemma int32_of_sint: "int32 x = word_of_int (sint x)"
proof -
  have "int32 x = scast x" by (simp add: int32_def down_cast_same is_down)
  then show ?thesis by simp
qed

lemma sint_mult_64:
  "- (2 ^ 63) \<le> sint a * sint b \<Longrightarrow> sint a * sint b < 2 ^ 63 \<Longrightarrow>
    sint (a * b :: i64) = sint a * sint b"
  by (simp add: sint_word_mult signed_take_bit_int_eq_self)

lemma abs_mult_i32: "\<bar>sint (a :: i32) * sint (b :: i32)\<bar> \<le> 2 ^ 62"
proof -
  have "\<bar>sint a\<bar> \<le> 2 ^ 31" "\<bar>sint b\<bar> \<le> 2 ^ 31"
    using sint_i32_bounds [of a] sint_i32_bounds [of b] by linarith+
  then have "\<bar>sint a\<bar> * \<bar>sint b\<bar> \<le> 2 ^ 31 * 2 ^ 31" by (intro mult_mono) auto
  then show ?thesis by (simp add: abs_mult)
qed

lemma fix_Mul_eq: "fix_Mul a b = word_of_int ((sint a * sint b) div 65536)"
proof -
  have "sint (int64 a * int64 b) = sint a * sint b"
    using abs_mult_i32 [of a b]
    by (simp add: sint_mult_64 abs_le_iff)
  then show ?thesis
    by (simp add: fix_Mul_def int32_of_sint sint_signed_drop_bit_eq Shift_def drop_bit_eq_div)
qed

lemma sint_fix_Mul:
  "- (2 ^ 47) \<le> sint a * sint b \<Longrightarrow> sint a * sint b < 2 ^ 47 \<Longrightarrow>
    sint (fix_Mul a b) = (sint a * sint b) div 65536"
  by (simp add: fix_Mul_eq sint_word_of_int_32)

lemma sint_push_int64: "sint (push_bit Shift (int64 a)) = sint a * 65536"
  using sint_i32_bounds [of a] sint_mult_64 [of "int64 a" 65536]
  by (simp add: Shift_def push_bit_eq_mult)

lemma fix_Div_eq:
  "fix_Div a b =
     (if b = 0 then Inl Panic else Inr (word_of_int ((sint a * 65536) sdiv sint b)))"
  by (simp add: fix_Div_def quot64_def sint_push_int64)

lemma fix_Div_no_panic: "b \<noteq> 0 \<Longrightarrow> no_panic (fix_Div a b)"
  by (simp add: fix_Div_eq)

section \<open>The square root\<close>

text \<open>The search on unbounded integers, of which \<^verbatim>\<open>Sqrt\<close>'s loop is the 64-bit image.\<close>

primrec isqrt_bits :: "nat \<Rightarrow> int \<Rightarrow> int \<Rightarrow> int" where
  "isqrt_bits 0 n r = r"
| "isqrt_bits (Suc k) n r =
     isqrt_bits k n (if (r + 2 ^ k) * (r + 2 ^ k) \<le> n then r + 2 ^ k else r)"

lemma isqrt_bits_correct:
  assumes "0 \<le> r" and "r * r \<le> n" and "n < (r + 2 ^ k) * (r + 2 ^ k)"
  shows "0 \<le> isqrt_bits k n r \<and> isqrt_bits k n r * isqrt_bits k n r \<le> n
    \<and> n < (isqrt_bits k n r + 1) * (isqrt_bits k n r + 1)"
  using assms
proof (induction k arbitrary: r)
  case 0
  then show ?case by simp
next
  case (Suc k)
  show ?case
  proof (cases "(r + 2 ^ k) * (r + 2 ^ k) \<le> n")
    case True
    then show ?thesis using Suc.IH [of "r + 2 ^ k"] Suc.prems by (simp add: algebra_simps)
  next
    case False
    then show ?thesis using Suc.IH [of r] Suc.prems by simp
  qed
qed

lemma or_pow2:
  assumes "2 ^ Suc k dvd (r :: int)"
  shows "r OR 2 ^ k = r + 2 ^ k"
proof -
  obtain m where m: "r = 2 ^ Suc k * m" using assms by (rule dvdE)
  have "r = push_bit (Suc k) m" by (simp add: m push_bit_eq_mult mult.commute)
  then have "r AND 2 ^ k = 0"
    by (auto intro!: bit_eqI simp: bit_and_iff bit_exp_iff bit_push_bit_iff simp del: push_bit_Suc)
  then show ?thesis by (simp add: disjunctive_add_eq_or)
qed

lemma isqrt_step_bounds:
  assumes "2 ^ Suc k dvd (r :: int)" and "0 \<le> r" and "r + 2 ^ Suc k \<le> 2 ^ 31"
  shows "2 ^ k dvd r" and "2 ^ k dvd (r + 2 ^ k)" and "0 \<le> r + 2 ^ k"
    and "r + 2 ^ k + 2 ^ k \<le> 2 ^ 31" and "r + 2 ^ k \<le> 2 ^ 31"
proof -
  show *: "2 ^ k dvd r" using assms(1) by (metis dvd_mult_right power_Suc)
  then show "2 ^ k dvd (r + 2 ^ k)" by simp
  have "(0 :: int) \<le> 2 ^ k" and "r + 2 * 2 ^ k \<le> 2 ^ 31" using assms(3) by simp_all
  then show "0 \<le> r + 2 ^ k" "r + 2 ^ k + 2 ^ k \<le> 2 ^ 31" "r + 2 ^ k \<le> 2 ^ 31"
    using assms(2) by linarith+
qed

lemma sqrt_trial:
  assumes "2 ^ Suc k dvd r" and "0 \<le> r" and "r + 2 ^ Suc k \<le> 2 ^ 31" and "0 \<le> n" and "n < 2 ^ 62"
  defines "t \<equiv> (word_of_int r :: i64) OR word_of_int (2 ^ k)"
  shows "t = word_of_int (r + 2 ^ k)"
    and "t * t \<le>s word_of_int n \<longleftrightarrow> (r + 2 ^ k) * (r + 2 ^ k) \<le> n"
proof -
  note b = isqrt_step_bounds [OF assms(1-3)]
  show t: "t = word_of_int (r + 2 ^ k)"
    by (simp only: t_def or_pow2 [OF assms(1), symmetric] of_int_or_eq)
  have "(r + 2 ^ k) * (r + 2 ^ k) \<le> 2 ^ 31 * 2 ^ 31"
    by (intro mult_mono b) (use b in auto)
  then have "sint (word_of_int ((r + 2 ^ k) * (r + 2 ^ k)) :: i64) = (r + 2 ^ k) * (r + 2 ^ k)"
    by (intro sint_word_of_int_64) (simp_all add: order_trans [OF _ zero_le_square])
  moreover have "sint (word_of_int n :: i64) = n" using assms(4,5) by (simp add: sint_word_of_int_64)
  ultimately show "t * t \<le>s word_of_int n \<longleftrightarrow> (r + 2 ^ k) * (r + 2 ^ k) \<le> n"
    by (simp only: t word_sle_eq wi_hom_mult)
qed

lemma sqrt_loop_refines:
  assumes "k \<le> 31" and "0 \<le> n" and "n < 2 ^ 62"
    and "2 ^ k dvd r" and "0 \<le> r" and "r + 2 ^ k \<le> 2 ^ 31"
  shows "sqrt_loop (word_of_int n) (word_of_int (2 ^ k div 2)) (word_of_int r) =
    word_of_int (isqrt_bits k n r)"
  using assms
proof (induction k arbitrary: r)
  case 0
  then show ?case by (simp add: sqrt_loop.simps)
next
  case (Suc k)
  have p: "(2 ^ k :: int) \<le> 2 ^ 30" using Suc.prems(1) by (intro power_increasing) auto
  let ?b = "word_of_int (2 ^ k) :: i64"
  have s: "sint ?b = 2 ^ k"
    using p by (intro sint_word_of_int_64) (auto intro: order_trans [of _ 0])
  then have pos: "0 <s ?b" by (simp only: word_sless_alt signed_0) simp
  have "sint (signed_drop_bit 1 ?b) = 2 ^ k div 2"
    by (simp only: sint_signed_drop_bit_eq s drop_bit_eq_div power_one_right)
  then have half: "signed_drop_bit 1 ?b = word_of_int (2 ^ k div 2)"
    by (metis of_int_sint scast_id)
  note b = isqrt_step_bounds [OF Suc.prems(4-6)] and t = sqrt_trial [OF Suc.prems(4-6,2,3)]
  have "sqrt_loop (word_of_int n) ?b (word_of_int r) =
      sqrt_loop (word_of_int n) (word_of_int (2 ^ k div 2))
        (word_of_int (if (r + 2 ^ k) * (r + 2 ^ k) \<le> n then r + 2 ^ k else r))"
    by (subst sqrt_loop.simps) (simp only: pos half Let_def t(2) if_True, simp only: t(1) if_distrib [of word_of_int])
  then show ?case
    using Suc.IH [of r] Suc.IH [of "r + 2 ^ k"] Suc.prems b
    by (simp split: if_splits)
qed

lemma Sqrt_correct:
  defines "q \<equiv> \<lambda>a. sint (Sqrt a)" and "n \<equiv> \<lambda>a. max 0 (sint a) * 65536"
  shows "0 \<le> q a" and "q a * q a \<le> n a" and "n a < (q a + 1) * (q a + 1)"
proof -
  have "0 \<le> q a \<and> q a * q a \<le> n a \<and> n a < (q a + 1) * (q a + 1)"
  proof (cases "a \<le>s 0")
    case True
    then show ?thesis by (simp add: q_def n_def Sqrt_def word_sle_eq)
  next
    case False
    then have a: "0 < sint a" by (simp add: word_sle_eq)
    define m where "m = sint a * 65536"
    have m: "0 \<le> m" "m < 2 ^ 47" using a sint_i32_bounds [of a] by (simp_all add: m_def)
    define r where "r = isqrt_bits 31 m 0"
    have r: "0 \<le> r" "r * r \<le> m" "m < (r + 1) * (r + 1)"
      using isqrt_bits_correct [of 0 m 31] m by (simp_all add: r_def)
    have "r < 2 ^ 24"
    proof (rule ccontr)
      assume "\<not> r < 2 ^ 24"
      then have "2 ^ 24 * 2 ^ 24 \<le> r * r" by (intro mult_mono) auto
      with r(2) m(2) show False by simp
    qed
    moreover have "sqrt_loop (word_of_int m) (word_of_int (2 ^ 31 div 2)) (word_of_int 0) = word_of_int r"
      unfolding r_def by (rule sqrt_loop_refines) (use m in auto)
    moreover have "push_bit Shift (int64 a) = word_of_int m"
      using sint_push_int64 [of a] m_def by (metis of_int_sint scast_id)
    ultimately have "q a = r"
      using False r(1) by (simp add: q_def Sqrt_def push_bit_eq_mult sint_word_of_int_32)
    with r a show ?thesis by (simp add: n_def m_def)
  qed
  then show "0 \<le> q a" "q a * q a \<le> n a" "n a < (q a + 1) * (q a + 1)" by simp_all
qed

lemma Sqrt_pos:
  assumes "0 < sint a"
  shows "1 \<le> sint (Sqrt a)"
proof (rule ccontr)
  assume "\<not> 1 \<le> sint (Sqrt a)"
  with Sqrt_correct(1) [of a] have "sint (Sqrt a) = 0" by linarith
  with Sqrt_correct(3) [of a] assms show False by simp
qed

section \<open>Conversions, rounding and clamping\<close>

lemma sint_add_32:
  "- (2 ^ 31) \<le> sint a + sint b \<Longrightarrow> sint a + sint b < 2 ^ 31 \<Longrightarrow>
    sint (a + b :: i32) = sint a + sint b"
  by (simp add: sint_word_add signed_take_bit_int_eq_self)

lemma sint_diff_32:
  "- (2 ^ 31) \<le> sint a - sint b \<Longrightarrow> sint a - sint b < 2 ^ 31 \<Longrightarrow>
    sint (a - b :: i32) = sint a - sint b"
  by (simp add: sint_word_diff signed_take_bit_int_eq_self)

lemma sint_FromInt:
  assumes "- (2 ^ 15) \<le> sint v" and "sint v < 2 ^ 15"
  shows "sint (FromInt v) = sint v * 65536"
proof -
  have "sint (v * 65536 :: i32) = sint v * sint (65536 :: i32)"
    using assms by (simp only: sint_word_mult) (simp add: signed_take_bit_int_eq_self)
  then show ?thesis by (simp add: FromInt_def Shift_def push_bit_eq_mult)
qed

lemma int_sdiv_pow: "(0 :: int) < c \<Longrightarrow> x sdiv c = (if 0 \<le> x then x div c else - (- x div c))"
  by (auto simp: signed_divide_int_def sgn_if)

lemma sint_ToInt: "sint (ToInt a) = sint a sdiv 65536"
proof (cases "0 \<le> sint a")
  case True
  then show ?thesis
    using sint_i32_bounds [of a]
    by (simp add: ToInt_def word_sle_eq int32_of_sint sint_signed_drop_bit_eq Shift_def
        drop_bit_eq_div int_sdiv_pow sint_word_of_int_32)
next
  case False
  have b: "- (2 ^ 31) \<le> sint a" "sint a < 0" using sint_i32_bounds [of a] False by simp_all
  define e where "e = - (- sint a div 65536)"
  have e: "- (2 ^ 31) \<le> e" "e \<le> 0" using b by (simp_all add: e_def)
  have "sint (- int64 a) = - sint a"
    using b by (simp add: sint_word_minus signed_take_bit_int_eq_self)
  then have "sint (signed_drop_bit Shift (- int64 a)) = - e"
    by (simp add: sint_signed_drop_bit_eq Shift_def drop_bit_eq_div e_def)
  then have "sint (- signed_drop_bit Shift (- int64 a)) = e"
    using e by (simp add: sint_word_minus signed_take_bit_int_eq_self)
  then have "ToInt a = word_of_int e"
    using False by (simp add: ToInt_def word_sle_eq int32_of_sint del: of_int_sint)
  moreover have "e = sint a sdiv 65536" using False by (simp add: int_sdiv_pow e_def)
  ultimately show ?thesis using e by (simp add: sint_word_of_int_32)
qed

lemma ToInt_FromInt:
  assumes "- (2 ^ 15) \<le> sint v" and "sint v < 2 ^ 15"
  shows "ToInt (FromInt v) = v"
proof -
  have "- (sint v * 65536) div 65536 = - sint v"
    using nonzero_mult_div_cancel_right [of 65536 "- sint v"] by simp
  then have "sint v * 65536 sdiv 65536 = sint v" by (simp add: int_sdiv_pow)
  then have "sint (ToInt (FromInt v)) = sint v"
    by (simp only: sint_ToInt sint_FromInt [OF assms])
  then show ?thesis by (simp add: signed_word_eqI)
qed

lemma fix_Clamp_range:
  "lo \<le>s hi \<Longrightarrow> lo \<le>s fix_Clamp a lo hi \<and> fix_Clamp a lo hi \<le>s hi"
  by (auto simp: fix_Clamp_def word_sle_eq word_sless_alt)

lemma fix_Clamp_id: "lo \<le>s a \<Longrightarrow> a \<le>s hi \<Longrightarrow> fix_Clamp a lo hi = a"
  by (auto simp: fix_Clamp_def word_sle_eq word_sless_alt)

section \<open>Motion\<close>

text \<open>A speed whose square is representable: at most 181 units per tick.\<close>

definition speed_ok :: "fix32 \<Rightarrow> bool" where
  "speed_ok m \<longleftrightarrow> 0 \<le> sint m \<and> sint m \<le> 181 * 65536"

definition between :: "int \<Rightarrow> int \<Rightarrow> int \<Rightarrow> bool" where
  "between a b x \<longleftrightarrow> min a b \<le> x \<and> x \<le> max a b"

lemma sint_Mul_self:
  assumes "speed_ok m"
  shows "sint (fix_Mul m m) = sint m * sint m div 65536"
proof -
  have "sint m * sint m \<le> 11862016 * 11862016"
    by (rule mult_mono) (use assms in \<open>auto simp: speed_ok_def\<close>)
  then have "sint m * sint m < 2 ^ 47" by simp
  moreover have "- (2 ^ 47) \<le> sint m * sint m" by (rule order_trans [OF _ zero_le_square]) simp
  ultimately show ?thesis by (intro sint_fix_Mul)
qed

lemma MoveToward_no_panic:
  assumes "0 \<le>s fix_Mul m m"
  shows "no_panic (MoveToward f t m)"
proof (cases "LenSq (vec_Sub t f) \<le>s fix_Mul m m")
  case True
  then show ?thesis by (simp add: MoveToward_def)
next
  case False
  then have "0 < sint (LenSq (vec_Sub t f))" using assms by (simp add: word_sle_eq)
  then have "Sqrt (LenSq (vec_Sub t f)) \<noteq> 0" using Sqrt_pos by fastforce
  with False show ?thesis by (simp add: MoveToward_def fix_Div_eq Let_def)
qed

lemma speed_ok_Mul: "speed_ok m \<Longrightarrow> 0 \<le>s fix_Mul m m"
  by (simp add: word_sle_eq sint_Mul_self pos_imp_zdiv_nonneg_iff)

text \<open>The step ratio is at most one, whether or not the squared distance wrapped.\<close>

lemma step_ratio:
  assumes m: "speed_ok m" and d: "\<not> dSq \<le>s fix_Mul m m"
  obtains r where "fix_Div m (Sqrt dSq) = Inr (word_of_int r)" and "0 \<le> r" and "r \<le> 65536"
proof -
  define q where "q = sint (Sqrt dSq)"
  have dm: "sint m * sint m div 65536 < sint dSq"
    using d by (simp add: word_sle_eq sint_Mul_self [OF m])
  have "0 \<le> sint m * sint m div 65536" by (simp add: pos_imp_zdiv_nonneg_iff)
  with dm have pos: "0 < sint dSq" by linarith
  then have q1: "1 \<le> q" using Sqrt_pos by (simp add: q_def)
  have "sint dSq * 65536 < (q + 1) * (q + 1)"
    using Sqrt_correct(3) [of dSq] pos by (simp add: q_def)
  moreover have "sint m * sint m < sint dSq * 65536" using dm by linarith
  ultimately have sq: "sint m * sint m < (q + 1) * (q + 1)" by linarith
  have mq: "sint m \<le> q"
  proof (rule ccontr)
    assume "\<not> sint m \<le> q"
    then have "(q + 1) * (q + 1) \<le> sint m * sint m" using q1 by (intro mult_mono) auto
    with sq show False by simp
  qed
  define r where "r = sint m * 65536 div q"
  have "sint m * 65536 \<le> 65536 * q" using mq by simp
  then have "r \<le> 65536 * q div q" unfolding r_def using q1 by (intro zdiv_mono1) auto
  then have "r \<le> 65536" using q1 by simp
  moreover have "0 \<le> r" unfolding r_def using q1 m by (simp add: speed_ok_def pos_imp_zdiv_nonneg_iff)
  moreover have "Sqrt dSq \<noteq> 0" using q1 by (auto simp: q_def)
  then have "fix_Div m (Sqrt dSq) = Inr (word_of_int r)"
    using q1 m by (simp add: fix_Div_eq r_def speed_ok_def int_sdiv_pow flip: q_def)
  ultimately show thesis by (intro that)
qed

lemma step_component:
  assumes r: "0 \<le> r" "r \<le> 65536"
  defines "e \<equiv> \<lambda>dx. sint (fix_Mul dx (word_of_int r))"
  shows "between 0 (sint dx) (e dx)"
proof -
  have sr: "sint (word_of_int r :: i32) = r" using r by (simp add: sint_word_of_int_32)
  have lo: "- (2 ^ 31) \<le> sint dx" and hi: "sint dx < 2 ^ 31" by (rule sint_i32_bounds)+
  show ?thesis
  proof (cases "0 \<le> sint dx")
    case True
    have p: "0 \<le> sint dx * r" "sint dx * r \<le> sint dx * 65536"
      using True r by (simp_all add: mult_left_mono)
    then have "e dx = sint dx * r div 65536"
      unfolding e_def using hi by (subst sint_fix_Mul) (simp_all add: sr)
    with zdiv_mono1 [OF p(1), of 65536] zdiv_mono1 [OF p(2), of 65536] True
    show ?thesis by (simp add: between_def)
  next
    case False
    have p: "sint dx * r \<le> 0" "sint dx * 65536 \<le> sint dx * r"
      using False r by (simp_all add: mult_nonpos_nonneg mult_left_mono_neg)
    then have "e dx = sint dx * r div 65536"
      unfolding e_def using lo by (subst sint_fix_Mul) (simp_all add: sr)
    with zdiv_mono1 [OF p(1), of 65536] zdiv_mono1 [OF p(2), of 65536] False
    show ?thesis by (simp add: between_def)
  qed
qed

lemma move_component:
  fixes f t :: i32
  assumes "0 \<le> r" and "r \<le> 65536"
    and "- (2 ^ 31) \<le> sint t - sint f" and "sint t - sint f < 2 ^ 31"
  shows "between (sint f) (sint t) (sint (f + fix_Mul (t - f) (word_of_int r)))"
proof -
  let ?e = "fix_Mul (t - f) (word_of_int r)"
  have "sint (t - f) = sint t - sint f" using assms by (simp add: sint_diff_32)
  with step_component [OF assms(1,2), of "t - f"]
  have e: "between 0 (sint t - sint f) (sint ?e)" by simp
  then have "between (sint f) (sint t) (sint f + sint ?e)" by (auto simp: between_def)
  moreover from this have "sint (f + ?e) = sint f + sint ?e"
    using sint_i32_bounds [of f] sint_i32_bounds [of t]
    by (intro sint_add_32) (auto simp: between_def)
  ultimately show ?thesis by simp
qed

lemma MoveToward_between:
  assumes "speed_ok m" and "MoveToward f t m = (Inr p :: 'e fault + Vec2)"
    and "\<bar>sint (vX t) - sint (vX f)\<bar> < 2 ^ 31" and "\<bar>sint (vY t) - sint (vY f)\<bar> < 2 ^ 31"
  shows "between (sint (vX f)) (sint (vX t)) (sint (vX p))
    \<and> between (sint (vY f)) (sint (vY t)) (sint (vY p))"
proof (cases "LenSq (vec_Sub t f) \<le>s fix_Mul m m")
  case True
  then show ?thesis using assms(2) by (simp add: MoveToward_def between_def)
next
  case False
  then obtain r where q: "fix_Div m (Sqrt (LenSq (vec_Sub t f))) = (Inr (word_of_int r) :: 'e fault + fix32)"
    and r: "0 \<le> r" "r \<le> 65536"
    using step_ratio [OF assms(1)] by metis
  show ?thesis
    using assms(2-4) False q move_component [OF r, of "vX t" "vX f"] move_component [OF r, of "vY t" "vY f"]
    by (auto simp: MoveToward_def vec_Add_def Scale_def vec_Sub_def Let_def abs_less_iff)
qed

section \<open>Properties\<close>

text \<open>Multiplication is the exact product of the raw values shifted down by 16 bits (rounded
  towards minus infinity), division the exact quotient of the shifted dividend (rounded towards
  zero), both reduced to 32 bits; a zero divisor is the only panic.\<close>

theorem fixed_mul_div_exact:
  "fix_Mul a b = word_of_int ((sint a * sint b) div 65536) \<and>
   fix_Div a b = (if b = 0 then Inl Panic else Inr (word_of_int ((sint a * 65536) sdiv sint b)))"
  by (simp add: fix_Mul_eq fix_Div_eq)

text \<open>C35: the bit-by-bit square root is the integer square root of the shifted argument: the
  largest fixed-point number whose square does not exceed it, and 0 for what is not positive.\<close>

theorem Sqrt_is_floor:
  "0 \<le> sint (Sqrt a) \<and> sint (Sqrt a) * sint (Sqrt a) \<le> max 0 (sint a) * 65536 \<and>
    max 0 (sint a) * 65536 < (sint (Sqrt a) + 1) * (sint (Sqrt a) + 1)"
  using Sqrt_correct [of a] by blast

text \<open>C36: a step towards a target never overshoots it and never leaves the rectangle between the
  two points, for speeds up to 181 and coordinates whose difference fits 32 bits. Beyond either bound it can
  overshoot or move away (\<open>MoveToward_overflow\<close>).\<close>

theorem MoveToward_no_overshoot:
  assumes "speed_ok m" and "MoveToward f t m = (Inr p :: 'e fault + Vec2)"
    and "\<bar>sint (vX t) - sint (vX f)\<bar> < 2 ^ 31" and "\<bar>sint (vY t) - sint (vY f)\<bar> < 2 ^ 31"
  shows "between (sint (vX f)) (sint (vX t)) (sint (vX p)) \<and>
    between (sint (vY f)) (sint (vY t)) (sint (vY p))"
  by (rule MoveToward_between [OF assms])

lemma MoveToward_example:
  "MoveToward (V 0 0) (V 655360 0) 32768 = (Inr (V 32760 0) :: unit fault + Vec2)"
  by code_simp

theorem MoveToward_no_overshoot_witness:
  "between (sint (vX (V 0 0))) (sint (vX (V 655360 0))) (sint (vX (V 32760 0))) \<and>
    between (sint (vY (V 0 0))) (sint (vY (V 655360 0))) (sint (vY (V 32760 0)))"
  by (rule MoveToward_no_overshoot [OF _ MoveToward_example]) (simp_all add: speed_ok_def V_def)

text \<open>The squared distance is computed in 32 bits and wraps: a unit 190 cells from its target
  with speed one half reaches it in one step, a speed of 256 passes a target one cell away, a target too
  far to the left sends a unit to the right, and a speed whose square wraps to a negative number divides by zero.\<close>

theorem MoveToward_overflow:
  "MoveToward (VInt 10 10) (VInt 200 10) 32768 = (Inr (VInt 200 10) :: unit fault + Vec2) \<and>
   MoveToward (VInt 0 0) (VInt 1 0) (FromInt 256) = (Inr (VInt 256 0) :: unit fault + Vec2) \<and>
   MoveToward (VInt 100 0) (V (- 2147483648) 0) 32768 = (Inr (V 17236036 0) :: unit fault + Vec2) \<and>
   MoveToward (VInt 0 0) (VInt 0 0) (FromInt 182) = (Inl Panic :: unit fault + Vec2)"
  by code_simp

end
