(* ===== verification/Trig.thy ===== *)
theory Trig
  imports Fixed
begin

text \<open>
  \<^verbatim>\<open>internal/sim/fixed/trig.go\<close>. The sine table is filled at start-up with float64
  arithmetic, which is not modelled: it is a parameter, a list of \<open>sinTableSize\<close>
  entries. The lemmas show that every index is inside the table and where \<^verbatim>\<open>Atan2\<close>
  can divide by zero.
\<close>

definition sinTableSize :: int where "sinTableSize = 1024"

definition sin_angle :: "fix32 \<Rightarrow> int" where
  "sin_angle angle =
     (let a = sint angle smod sint TwoPi in if a < 0 then a + sint TwoPi else a)"

definition sin_lookup :: "int \<Rightarrow> int \<times> bool" where
  "sin_lookup a =
     (let halfPi = sint TwoPi sdiv 4; pi = sint TwoPi sdiv 2;
          (idx, neg) =
            (if a < halfPi then (a * sinTableSize sdiv halfPi, False)
             else if a < pi then ((pi - a) * sinTableSize sdiv halfPi, False)
             else if a < pi + halfPi then ((a - pi) * sinTableSize sdiv halfPi, True)
             else ((sint TwoPi - a) * sinTableSize sdiv halfPi, True));
          idx = (if idx \<ge> sinTableSize then sinTableSize - 1 else idx);
          idx = (if idx < 0 then 0 else idx)
      in (idx, neg))"

definition Sin :: "i32 list \<Rightarrow> fix32 \<Rightarrow> 'e fault + fix32" where
  "Sin sinTable angle =
     (case sin_lookup (sin_angle angle) of (idx, neg) \<Rightarrow>
        if 0 \<le> idx \<and> nat idx < length sinTable
        then (let v = sinTable ! nat idx in Inr (if neg then - v else v))
        else Inl Panic)"

definition Cos :: "i32 list \<Rightarrow> fix32 \<Rightarrow> 'e fault + fix32" where
  "Cos sinTable angle =
     (let halfPi = word_of_int (sint TwoPi sdiv 4) in Sin sinTable (angle + halfPi))"

definition atan_poly :: "fix32 \<Rightarrow> fix32" where
  "atan_poly ratio =
     (let r2 = fix_Mul ratio ratio
      in fix_Sub (fix_Mul ratio 64337) (fix_Mul (fix_Mul r2 ratio) 12864))"

definition Atan2 :: "fix32 \<Rightarrow> fix32 \<Rightarrow> 'e fault + fix32" where
  "Atan2 y x =
     (let halfPi = word_of_int (sint TwoPi sdiv 4); pi = word_of_int (sint TwoPi sdiv 2)
      in if x = 0 \<and> y = 0 then Inr 0
         else if x = 0 then Inr (if 0 <s y then halfPi else - halfPi)
         else let ax = fix_Abs x; ay = fix_Abs y
              in and_then
                   (if ay \<le>s ax then and_then (fix_Div ay ax) (\<lambda>ratio. Inr (atan_poly ratio))
                    else and_then (fix_Div ax ay) (\<lambda>ratio. Inr (halfPi - atan_poly ratio)))
                   (\<lambda>angle.
                      let angle = (if x <s 0 then pi - angle else angle)
                      in Inr (if y <s 0 then - angle else angle)))"

section \<open>The table index\<close>

lemma sint_TwoPi [simp]: "sint TwoPi = 411775" by (simp add: TwoPi_def)

lemma sin_angle_mod: "sin_angle angle = sint angle mod 411775"
proof -
  have "(let a = x smod 411775 in if a < 0 then a + 411775 else a) = x mod 411775" for x :: int
  proof (cases "0 \<le> x")
    case True
    then show ?thesis by (simp add: signed_modulo_int_def signed_divide_int_def sgn_if minus_div_mult_eq_mod Let_def not_less)
  next
    case False
    define y where "y = - x"
    have y: "0 < y" "x = - y" using False by (simp_all add: y_def)
    have "x smod 411775 = - (y mod 411775)"
      using y by (simp add: signed_modulo_int_def signed_divide_int_def minus_div_mult_eq_mod [symmetric])
    moreover have "0 \<le> y mod 411775" "y mod 411775 < 411775" by simp_all
    moreover have "(- y) mod 411775 = (if y mod 411775 = 0 then 0 else 411775 - y mod 411775)"
      by (simp add: zmod_zminus1_eq_if)
    ultimately show ?thesis unfolding y(2) Let_def by auto
  qed
  then show ?thesis by (simp only: sin_angle_def sint_TwoPi)
qed

lemma sin_lookup_range: "0 \<le> fst (sin_lookup a) \<and> fst (sin_lookup a) < 1024"
  by (simp add: sin_lookup_def sinTableSize_def Let_def split_def)

lemma Sin_value:
  assumes "length sinTable = 1024"
  shows "\<exists>v. (Sin sinTable angle :: 'e fault + _) = Inr v \<and> v \<in> set sinTable \<union> uminus ` set sinTable"
proof -
  obtain i n where l: "sin_lookup (sin_angle angle) = (i, n)" by fastforce
  with sin_lookup_range [of "sin_angle angle"] assms have "0 \<le> i" "nat i < length sinTable" by auto
  then show ?thesis by (auto simp: Sin_def l Let_def)
qed

text \<open>Angles a whole turn apart have the same sine, as long as the sum does not overflow.\<close>

lemma Sin_periodic:
  assumes "sint (angle + TwoPi) = sint angle + sint TwoPi"
  shows "Sin sinTable (angle + TwoPi) = Sin sinTable angle"
  by (simp only: Sin_def sin_angle_mod assms sint_TwoPi) simp

section \<open>Division by zero in \<open>Atan2\<close>\<close>

lemma fix_Abs_nonzero: "x \<noteq> 0 \<Longrightarrow> fix_Abs x \<noteq> 0"
  by (simp add: fix_Abs_def)

lemma fix_Abs_nonneg: "x \<noteq> Min_fix \<Longrightarrow> 0 \<le>s fix_Abs x"
proof -
  assume "x \<noteq> Min_fix"
  moreover have "sint Min_fix = - (2 ^ 31)" by (simp add: Min_fix_def)
  ultimately have "sint x \<noteq> - (2 ^ 31)" by (metis signed_word_eqI)
  then show ?thesis
    using sint_ge [of x] sint_lt [of x]
    by (auto simp: fix_Abs_def word_sless_alt word_sle_eq sint_word_ariths signed_take_bit_int_eq_self)
qed

lemma Atan2_ok:
  assumes "x \<noteq> Min_fix \<or> y \<noteq> 0"
  shows "no_panic (Atan2 y x)"
proof (cases "x = 0")
  case False
  have a: "fix_Abs y \<noteq> 0" if "\<not> fix_Abs y \<le>s fix_Abs x"
  proof
    assume z: "fix_Abs y = 0"
    then have "y = 0" using fix_Abs_nonzero by blast
    with assms have "0 \<le>s fix_Abs x" by (intro fix_Abs_nonneg) simp
    with that z show False by simp
  qed
  show ?thesis
    using False a fix_Abs_nonzero [OF False]
    by (auto simp: Atan2_def Let_def fix_Div_no_panic intro!: no_panic_and_then)
qed (simp add: Atan2_def Let_def)

lemma Atan2_divides_by_zero: "Atan2 0 Min_fix = Inl Panic"
  by (simp add: Atan2_def Let_def fix_Abs_def Min_fix_def fix_Div_def quot64_def int64_def word_sless_alt
      word_sle_eq)

section \<open>Properties\<close>

text \<open>The table look-up never leaves the table: \<open>Sin\<close> returns a table entry or its
  negation, and two angles that differ by full turns (as \<open>TwoPi\<close> rounds them) have the
  same sine.\<close>

theorem Sin_total_periodic:
  assumes "length sinTable = 1024" and "sint a mod sint TwoPi = sint b mod sint TwoPi"
  shows "\<exists>v. (Sin sinTable a :: 'e fault + fix32) = Inr v \<and> (Sin sinTable b :: 'e fault + fix32) = Inr v \<and>
    v \<in> set sinTable \<union> uminus ` set sinTable"
proof -
  have "sin_angle a = sin_angle b" using assms(2) by (simp add: sin_angle_mod)
  then have "(Sin sinTable a :: 'e fault + fix32) = Sin sinTable b" by (simp add: Sin_def)
  with Sin_value [OF assms(1), of b, where 'e = 'e] show ?thesis by auto
qed

theorem Sin_total_periodic_witness:
  "\<exists>v. (Sin (replicate 1024 7) 5 :: unit fault + fix32) = Inr v \<and>
    (Sin (replicate 1024 7) (TwoPi + 5) :: unit fault + fix32) = Inr v \<and>
    v \<in> set (replicate 1024 7) \<union> uminus ` set (replicate 1024 7)"
  by (rule Sin_total_periodic) (simp, simp add: TwoPi_def)

text \<open>\<open>Atan2\<close> divides only by a component it has found non-zero, with one exception:
  the absolute value of the most negative number is negative, so the point with that
  \<open>x\<close> and \<open>y = 0\<close> makes it divide by zero.\<close>

theorem Atan2_panics_iff:
  "no_panic (Atan2 y x :: 'e fault + fix32) \<longleftrightarrow> \<not> (x = Min_fix \<and> y = 0)"
proof (cases "x = Min_fix \<and> y = 0")
  case True
  then show ?thesis using Atan2_divides_by_zero by (simp add: no_panic_iff)
next
  case False
  then show ?thesis using Atan2_ok [of x y, where 'a = 'e] by blast
qed

end
