(* ===== verification/Packet.thy ===== *)
theory Packet
  imports Prelude
begin

text \<open>
  \<^verbatim>\<open>internal/transport/packet.go\<close>: the datagram format of the reliable UDP layer.
  The payload length is written as 16 bits; the round trip says what that does to any payload.
\<close>

definition MagicByte0 :: byte where "MagicByte0 = 0x52"
definition MagicByte1 :: byte where "MagicByte1 = 0x31"

definition FlagSYN :: byte where "FlagSYN = push_bit 0 1"
definition FlagACK :: byte where "FlagACK = push_bit 1 1"
definition FlagFIN :: byte where "FlagFIN = push_bit 2 1"
definition FlagReliable :: byte where "FlagReliable = push_bit 3 1"
definition FlagPING :: byte where "FlagPING = push_bit 4 1"

lemmas flag_defs = FlagSYN_def FlagACK_def FlagFIN_def FlagReliable_def FlagPING_def

definition HeaderSize :: nat where "HeaderSize = 19"
definition MaxPayloadSize :: nat where "MaxPayloadSize = 1200"

record Packet =
  pkFlags :: byte
  pkConnID :: u16
  pkSeq :: u32
  pkAck :: u32
  pkAckBitmask :: u32
  pkPayload :: "byte list"

datatype packet_error = PacketTooShort | BadMagic | PayloadLengthExceedsPacket

definition encodePacket :: "Packet \<Rightarrow> byte list" where
  "encodePacket p =
     [MagicByte0] @ [MagicByte1] @ [pkFlags p] @ put_u16 (pkConnID p) @ put_u32 (pkSeq p)
       @ put_u32 (pkAck p) @ put_u32 (pkAckBitmask p) @ put_u16 (of_nat (length (pkPayload p)))
       @ pkPayload p"

definition DecodePacket :: "byte list \<Rightarrow> packet_error fault + Packet" where
  "DecodePacket d =
     (if length d < HeaderSize then Inl (Err PacketTooShort)
      else and_then (byte_at d 0) (\<lambda>m0.
           and_then (byte_at d 1) (\<lambda>m1.
           if m0 \<noteq> MagicByte0 \<or> m1 \<noteq> MagicByte1 then Inl (Err BadMagic)
           else and_then (u16_at d 17) (\<lambda>payloadLen.
             if unat payloadLen > length d - HeaderSize then Inl (Err PayloadLengthExceedsPacket)
             else and_then (byte_at d 2) (\<lambda>flags.
                  and_then (u16_at d 3) (\<lambda>connID.
                  and_then (u32_at d 5) (\<lambda>seq.
                  and_then (u32_at d 9) (\<lambda>ack.
                  and_then (u32_at d 13) (\<lambda>mask.
                  and_then (if 0 < payloadLen
                            then subslice d HeaderSize (HeaderSize + unat payloadLen)
                            else Inr []) (\<lambda>payload.
                  Inr \<lparr>pkFlags = flags, pkConnID = connID, pkSeq = seq, pkAck = ack,
                       pkAckBitmask = mask, pkPayload = payload\<rparr>)))))))))) "

definition IsSYN :: "Packet \<Rightarrow> bool" where "IsSYN p \<longleftrightarrow> pkFlags p AND FlagSYN \<noteq> 0"
definition IsACK :: "Packet \<Rightarrow> bool" where "IsACK p \<longleftrightarrow> pkFlags p AND FlagACK \<noteq> 0"
definition IsFIN :: "Packet \<Rightarrow> bool" where "IsFIN p \<longleftrightarrow> pkFlags p AND FlagFIN \<noteq> 0"
definition IsReliable :: "Packet \<Rightarrow> bool" where "IsReliable p \<longleftrightarrow> pkFlags p AND FlagReliable \<noteq> 0"
definition IsPING :: "Packet \<Rightarrow> bool" where "IsPING p \<longleftrightarrow> pkFlags p AND FlagPING \<noteq> 0"

lemmas flag_tests = IsSYN_def IsACK_def IsFIN_def IsReliable_def IsPING_def

lemma HeaderSize_simp [simp]: "HeaderSize = 19" by (simp add: HeaderSize_def)

lemma unat_of_nat_mod_16: "unat (of_nat n :: u16) = n mod 65536"
  by (simp add: unat_of_nat)

lemma DecodePacket_encode_rest:
  "DecodePacket (encodePacket p @ rest) =
     Inr (p\<lparr>pkPayload := take (length (pkPayload p) mod 65536) (pkPayload p)\<rparr>)"
proof -
  define n where "n = length (pkPayload p) mod 65536"
  have n: "unat (of_nat (length (pkPayload p)) :: u16) = n" by (simp add: unat_of_nat_mod_16 n_def)
  have le: "n \<le> length (pkPayload p)" by (simp add: n_def)
  have z: "(0 < (of_nat (length (pkPayload p)) :: u16)) = (0 < n)"
    by (simp only: word_less_nat_alt n unat_0)
  have s: "subslice (pkPayload p @ rest) 0 n = (Inr (take n (pkPayload p)) :: packet_error fault + _)"
    using le by (simp add: subslice_def)
  show ?thesis
    using le by (simp add: DecodePacket_def encodePacket_def go_simps n z s flip: n_def)
qed

lemma DecodePacket_no_panic: "no_panic (DecodePacket d)"
  by (auto simp: DecodePacket_def intro!: no_panic_and_then) arith

lemma length_encodePacket: "length (encodePacket p) = HeaderSize + length (pkPayload p)"
  by (simp add: encodePacket_def)

section \<open>The read buffer\<close>

text \<open>Every read of a socket fills a buffer of this size; UDP drops what does not fit.\<close>

definition readBufferSize :: nat where "readBufferSize = 2048"

text \<open>A packet whose payload exceeds the buffer is never decoded.\<close>

lemma DecodePacket_oversize:
  assumes "2029 < length (pkPayload p)" and "length (pkPayload p) < 65536"
  shows "DecodePacket (take readBufferSize (encodePacket p)) = Inl (Err PayloadLengthExceedsPacket)"
proof -
  have u: "unat (of_nat (length (pkPayload p)) :: u16) = length (pkPayload p)"
    using assms(2) by (simp add: unat_of_nat_mod_16)
  define body where "body = take 2029 (pkPayload p)"
  have "length body = 2029" using assms(1) by (simp add: body_def)
  moreover have "take readBufferSize (encodePacket p) = [MagicByte0] @ [MagicByte1] @ [pkFlags p]
      @ put_u16 (pkConnID p) @ put_u32 (pkSeq p) @ put_u32 (pkAck p) @ put_u32 (pkAckBitmask p)
      @ put_u16 (of_nat (length (pkPayload p))) @ body"
    by (simp add: readBufferSize_def encodePacket_def body_def)
  ultimately show ?thesis using assms(1) by (simp add: DecodePacket_def go_simps u)
qed

section \<open>Properties\<close>

text \<open>A packet is decoded to itself whatever bytes follow it, with its payload cut to the length
  modulo 65536 that the header's 16-bit field holds; arbitrary bytes never panic the decoder.\<close>

theorem packet_roundtrip:
  "DecodePacket (encodePacket p @ rest) =
     Inr (p\<lparr>pkPayload := take (length (pkPayload p) mod 65536) (pkPayload p)\<rparr>) \<and>
   no_panic (DecodePacket d)"
  using DecodePacket_encode_rest DecodePacket_no_panic by blast

end
