(* ===== verification/Retx.thy ===== *)
theory Retx
  imports Packet
begin

text \<open>
  \<^verbatim>\<open>internal/transport/retx.go\<close>: the queue of unacknowledged reliable packets. Times
  and durations are integer nanoseconds; the Go map from sequence numbers to pending packets is
  an association list with distinct keys, in whatever order the map is iterated.
\<close>

definition InitialRTO :: int where "InitialRTO = 200 * 1000000"
definition MaxRTO :: int where "MaxRTO = 2 * 1000000000"
definition RTOMultiplier :: int where "RTOMultiplier = 2"
definition MaxRetries :: nat where "MaxRetries = 10"

record pendingPacket =
  ppPkt :: Packet
  ppSentAt :: int
  ppNextRetx :: int
  ppRto :: int
  ppRetries :: nat

type_synonym retxQueue = "(u32 \<times> pendingPacket) list"

definition newRetxQueue :: retxQueue where "newRetxQueue = []"

definition retxAdd :: "Packet \<Rightarrow> int \<Rightarrow> int \<Rightarrow> retxQueue \<Rightarrow> retxQueue" where
  "retxAdd pkt now rto q =
     (let rto = (if rto < InitialRTO then InitialRTO else rto)
      in AList.update (pkSeq pkt)
           \<lparr>ppPkt = pkt, ppSentAt = now, ppNextRetx = now + rto, ppRto = rto, ppRetries = 0\<rparr> q)"

text \<open>\<^verbatim>\<open>Ack\<close> returns the RTT sample and whether the packet was pending.\<close>

definition retxAck :: "u32 \<Rightarrow> int \<Rightarrow> retxQueue \<Rightarrow> (int \<times> bool) \<times> retxQueue" where
  "retxAck seq now q =
     (case map_of q seq of
        None \<Rightarrow> ((0, False), q)
      | Some pp \<Rightarrow>
          ((if ppRetries pp = 0 then now - ppSentAt pp else 0, True), AList.delete seq q))"

definition retxAckBitmask :: "u32 \<Rightarrow> u32 \<Rightarrow> int \<Rightarrow> retxQueue \<Rightarrow> retxQueue" where
  "retxAckBitmask ackSeq bitmask now q =
     foldl (\<lambda>q i. if bitmask AND push_bit i 1 \<noteq> 0
                  then snd (retxAck (ackSeq - 1 - of_nat i) now q) else q)
       (snd (retxAck ackSeq now q)) [0..<32]"

text \<open>
  \<^verbatim>\<open>CollectRetransmissions\<close>: one pass over the map that updates the due entries in
  place, then the deletion of the expired ones.
\<close>

definition retx_due :: "int \<Rightarrow> pendingPacket \<Rightarrow> bool" where
  "retx_due now pp \<longleftrightarrow> \<not> now < ppNextRetx pp"

definition retx_age :: "int \<Rightarrow> pendingPacket \<Rightarrow> pendingPacket" where
  "retx_age now pp =
     (if \<not> retx_due now pp then pp
      else let pp = pp\<lparr>ppRetries := ppRetries pp + 1\<rparr>
           in if ppRetries pp > MaxRetries then pp
              else let rto = ppRto pp * RTOMultiplier;
                       rto = (if rto > MaxRTO then MaxRTO else rto)
                   in pp\<lparr>ppRto := rto, ppNextRetx := now + rto\<rparr>)"

definition retx_resend :: "int \<Rightarrow> pendingPacket \<Rightarrow> bool" where
  "retx_resend now pp \<longleftrightarrow> retx_due now pp \<and> ppRetries pp + 1 \<le> MaxRetries"

definition retx_expire :: "int \<Rightarrow> pendingPacket \<Rightarrow> bool" where
  "retx_expire now pp \<longleftrightarrow> retx_due now pp \<and> ppRetries pp + 1 > MaxRetries"

definition CollectRetransmissions ::
  "int \<Rightarrow> retxQueue \<Rightarrow> Packet list \<times> u32 list \<times> retxQueue" where
  "CollectRetransmissions now q =
     (let aged = map (\<lambda>(s, pp). (s, retx_age now pp)) q;
          retx = map (\<lambda>(s, pp). ppPkt pp) (filter (\<lambda>(s, pp). retx_resend now pp) q);
          expired = map fst (filter (\<lambda>(s, pp). retx_expire now pp) q)
      in (retx, expired, foldl (\<lambda>q s. AList.delete s q) aged expired))"

definition retxPendingCount :: "retxQueue \<Rightarrow> nat" where
  "retxPendingCount q = length q"

section \<open>Acknowledgement\<close>

lemma map_of_retxAck [simp]: "map_of (snd (retxAck s now q)) = (map_of q)(s := None)"
  by (auto simp: retxAck_def AList.delete_conv' fun_eq_iff split: option.split)

text \<open>The sequence numbers that an acknowledgement number and its bitmask name.\<close>

definition acked :: "u32 \<Rightarrow> u32 \<Rightarrow> u32 \<Rightarrow> bool" where
  "acked ackSeq bitmask s \<longleftrightarrow>
     s = ackSeq \<or> (\<exists>i < 32. bit bitmask i \<and> s = ackSeq - 1 - of_nat i)"

lemma and_push_bit_1 [simp]: "(m AND 2 ^ i = 0) \<longleftrightarrow> \<not> bit (m :: 'a::len word) i"
  by (simp add: and_exp_eq_0_iff_not_bit)

lemma ack_fold:
  fixes a m :: u32
  shows
  "map_of (foldl (\<lambda>q i. if m AND push_bit i 1 \<noteq> 0
                  then snd (retxAck (a - 1 - of_nat i) now q) else q) q is) s =
     (if \<exists>i \<in> set is. bit m i \<and> s = a - 1 - of_nat i then None else map_of q s)"
  by (induction "is" arbitrary: q) auto

lemma retxAckBitmask_map:
  "map_of (retxAckBitmask a m now q) s = (if acked a m s then None else map_of q s)"
  unfolding retxAckBitmask_def ack_fold acked_def by (auto simp: atLeast_upt [symmetric])

section \<open>Retransmission\<close>

definition pending_ok :: "u32 \<times> pendingPacket \<Rightarrow> bool" where
  "pending_ok sp \<longleftrightarrow>
     pkSeq (ppPkt (snd sp)) = fst sp \<and> InitialRTO \<le> ppRto (snd sp) \<and>
     ppRto (snd sp) \<le> MaxRTO \<and> ppRetries (snd sp) \<le> MaxRetries"

definition retx_ok :: "retxQueue \<Rightarrow> bool" where
  "retx_ok q \<longleftrightarrow> distinct (map fst q) \<and> list_all pending_ok q"

lemma retx_ok_ack: "retx_ok q \<Longrightarrow> retx_ok (snd (retxAck s now q))"
  by (auto simp: retx_ok_def retxAck_def delete_filter list_all_iff distinct_map_filter split: option.split)

lemma retx_ok_ackBitmask: "retx_ok q \<Longrightarrow> retx_ok (retxAckBitmask a m now q)"
proof -
  have "retx_ok q \<Longrightarrow> retx_ok (foldl (\<lambda>q i. if m AND push_bit i 1 \<noteq> 0
                  then snd (retxAck (a - 1 - of_nat i) now q) else q) q is)" for q and "is" :: "nat list"
    by (induction "is" arbitrary: q) (auto simp: retx_ok_ack)
  then show "retx_ok q \<Longrightarrow> ?thesis" by (simp add: retxAckBitmask_def retx_ok_ack)
qed

lemma retx_ok_add:
  assumes "retx_ok q" and "rto \<le> MaxRTO"
  shows "retx_ok (retxAdd pkt now rto q)"
  using assms set_update
  by (fastforce simp: retx_ok_def retxAdd_def Let_def list_all_iff pending_ok_def AList.distinct_update
      InitialRTO_def MaxRTO_def)

lemma map_of_retxAdd: "\<exists>pp. map_of (retxAdd pkt now rto q) (pkSeq pkt) = Some pp \<and> ppPkt pp = pkt"
  by (simp add: retxAdd_def Let_def AList.update_conv')

text \<open>The queue after a pass: the entries that did not expire, aged.\<close>

lemma collect_queue:
  assumes "distinct (map fst q)"
  shows "snd (snd (CollectRetransmissions now q)) =
    map (\<lambda>(s, pp). (s, retx_age now pp)) (filter (\<lambda>(s, pp). \<not> retx_expire now pp) q)"
proof -
  let ?E = "set (map fst (filter (\<lambda>(s, pp). retx_expire now pp) q))"
  have k: "fst x \<in> ?E \<longleftrightarrow> (case x of (s, pp) \<Rightarrow> retx_expire now pp)" if "x \<in> set q" for x
    using that by (auto dest: eq_key_imp_eq_value [OF assms])
  have "filter (\<lambda>x. fst x \<notin> ?E) (map (\<lambda>(s, pp). (s, retx_age now pp)) q) =
      map (\<lambda>(s, pp). (s, retx_age now pp)) (filter (\<lambda>x. fst x \<notin> ?E) q)"
    by (simp add: filter_map comp_def split_def del: set_map)
  also have "filter (\<lambda>x. fst x \<notin> ?E) q = filter (\<lambda>(s, pp). \<not> retx_expire now pp) q"
    using k by (intro filter_cong) (auto simp del: set_map)
  finally show ?thesis by (simp add: CollectRetransmissions_def Let_def foldl_delete)
qed

lemma retx_ok_collect:
  assumes "retx_ok q"
  shows "retx_ok (snd (snd (CollectRetransmissions now q)))"
proof -
  have "pending_ok (s, pp) \<Longrightarrow> \<not> retx_expire now pp \<Longrightarrow> pending_ok (s, retx_age now pp)" for s pp
    by (auto simp: pending_ok_def retx_age_def retx_expire_def Let_def RTOMultiplier_def
        InitialRTO_def MaxRTO_def)
  moreover have "distinct (map fst (filter (\<lambda>(s, pp). \<not> retx_expire now pp) q))"
    using assms by (simp add: retx_ok_def distinct_map_filter)
  ultimately show ?thesis
    using assms by (auto simp: retx_ok_def collect_queue list_all_iff comp_def split_def)
qed

lemma retx_ok_distinct: "retx_ok q \<Longrightarrow> distinct (map fst q)"
  by (simp add: retx_ok_def)

lemma map_of_aged:
  "distinct (map fst q) \<Longrightarrow>
    map_of (map (\<lambda>(s, pp). (s, f pp)) (filter (\<lambda>(s, pp). P pp) q)) s =
      (case map_of q s of None \<Rightarrow> None | Some pp \<Rightarrow> if P pp then Some (f pp) else None)"
  by (induction q) (auto simp: weak_map_of_SomeI map_of_eq_None_iff image_iff split: option.split)

lemma collect_lookup:
  "distinct (map fst q) \<Longrightarrow>
    map_of (snd (snd (CollectRetransmissions now q))) s =
      (case map_of q s of None \<Rightarrow> None
       | Some pp \<Rightarrow> if retx_expire now pp then None else Some (retx_age now pp))"
  by (simp add: collect_queue map_of_aged [of q "retx_age now" "\<lambda>pp. \<not> retx_expire now pp"] split: option.split)

lemma collect_sends:
  "retx_ok q \<Longrightarrow>
    length (filter (\<lambda>p. pkSeq p = s) (fst (CollectRetransmissions now q))) =
      (case map_of q s of None \<Rightarrow> 0 | Some pp \<Rightarrow> if retx_resend now pp then 1 else 0)"
proof (induction q)
  case Nil
  then show ?case by (simp add: CollectRetransmissions_def)
next
  case (Cons x q)
  obtain k pp where x: "x = (k, pp)" by (cases x)
  have "retx_ok q" "pkSeq (ppPkt pp) = k" "k \<notin> fst ` set q"
    using Cons.prems by (auto simp: x retx_ok_def pending_ok_def)
  moreover from this have "map_of q k = None" by (simp add: map_of_eq_None_iff)
  ultimately show ?case using Cons.IH
    by (auto simp: x CollectRetransmissions_def Let_def split: option.splits)
qed

text \<open>Passes at a list of times, with every packet they send.\<close>

fun collect_run :: "int list \<Rightarrow> retxQueue \<Rightarrow> Packet list \<times> retxQueue" where
  "collect_run [] q = ([], q)"
| "collect_run (t # ts) q =
     (let (ps, ex, q1) = CollectRetransmissions t q; (qs, q2) = collect_run ts q1
      in (ps @ qs, q2))"

lemma collect_run_Cons:
  "fst (collect_run (t # ts) q) = fst (CollectRetransmissions t q)
     @ fst (collect_run ts (snd (snd (CollectRetransmissions t q))))"
  "snd (collect_run (t # ts) q) = snd (collect_run ts (snd (snd (CollectRetransmissions t q))))"
  by (simp_all add: split_def Let_def)

declare collect_run.simps(2) [simp del]
declare collect_run_Cons [simp]

lemma collect_run_bound:
  "retx_ok q \<Longrightarrow>
    length (filter (\<lambda>p. pkSeq p = s) (fst (collect_run ts q))) \<le>
      (case map_of q s of None \<Rightarrow> 0 | Some pp \<Rightarrow> MaxRetries - ppRetries pp)"
proof (induction ts arbitrary: q)
  case Nil
  then show ?case by simp
next
  case (Cons t ts)
  let ?q = "snd (snd (CollectRetransmissions t q))"
  note ih = Cons.IH [OF retx_ok_collect [OF Cons.prems, of t]]
  note sends = collect_sends [OF Cons.prems, of s t]
  note lookup = collect_lookup [OF retx_ok_distinct [OF Cons.prems], of t s]
  show ?case
  proof (cases "map_of q s")
    case None
    with ih sends lookup show ?thesis by simp
  next
    case (Some pp)
    with ih sends lookup show ?thesis
      by (auto simp: retx_resend_def retx_expire_def retx_age_def Let_def split: if_splits)
  qed
qed

lemma collect_run_None:
  "retx_ok q \<Longrightarrow> map_of q s = None \<Longrightarrow> map_of (snd (collect_run ts q)) s = None"
  by (induction ts arbitrary: q) (auto simp: collect_lookup retx_ok_distinct retx_ok_collect)

lemma collect_run_expires:
  assumes "retx_ok q" and "map_of q s = Some pp" and "ppNextRetx pp \<le> t"
    and "MaxRetries - ppRetries pp < n"
  shows "map_of (snd (collect_run (map (\<lambda>i. t + int i * MaxRTO) [0..<n]) q)) s = None"
  using assms
proof (induction n arbitrary: q t pp)
  case 0
  then show ?case by simp
next
  case (Suc n)
  let ?q = "snd (snd (CollectRetransmissions t q))"
  have ts: "map (\<lambda>i. t + int i * MaxRTO) [0..<Suc n] = t # map (\<lambda>i. (t + MaxRTO) + int i * MaxRTO) [0..<n]"
    by (simp add: upt_conv_Cons map_Suc_upt [symmetric] comp_def algebra_simps del: upt_Suc)
  have ok: "retx_ok ?q" using Suc.prems(1) by (rule retx_ok_collect)
  have l: "map_of ?q s = (if retx_expire t pp then None else Some (retx_age t pp))"
    using Suc.prems(1,2) by (simp add: collect_lookup retx_ok_def)
  show ?case
  proof (cases "retx_expire t pp")
    case True
    then have "map_of (snd (collect_run us ?q)) s = None" for us
      using ok l by (intro collect_run_None) simp_all
    then show ?thesis by (simp add: ts del: upt_Suc)
  next
    case False
    then have r: "ppRetries (retx_age t pp) = ppRetries pp + 1" "ppNextRetx (retx_age t pp) \<le> t + MaxRTO"
        "ppRetries pp + 1 \<le> MaxRetries"
      using Suc.prems(3) by (auto simp: retx_expire_def retx_age_def retx_due_def Let_def)
    with Suc.prems(4) have "MaxRetries - ppRetries (retx_age t pp) < n" by simp
    from Suc.IH [OF ok _ r(2) this] l False show ?thesis by (simp add: ts del: upt_Suc)
  qed
qed

section \<open>Properties\<close>

text \<open>C19: however often the queue is collected, a packet is sent again at most \<open>MaxRetries\<close>
  times; collected often enough, every packet leaves the queue.\<close>

theorem retransmissions_bounded:
  assumes "retx_ok q" and "map_of q s = Some pp" and "ppNextRetx pp \<le> t"
  shows "length (filter (\<lambda>p. pkSeq p = s) (fst (collect_run ts q))) \<le> MaxRetries - ppRetries pp \<and>
    map_of (snd (collect_run (map (\<lambda>i. t + int i * MaxRTO) [0..<MaxRetries + 1]) q)) s = None"
  using collect_run_bound [OF assms(1), of s ts] collect_run_expires [OF assms, of "MaxRetries + 1"] assms(2)
  by (simp del: upt_Suc)

lemma retx_one:
  fixes pkt :: Packet
  defines "q \<equiv> retxAdd pkt 0 0 newRetxQueue"
  shows "retx_ok q" and "map_of q (pkSeq pkt) =
    Some \<lparr>ppPkt = pkt, ppSentAt = 0, ppNextRetx = InitialRTO, ppRto = InitialRTO, ppRetries = 0\<rparr>"
  unfolding q_def
  by (rule retx_ok_add) (simp_all add: retx_ok_def newRetxQueue_def MaxRTO_def InitialRTO_def retxAdd_def)

theorem retransmissions_bounded_witness:
  "let pkt = \<lparr>pkFlags = 10, pkConnID = 1, pkSeq = 1, pkAck = 0, pkAckBitmask = 0, pkPayload = [9]\<rparr>;
       q = retxAdd pkt 0 0 newRetxQueue
   in length (filter (\<lambda>p. pkSeq p = 1) (fst (collect_run [1, 2, 3] q))) \<le> MaxRetries - 0 \<and>
      map_of (snd (collect_run (map (\<lambda>i. InitialRTO + int i * MaxRTO) [0..<MaxRetries + 1]) q)) 1 = None"
  using retransmissions_bounded [OF retx_one, of
    "\<lparr>pkFlags = 10, pkConnID = 1, pkSeq = 1, pkAck = 0, pkAckBitmask = 0, pkPayload = [9]\<rparr>" InitialRTO "[1, 2, 3]"]
  by (simp add: Let_def)

end
