(* ===== verification/Reorder.thy ===== *)
theory Reorder
  imports Prelude
begin

text \<open>
  \<^verbatim>\<open>internal/transport/reorder.go\<close>: in-order delivery. The interface \<open>in_order\<close>
  states what the connection relies on; the buffer interprets it. Sequence numbers wrap, so
  every statement is about words: the delivered payloads are those of consecutive sequence
  numbers from the first expected one.
\<close>

record reorderBuffer =
  rbNextExpected :: u32
  rbBuffer :: "(u32 \<times> byte list) list"
  rbMaxBuffered :: nat

definition newReorderBuffer :: "u32 \<Rightarrow> nat \<Rightarrow> reorderBuffer" where
  "newReorderBuffer startSeq maxBuffered =
     \<lparr>rbNextExpected = startSeq, rbBuffer = [], rbMaxBuffered = maxBuffered\<rparr>"

definition seqLT :: "u32 \<Rightarrow> u32 \<Rightarrow> bool" where
  "seqLT a b \<longleftrightarrow> a - b <s 0"

text \<open>The inner loop of \<^verbatim>\<open>Insert\<close>: deliver while the next packet is buffered.\<close>

function flush ::
  "u32 \<Rightarrow> (u32 \<times> byte list) list \<Rightarrow> byte list list \<times> u32 \<times> (u32 \<times> byte list) list" where
  "flush n buf =
     (case map_of buf n of
        None \<Rightarrow> ([], n, buf)
      | Some p \<Rightarrow> (case flush (n + 1) (AList.delete n buf) of (ds, n', buf') \<Rightarrow> (p # ds, n', buf')))"
  by pat_completeness auto
termination
  by (relation "measure (\<lambda>(n, buf). length buf)") (auto simp: length_delete_less)

declare flush.simps [simp del]

definition rbInsert :: "u32 \<Rightarrow> byte list \<Rightarrow> reorderBuffer \<Rightarrow> byte list list \<times> reorderBuffer" where
  "rbInsert seq payload rb =
     (if seqLT seq (rbNextExpected rb) then ([], rb)
      else if unat (seq - rbNextExpected rb) > rbMaxBuffered rb then ([], rb)
      else if seq = rbNextExpected rb then
        (case flush (rbNextExpected rb + 1) (rbBuffer rb) of (ds, n, buf) \<Rightarrow>
           (payload # ds, rb\<lparr>rbNextExpected := n, rbBuffer := buf\<rparr>))
      else
        ([], if map_of (rbBuffer rb) seq = None
             then rb\<lparr>rbBuffer := AList.update seq payload (rbBuffer rb)\<rparr> else rb))"

section \<open>The interface: consecutive delivery\<close>

text \<open>
  \<open>inv f s\<close>: everything the buffer \<open>s\<close> holds is the payload \<open>f\<close> gives its sequence
  number, where \<open>f\<close> is the stream the sender numbered.
\<close>

locale in_order =
  fixes insert :: "u32 \<Rightarrow> 'p \<Rightarrow> 's \<Rightarrow> 'p list \<times> 's"
    and expected :: "'s \<Rightarrow> u32"
    and inv :: "(u32 \<Rightarrow> 'p) \<Rightarrow> 's \<Rightarrow> bool"
  assumes insert_inv: "inv f s \<Longrightarrow> inv f (snd (insert k (f k) s))"
    and insert_consecutive: "inv f s \<Longrightarrow>
      \<exists>n. fst (insert k (f k) s) = map (\<lambda>i. f (expected s + of_nat i)) [0..<n] \<and>
        expected (snd (insert k (f k) s)) = expected s + of_nat n"
    and insert_blocked: "k \<noteq> expected s \<Longrightarrow>
      fst (insert k x s) = [] \<and> expected (snd (insert k x s)) = expected s"
begin

text \<open>Packets arriving in any order, any number of times.\<close>

primrec arrivals :: "(u32 \<Rightarrow> 'p) \<Rightarrow> u32 list \<Rightarrow> 's \<Rightarrow> 'p list \<times> 's" where
  "arrivals f [] s = ([], s)"
| "arrivals f (k # ks) s =
     (case insert k (f k) s of (ds, s') \<Rightarrow>
        (case arrivals f ks s' of (es, s'') \<Rightarrow> (ds @ es, s'')))"

lemma arrivals_in_order:
  "inv f s \<Longrightarrow>
    inv f (snd (arrivals f ks s)) \<and>
    (\<exists>n. fst (arrivals f ks s) = map (\<lambda>i. f (expected s + of_nat i)) [0..<n] \<and>
      expected (snd (arrivals f ks s)) = expected s + of_nat n)"
proof (induction ks arbitrary: s)
  case Nil
  then show ?case by (auto intro!: exI [of _ 0])
next
  case (Cons k ks)
  obtain ds s' where i: "insert k (f k) s = (ds, s')" by fastforce
  with insert_inv [OF Cons.prems, of k] have "inv f s'" by simp
  from Cons.IH [OF this] obtain m where m: "inv f (snd (arrivals f ks s'))"
    "fst (arrivals f ks s') = map (\<lambda>i. f (expected s' + of_nat i)) [0..<m]"
    "expected (snd (arrivals f ks s')) = expected s' + of_nat m" by blast
  from insert_consecutive [OF Cons.prems, of k] i obtain n where
    "ds = map (\<lambda>i. f (expected s + of_nat i)) [0..<n]" "expected s' = expected s + of_nat n" by auto
  with i m show ?case
    by (auto simp: split_def map_upt_append intro!: exI [of _ "n + m"])
qed

lemma arrivals_blocked:
  "expected s \<notin> set ks \<Longrightarrow>
    fst (arrivals f ks s) = [] \<and> expected (snd (arrivals f ks s)) = expected s"
proof (induction ks arbitrary: s)
  case Nil
  then show ?case by simp
next
  case (Cons k ks)
  then have "fst (insert k (f k) s) = []" "expected (snd (insert k (f k) s)) = expected s"
    using insert_blocked by auto
  with Cons show ?case by (simp add: split_def)
qed

end

section \<open>The buffer's invariant\<close>

definition rb_inv :: "(u32 \<Rightarrow> byte list) \<Rightarrow> reorderBuffer \<Rightarrow> bool" where
  "rb_inv f rb \<longleftrightarrow>
     distinct (map fst (rbBuffer rb)) \<and>
     (\<forall>(s, p) \<in> set (rbBuffer rb). p = f s \<and>
        1 \<le> unat (s - rbNextExpected rb) \<and> unat (s - rbNextExpected rb) \<le> rbMaxBuffered rb)"

definition buf_ok :: "nat \<Rightarrow> (u32 \<Rightarrow> byte list) \<Rightarrow> u32 \<Rightarrow> (u32 \<times> byte list) list \<Rightarrow> bool" where
  "buf_ok m f n buf \<longleftrightarrow>
     distinct (map fst buf) \<and> (\<forall>(s, p) \<in> set buf. p = f s \<and> unat (s - n) \<le> m)"

lemma unat_diff_step:
  assumes "s \<noteq> n"
  shows "unat (s - (n + 1)) = unat (s - n :: u32) - 1"
proof -
  have "s - (n + 1) = (s - n) - 1" by simp
  moreover have "unat (s - n - 1) = unat (s - n) - 1"
    by (rule unat_minus_one) (use assms in simp)
  ultimately show ?thesis by (simp only:)
qed

lemma consecutive_Cons:
  "f n # map (\<lambda>i. f (n + 1 + of_nat i)) [0..<k] = map (\<lambda>i. f (n + of_nat i :: u32)) [0..<Suc k]"
  by (simp only: map_upt_Suc of_nat_Suc semiring_1_class.of_nat_0 add_0_right add.assoc)

lemma plus_of_nat_Suc: "n + of_nat (Suc k) = n + 1 + (of_nat k :: u32)"
  by (simp only: of_nat_Suc add.assoc)

lemma buf_ok_step: "buf_ok m f n buf \<Longrightarrow> buf_ok m f (n + 1) (AList.delete n buf)"
  by (fastforce simp: buf_ok_def delete_filter distinct_map_filter unat_diff_step)

lemma flush_spec:
  "buf_ok m f n buf \<Longrightarrow>
    \<exists>k buf'. flush n buf = (map (\<lambda>i. f (n + of_nat i)) [0..<k], n + of_nat k, buf') \<and>
      buf_ok m f (n + of_nat k) buf' \<and> map_of buf' (n + of_nat k) = None"
proof (induction n buf rule: flush.induct)
  case (1 n buf)
  show ?case
  proof (cases "map_of buf n")
    case None
    with "1.prems" show ?thesis by (intro exI [of _ 0]) (simp add: flush.simps [of n buf])
  next
    case (Some p)
    then have p: "p = f n" using "1.prems" by (auto simp: buf_ok_def dest: map_of_SomeD)
    from "1.IH" [OF Some buf_ok_step [OF "1.prems"]] obtain k buf' where
      k: "flush (n + 1) (AList.delete n buf) = (map (\<lambda>i. f (n + 1 + of_nat i)) [0..<k], n + 1 + of_nat k, buf')"
        "buf_ok m f (n + 1 + of_nat k) buf'" "map_of buf' (n + 1 + of_nat k) = None" by blast
    have "flush n buf = (f n # map (\<lambda>i. f (n + 1 + of_nat i)) [0..<k], n + 1 + of_nat k, buf')"
      by (subst flush.simps) (simp only: Some option.case k(1) prod.case p)
    then have "flush n buf = (map (\<lambda>i. f (n + of_nat i)) [0..<Suc k], n + of_nat (Suc k), buf')"
      by (simp only: consecutive_Cons [of f n k] plus_of_nat_Suc)
    moreover have "buf_ok m f (n + of_nat (Suc k)) buf'" "map_of buf' (n + of_nat (Suc k)) = None"
      using k(2,3) by (simp_all only: plus_of_nat_Suc)
    ultimately show ?thesis by (intro exI [of _ "Suc k"] exI [of _ buf'] conjI)
  qed
qed

lemma rb_inv_buf_ok: "rb_inv f rb \<Longrightarrow> buf_ok (rbMaxBuffered rb) f (rbNextExpected rb + 1) (rbBuffer rb)"
proof -
  assume inv: "rb_inv f rb"
  have "unat (s - (n + 1)) \<le> m" if "1 \<le> unat (s - n)" "unat (s - n) \<le> m" for s n :: u32 and m
  proof -
    have "s \<noteq> n" using that(1) by auto
    from unat_diff_step [OF this] that(2) show ?thesis by (simp only:)
  qed
  with inv show ?thesis unfolding rb_inv_def buf_ok_def by blast
qed

lemma rbInsert_expected:
  assumes "rb_inv f rb" and "k = rbNextExpected rb"
  shows "\<exists>n buf. rbInsert k (f k) rb =
      (map (\<lambda>i. f (k + of_nat i)) [0..<Suc n], rb\<lparr>rbNextExpected := k + of_nat (Suc n), rbBuffer := buf\<rparr>) \<and>
      rb_inv f (rb\<lparr>rbNextExpected := k + of_nat (Suc n), rbBuffer := buf\<rparr>)"
proof -
  from flush_spec [OF rb_inv_buf_ok [OF assms(1)]] obtain n buf where
    n: "flush (k + 1) (rbBuffer rb) = (map (\<lambda>i. f (k + 1 + of_nat i)) [0..<n], k + 1 + of_nat n, buf)"
      "buf_ok (rbMaxBuffered rb) f (k + 1 + of_nat n) buf" "map_of buf (k + 1 + of_nat n) = None"
    using assms(2) by auto
  have "rb_inv f (rb\<lparr>rbNextExpected := k + 1 + of_nat n, rbBuffer := buf\<rparr>)"
  proof -
    have "1 \<le> unat (s - (k + 1 + of_nat n))" if "(s, p) \<in> set buf" for s p
    proof -
      have "s \<noteq> k + 1 + of_nat n" using that n(3) by (auto simp: map_of_eq_None_iff image_iff)
      then have "s - (k + 1 + of_nat n) \<noteq> 0" unfolding right_minus_eq .
      then show ?thesis unfolding One_nat_def Suc_le_eq unat_gt_0 .
    qed
    with n(2) show ?thesis by (fastforce simp: rb_inv_def buf_ok_def)
  qed
  moreover have "flush (rbNextExpected rb + 1) (rbBuffer rb) = (map (\<lambda>i. f (k + 1 + of_nat i)) [0..<n], k + 1 + of_nat n, buf)"
    using n(1) assms(2) by simp
  then have "rbInsert k (f k) rb = (f k # map (\<lambda>i. f (k + 1 + of_nat i)) [0..<n],
      rb\<lparr>rbNextExpected := k + 1 + of_nat n, rbBuffer := buf\<rparr>)"
    using assms(2) by (simp add: rbInsert_def seqLT_def)
  then have "rbInsert k (f k) rb = (map (\<lambda>i. f (k + of_nat i)) [0..<Suc n],
      rb\<lparr>rbNextExpected := k + 1 + of_nat n, rbBuffer := buf\<rparr>)"
    by (simp only: consecutive_Cons [of f k n])
  ultimately show ?thesis by (intro exI [of _ n] exI [of _ buf]) (simp only: plus_of_nat_Suc simp_thms)
qed

lemma rbInsert_other:
  assumes "k \<noteq> rbNextExpected rb"
  shows "fst (rbInsert k p rb) = [] \<and> rbNextExpected (snd (rbInsert k p rb)) = rbNextExpected rb"
  using assms by (simp add: rbInsert_def)

lemma rbInsert_other_inv:
  assumes "rb_inv f rb" and "k \<noteq> rbNextExpected rb"
  shows "rb_inv f (snd (rbInsert k (f k) rb))"
proof -
  have "1 \<le> unat (k - rbNextExpected rb)" using assms(2) by (simp add: Suc_le_eq unat_gt_0)
  with assms show ?thesis
    using set_update [of k "f k" "rbBuffer rb"]
    by (fastforce simp: rbInsert_def rb_inv_def AList.distinct_update)
qed

interpretation rb: in_order rbInsert rbNextExpected rb_inv
proof unfold_locales
  fix f s k
  assume inv: "rb_inv f s"
  show "rb_inv f (snd (rbInsert k (f k) s))"
  proof (cases "k = rbNextExpected s")
    case True
    from rbInsert_expected [OF inv True] show ?thesis by (metis snd_conv)
  next
    case False
    then show ?thesis by (rule rbInsert_other_inv [OF inv])
  qed
  show "\<exists>n. fst (rbInsert k (f k) s) = map (\<lambda>i. f (rbNextExpected s + of_nat i)) [0..<n] \<and>
      rbNextExpected (snd (rbInsert k (f k) s)) = rbNextExpected s + of_nat n"
  proof (cases "k = rbNextExpected s")
    case True
    from rbInsert_expected [OF inv True] obtain n buf where
      r: "rbInsert k (f k) s = (map (\<lambda>i. f (k + of_nat i)) [0..<Suc n],
        s\<lparr>rbNextExpected := k + of_nat (Suc n), rbBuffer := buf\<rparr>)" by blast
    show ?thesis by (rule exI [of _ "Suc n"]) (use r True in simp)
  next
    case False
    with rbInsert_other [OF this] show ?thesis by (intro exI [of _ 0]) simp
  qed
next
  fix k s x
  show "k \<noteq> rbNextExpected s \<Longrightarrow>
    fst (rbInsert k x s) = [] \<and> rbNextExpected (snd (rbInsert k x s)) = rbNextExpected s"
    by (rule rbInsert_other)
qed

section \<open>Bounded memory\<close>

lemma rb_inv_new: "rb_inv f (newReorderBuffer s m)"
  by (simp add: rb_inv_def newReorderBuffer_def)

lemma rb_inv_length:
  assumes "rb_inv f rb"
  shows "length (rbBuffer rb) \<le> rbMaxBuffered rb"
proof -
  let ?d = "\<lambda>s. unat (s - rbNextExpected rb)"
  let ?K = "fst ` set (rbBuffer rb)"
  have "inj_on ?d ?K" by (rule inj_onI) (simp flip: word_unat_eq_iff)
  moreover have "?d ` ?K \<subseteq> {1..rbMaxBuffered rb}" using assms by (fastforce simp: rb_inv_def)
  ultimately have "card ?K \<le> card {1..rbMaxBuffered rb}"
    by (metis card_image card_mono finite_atLeastAtMost)
  moreover have "card ?K = length (rbBuffer rb)"
    using assms distinct_card [of "map fst (rbBuffer rb)"] by (simp add: rb_inv_def)
  ultimately show ?thesis by simp
qed

section \<open>Nothing in the window is lost\<close>

lemma flush_keys:
  "flush n buf = (ds, n', buf') \<Longrightarrow>
    length ds \<le> length buf \<and> n' = n + of_nat (length ds) \<and>
    (\<forall>s \<in> fst ` set buf. s \<in> fst ` set buf' \<or> (\<exists>i < length ds. s = n + of_nat i))"
proof (induction n buf arbitrary: ds n' buf' rule: flush.induct)
  case (1 n buf)
  show ?case
  proof (cases "map_of buf n")
    case None
    with "1.prems" show ?thesis by (simp add: flush.simps [of n buf])
  next
    case (Some p)
    obtain es m b where r: "flush (n + 1) (AList.delete n buf) = (es, m, b)" by (metis prod.exhaust)
    with Some "1.prems" have d: "ds = p # es" "n' = m" "buf' = b" by (simp_all add: flush.simps [of n buf])
    note ih = "1.IH" [OF Some r]
    have "length es < length buf" using ih length_delete_less [OF Some] by simp
    moreover have "n' = n + of_nat (length ds)"
      using ih unfolding d by (simp only: length_Cons plus_of_nat_Suc)
    moreover have "s \<in> fst ` set buf' \<or> (\<exists>i < length ds. s = n + of_nat i)" if "s \<in> fst ` set buf" for s
    proof (cases "s = n")
      case True
      then show ?thesis by (intro disjI2 exI [of _ 0]) (simp add: d)
    next
      case False
      with that have "s \<in> fst ` set (AList.delete n buf)" by (auto simp: delete_filter)
      with ih consider "s \<in> fst ` set b" | i where "i < length es" "s = n + 1 + of_nat i" by blast
      then show ?thesis
      proof cases
        case 2
        then show ?thesis
          by (intro disjI2 exI [of _ "Suc i"] conjI) (simp_all only: d length_Cons Suc_less_eq plus_of_nat_Suc)
      qed (simp add: d)
    qed
    ultimately show ?thesis by (simp add: d)
  qed
qed

text \<open>\<open>held start c rb i\<close>: packet \<open>i\<close> of the stream is among the \<open>c\<close> delivered
  ones or is buffered.\<close>

definition held :: "u32 \<Rightarrow> nat \<Rightarrow> reorderBuffer \<Rightarrow> nat \<Rightarrow> bool" where
  "held start c rb i \<longleftrightarrow> i < c \<or> start + of_nat i \<in> fst ` set (rbBuffer rb)"

lemma of_nat_eq_small: "i < 2 ^ 32 \<Longrightarrow> j < 2 ^ 32 \<Longrightarrow> (of_nat i :: u32) = of_nat j \<Longrightarrow> i = j"
  by (metis unat_of_nat_small)

lemma seq_diff: "c \<le> j \<Longrightarrow> start + of_nat j - (start + of_nat c) = (of_nat (j - c) :: u32)"
  by (simp add: of_nat_diff)

lemma not_seqLT_ahead:
  assumes "d < 2 ^ 31"
  shows "\<not> (of_nat d :: u32) <s 0"
proof -
  have "sint (of_nat d :: u32) = int d"
    using assms int_word_sint [of "int d", where 'a = 32] by simp
  then show ?thesis by (simp add: word_sless_alt)
qed

lemma rbInsert_expected_eq:
  assumes "k = rbNextExpected rb" and "flush (k + 1) (rbBuffer rb) = (es, n, buf)"
  shows "rbInsert k p rb = (p # es, rb\<lparr>rbNextExpected := n, rbBuffer := buf\<rparr>)"
  using assms by (simp add: rbInsert_def seqLT_def)

lemma rbInsert_keeps_held:
  assumes inv: "rb_inv f rb" and nx: "rbNextExpected rb = start + of_nat c"
    and m: "rbMaxBuffered rb < 2 ^ 31" and n: "n \<le> 2 ^ 31" and i: "i < n" and h: "held start c rb i"
    and r: "rbInsert k p rb = (ds, rb')"
  shows "held start (c + length ds) rb' i"
proof (cases "i < c")
  case True
  then show ?thesis by (simp add: held_def)
next
  case False
  then have key: "start + of_nat i \<in> fst ` set (rbBuffer rb)" using h by (simp add: held_def)
  show ?thesis
  proof (cases "k = rbNextExpected rb")
    case True
    obtain es b e where fl: "flush (k + 1) (rbBuffer rb) = (es, e, b)" by (metis prod.exhaust)
    note fk = flush_keys [OF fl]
    have d: "ds = p # es" "rbBuffer rb' = b"
      using r rbInsert_expected_eq [OF True fl, of p] by auto
    have le: "length es < 2 ^ 31" using fk rb_inv_length [OF inv] m by linarith
    from fk key consider "start + of_nat i \<in> fst ` set b"
      | l where "l < length es" "start + of_nat i = k + 1 + of_nat l" by blast
    then show ?thesis
    proof cases
      case 1
      then show ?thesis by (simp add: held_def d)
    next
      case 2
      then have "start + of_nat i = start + (of_nat (c + 1 + l) :: u32)"
        unfolding True nx by (simp add: add.assoc)
      then have "i = c + 1 + l" using False i n 2(1) le by (intro of_nat_eq_small) simp_all
      then show ?thesis using 2(1) by (simp add: held_def d)
    qed
  next
    case other: False
    have "fst ` set (rbBuffer rb) \<subseteq> fst ` set (AList.update k p (rbBuffer rb))"
      by (subst AList.dom_update) (rule Un_upper2)
    moreover from r other have "ds = []"
      and "rbBuffer rb' = rbBuffer rb \<or> rbBuffer rb' = AList.update k p (rbBuffer rb)"
      by (auto simp: rbInsert_def split: if_splits)
    ultimately have "ds = []" and "fst ` set (rbBuffer rb) \<subseteq> fst ` set (rbBuffer rb')"
      by (metis order_refl)+
    with key show ?thesis by (auto simp: held_def)
  qed
qed

lemma rbInsert_holds:
  assumes nx: "rbNextExpected rb = start + of_nat c" and m: "rbMaxBuffered rb < 2 ^ 31"
    and j: "j \<le> rbMaxBuffered rb" and r: "rbInsert (start + of_nat j) p rb = (ds, rb')"
  shows "held start (c + length ds) rb' j"
proof (cases "j < c")
  case True
  then show ?thesis by (simp add: held_def)
next
  case False
  let ?k = "start + of_nat j :: u32"
  have d: "?k - rbNextExpected rb = of_nat (j - c)" unfolding nx using False by (intro seq_diff) simp
  have u: "unat (?k - rbNextExpected rb) = j - c" unfolding d using j m by (intro unat_of_nat_small) simp
  have nlt: "\<not> seqLT ?k (rbNextExpected rb)" unfolding seqLT_def d using j m by (intro not_seqLT_ahead) simp
  show ?thesis
  proof (cases "j = c")
    case True
    obtain es b e where "flush (?k + 1) (rbBuffer rb) = (es, e, b)" by (metis prod.exhaust)
    with r rbInsert_expected_eq [of ?k rb es e b p] have "ds = p # es" using True nx by simp
    then show ?thesis using True by (simp add: held_def)
  next
    case ne: False
    have "?k \<noteq> rbNextExpected rb"
    proof
      assume "?k = rbNextExpected rb"
      then have "unat (?k - rbNextExpected rb) = 0" by simp
      then show False using u ne False by simp
    qed
    then have rb': "rb' = (if map_of (rbBuffer rb) ?k = None
        then rb\<lparr>rbBuffer := AList.update ?k p (rbBuffer rb)\<rparr> else rb)"
      using r nlt u j unfolding rbInsert_def by (auto split: if_splits)
    have "?k \<in> fst ` set (rbBuffer rb')"
    proof (cases "map_of (rbBuffer rb) ?k")
      case None
      then show ?thesis unfolding rb' using AList.dom_update [of ?k p "rbBuffer rb"] by simp
    next
      case (Some x)
      then show ?thesis unfolding rb' using map_of_eq_None_iff [of "rbBuffer rb" ?k] by simp
    qed
    then show ?thesis by (simp add: held_def)
  qed
qed

lemma rbInsert_frame: "rbMaxBuffered (snd (rbInsert k p rb)) = rbMaxBuffered rb"
  by (simp add: rbInsert_def split: prod.split)

lemma arrivals_held:
  assumes "rb_inv f rb" and "rbNextExpected rb = start + of_nat c"
    and "rbMaxBuffered rb < 2 ^ 31" and "n \<le> Suc (rbMaxBuffered rb)"
    and "i < n" and "held start c rb i \<or> start + of_nat i \<in> set ks"
  shows "held start (c + length (fst (rb.arrivals f ks rb))) (snd (rb.arrivals f ks rb)) i"
  using assms
proof (induction ks arbitrary: rb c)
  case Nil
  then show ?case by simp
next
  case (Cons k ks)
  obtain ds rb' where r: "rbInsert k (f k) rb = (ds, rb')" by fastforce
  have inv: "rb_inv f rb'" using rb.insert_inv [OF Cons.prems(1), of k] r by simp
  have nx: "rbNextExpected rb' = start + of_nat (c + length ds)"
    using rb.insert_consecutive [OF Cons.prems(1), of k] r Cons.prems(2) by auto
  have mx: "rbMaxBuffered rb' = rbMaxBuffered rb" using rbInsert_frame [of k "f k" rb] r by simp
  have "held start (c + length ds) rb' i \<or> start + of_nat i \<in> set ks"
  proof (cases "start + of_nat i = k")
    case True
    with r Cons.prems(3-5) rbInsert_holds [OF Cons.prems(2,3), of i] show ?thesis by auto
  next
    case False
    with Cons.prems(6) have "held start c rb i \<or> start + of_nat i \<in> set ks" by auto
    then show ?thesis
      using rbInsert_keeps_held [OF Cons.prems(1,2,3) _ Cons.prems(5) _ r] Cons.prems(3,4) by auto
  qed
  from Cons.IH [OF inv nx _ _ Cons.prems(5) this] Cons.prems(3,4) mx r show ?case
    by (simp add: split_def add.assoc)
qed

lemma arrivals_complete:
  assumes "m < 2 ^ 31" and "n \<le> Suc m" and "\<forall>i < n. start + of_nat i \<in> set ks"
  shows "n \<le> length (fst (rb.arrivals f ks (newReorderBuffer start m)))"
proof (rule ccontr)
  let ?rb = "newReorderBuffer start m"
  let ?c = "length (fst (rb.arrivals f ks ?rb))"
  assume "\<not> n \<le> ?c"
  then have c: "?c < n" by simp
  have h: "held start (0 + ?c) (snd (rb.arrivals f ks ?rb)) ?c"
    by (rule arrivals_held) (use assms c in \<open>auto simp: rb_inv_new, auto simp: newReorderBuffer_def\<close>)
  from rb.arrivals_in_order [OF rb_inv_new, of f ks start m] have
    inv: "rb_inv f (snd (rb.arrivals f ks ?rb))" and
    nx: "rbNextExpected (snd (rb.arrivals f ks ?rb)) = start + of_nat ?c"
    by (auto simp: newReorderBuffer_def)
  from h have "start + of_nat ?c \<in> fst ` set (rbBuffer (snd (rb.arrivals f ks ?rb)))"
    by (simp add: held_def)
  with inv nx show False by (fastforce simp: rb_inv_def)
qed

text \<open>Only what was buffered or has just arrived is delivered, and nothing else enters the buffer.\<close>

lemma flush_delivered:
  "flush n buf = (ds, n', buf') \<Longrightarrow>
    set buf' \<subseteq> set buf \<and> (\<forall>i < length ds. n + of_nat i \<in> fst ` set buf)"
proof (induction n buf arbitrary: ds n' buf' rule: flush.induct)
  case (1 n buf)
  show ?case
  proof (cases "map_of buf n")
    case None
    with "1.prems" show ?thesis by (simp add: flush.simps [of n buf])
  next
    case (Some p)
    obtain es m b where r: "flush (n + 1) (AList.delete n buf) = (es, m, b)" by (metis prod.exhaust)
    with Some "1.prems" have d: "ds = p # es" "n' = m" "buf' = b" by (simp_all add: flush.simps [of n buf])
    from "1.IH" [OF Some r] have s: "set b \<subseteq> set buf"
      and i: "\<And>i. i < length es \<Longrightarrow> n + 1 + of_nat i \<in> fst ` set buf"
      by (auto simp: delete_filter)
    have "n + of_nat i \<in> fst ` set buf" if "i < length ds" for i
    proof (cases i)
      case 0
      with Some show ?thesis by (auto dest: map_of_SomeD intro: rev_image_eqI)
    next
      case (Suc j)
      with that i [of j] show ?thesis by (simp only: d length_Cons Suc_less_eq plus_of_nat_Suc)
    qed
    with s show ?thesis by (simp add: d)
  qed
qed

lemma flush_length: "flush n buf = (ds, n', buf') \<Longrightarrow> length ds + length buf' \<le> length buf"
proof (induction n buf arbitrary: ds n' buf' rule: flush.induct)
  case (1 n buf)
  show ?case
  proof (cases "map_of buf n")
    case (Some p)
    obtain es m b where r: "flush (n + 1) (AList.delete n buf) = (es, m, b)" by (metis prod.exhaust)
    with Some "1.prems" have "ds = p # es" "buf' = b" by (simp_all add: flush.simps [of n buf])
    with "1.IH" [OF Some r] length_delete_less [OF Some] show ?thesis by simp
  qed (use "1.prems" in \<open>simp add: flush.simps [of n buf]\<close>)
qed

lemma rbInsert_expected_length:
  assumes "rbInsert (rbNextExpected rb) p rb = (ds, rb')"
  shows "ds \<noteq> []" and "length ds + length (rbBuffer rb') \<le> Suc (length (rbBuffer rb))"
proof -
  obtain es e b where fl: "flush (rbNextExpected rb + 1) (rbBuffer rb) = (es, e, b)" by (metis prod.exhaust)
  have "ds = p # es" "rbBuffer rb' = b" using assms rbInsert_expected_eq [OF refl fl, of p] by auto
  with flush_length [OF fl] show "ds \<noteq> []" "length ds + length (rbBuffer rb') \<le> Suc (length (rbBuffer rb))" by simp_all
qed

lemma rbInsert_delivered:
  assumes "rbInsert k p rb = (ds, rb')"
  shows "fst ` set (rbBuffer rb') \<subseteq> insert k (fst ` set (rbBuffer rb)) \<and>
    (\<forall>i < length ds. rbNextExpected rb + of_nat i \<in> insert k (fst ` set (rbBuffer rb)))"
proof (cases "k = rbNextExpected rb")
  case True
  obtain es b e where fl: "flush (k + 1) (rbBuffer rb) = (es, e, b)" by (metis prod.exhaust)
  have d: "ds = p # es" "rbBuffer rb' = b"
    using assms rbInsert_expected_eq [OF True fl, of p] by auto
  note fd = flush_delivered [OF fl]
  have "k + of_nat i \<in> insert k (fst ` set (rbBuffer rb))" if "i < length ds" for i
  proof (cases i)
    case (Suc j)
    with that fd show ?thesis by (simp only: d length_Cons Suc_less_eq plus_of_nat_Suc) blast
  qed simp
  with fd True show ?thesis by (auto simp: d)
next
  case False
  have "ds = []" and "rbBuffer rb' = rbBuffer rb \<or> rbBuffer rb' = AList.update k p (rbBuffer rb)"
    using assms False by (auto simp: rbInsert_def split: if_splits)
  with set_update [of k p "rbBuffer rb"] show ?thesis by auto
qed

section \<open>Properties\<close>

text \<open>C17: whatever the order and repetition in which packets arrive, what the buffer delivers is the
  stream in order without gap or repetition; and once the first n numbers have all arrived (n up to
  one more than the buffer holds), at least the first n have been delivered.\<close>

theorem reorder_delivers_in_order:
  assumes "m < 2 ^ 31" and "n \<le> Suc m" and "\<forall>i < n. start + of_nat i \<in> set ks"
  shows "\<exists>k \<ge> n. fst (rb.arrivals f ks (newReorderBuffer start m)) =
    map (\<lambda>i. f (start + of_nat i)) [0..<k]"
proof -
  from rb.arrivals_in_order [OF rb_inv_new, of f ks start m] obtain k where
    k: "fst (rb.arrivals f ks (newReorderBuffer start m)) = map (\<lambda>i. f (start + of_nat i)) [0..<k]"
    by (auto simp: newReorderBuffer_def)
  moreover have "n \<le> k" using arrivals_complete [OF assms, of f] by (simp add: k)
  ultimately show ?thesis by blast
qed

theorem reorder_delivers_in_order_witness:
  "\<exists>k \<ge> 3. fst (rb.arrivals (\<lambda>s. [ucast s]) [3, 1, 3, 2] (newReorderBuffer 1 512)) =
    map (\<lambda>i. [ucast (1 + of_nat i :: u32)]) [0..<k]"
proof (rule reorder_delivers_in_order)
  show "\<forall>i < 3 :: nat. (1 :: u32) + of_nat i \<in> set [3, 1, 3, 2]"
    by (simp only: numeral_3_eq_3 less_Suc_eq) auto
qed simp_all

end
