(* ===== verification/Conn.thy ===== *)
theory Conn
  imports Retx Reorder "HOL-Library.Sublist"
begin

text \<open>
  \<^verbatim>\<open>internal/transport/conn.go\<close>: one reliable connection. A method is one step: it takes
  the outcome of what it calls outside the program (the clock, the socket's error, the two dice of
  the chaos hook) as arguments and returns, with its result, the new connection and the datagrams
  it handed to the socket. The mutex and the atomics make the methods that share the sending side
  run one at a time.
\<close>

type_synonym addr = string

datatype ConnState = StateClosed | StateSynSent | StateEstablished | StateFin

record Conn =
  cnConnID :: u16
  cnRemoteAddr :: addr
  cnState :: ConnState
  cnSendSeq :: u32
  cnRetx :: retxQueue
  cnRecvAck :: u32
  cnRecvBitmask :: u32
  cnReorder :: reorderBuffer
  cnSrtt :: int
  cnRttVar :: int
  cnChaos :: bool
  cnInbox :: "byte list list"
  cnInboxSize :: nat
  cnLastRecv :: int

definition Millisecond :: int where "Millisecond = 1000000"

definition NewConn :: "u16 \<Rightarrow> addr \<Rightarrow> bool \<Rightarrow> int \<Rightarrow> int \<Rightarrow> Conn" where
  "NewConn connID remoteAddr chaos inboxSize now =
     (let inboxSize = (if inboxSize \<le> 0 then 256 else inboxSize)
      in \<lparr>cnConnID = connID, cnRemoteAddr = remoteAddr, cnState = StateClosed, cnSendSeq = 0,
          cnRetx = newRetxQueue, cnRecvAck = 0, cnRecvBitmask = 0,
          cnReorder = newReorderBuffer 1 512, cnSrtt = 100 * Millisecond, cnRttVar = 0,
          cnChaos = chaos, cnInbox = [], cnInboxSize = nat inboxSize, cnLastRecv = now\<rparr>)"

section \<open>Round-trip estimation\<close>

definition updateRTT :: "int \<Rightarrow> Conn \<Rightarrow> Conn" where
  "updateRTT sample c =
     (if sample \<le> 0 then c
      else let srtt = cnSrtt c; rttvar = cnRttVar c;
               (srtt, rttvar) =
                 (if srtt = 0 then (sample, sample sdiv 2)
                  else let diff = srtt - sample;
                           diff = (if diff < 0 then - diff else diff);
                           rttvar = (3 * rttvar + diff) sdiv 4
                       in ((7 * srtt + sample) sdiv 8, rttvar))
           in c\<lparr>cnSrtt := srtt, cnRttVar := rttvar\<rparr>)"

definition conn_rto :: "Conn \<Rightarrow> int" where
  "conn_rto c =
     (let rto = cnSrtt c + 4 * cnRttVar c;
          rto = (if rto < InitialRTO then InitialRTO else rto);
          rto = (if rto > MaxRTO then MaxRTO else rto)
      in rto)"

section \<open>Sending\<close>

text \<open>
  What \<^verbatim>\<open>Send\<close> meets outside: the time, whether the first write succeeds, and the
  answers of the chaos hook, which count only when there is one. A method returns whether it
  reports an error.
\<close>

record send_env =
  seNow :: int
  seWriteOk :: bool
  seDrop :: bool
  seDuplicate :: bool

type_synonym datagram = "byte list \<times> addr"

definition Send :: "send_env \<Rightarrow> byte list \<Rightarrow> Conn \<Rightarrow> bool \<times> datagram list \<times> Conn" where
  "Send env payload c =
     (let c = c\<lparr>cnSendSeq := cnSendSeq c + 1\<rparr>;
          pkt = \<lparr>pkFlags = FlagReliable OR FlagACK, pkConnID = cnConnID c, pkSeq = cnSendSeq c,
                 pkAck = cnRecvAck c, pkAckBitmask = cnRecvBitmask c, pkPayload = payload\<rparr>;
          data = encodePacket pkt;
          tracked = c\<lparr>cnRetx := retxAdd pkt (seNow env) (conn_rto c) (cnRetx c)\<rparr>
      in if cnChaos c \<and> seDrop env then (True, [], tracked)
         else if \<not> seWriteOk env then (False, [], c)
         else (True,
               [(data, cnRemoteAddr c)] @
                 (if cnChaos c \<and> seDuplicate env then [(data, cnRemoteAddr c)] else []),
               tracked))"

definition SendUnreliable :: "bool \<Rightarrow> byte list \<Rightarrow> Conn \<Rightarrow> bool \<times> datagram list \<times> Conn" where
  "SendUnreliable writeOk payload c =
     (let c = c\<lparr>cnSendSeq := cnSendSeq c + 1\<rparr>;
          pkt = \<lparr>pkFlags = FlagACK, pkConnID = cnConnID c, pkSeq = cnSendSeq c,
                 pkAck = cnRecvAck c, pkAckBitmask = cnRecvBitmask c, pkPayload = payload\<rparr>
      in (writeOk, if writeOk then [(encodePacket pkt, cnRemoteAddr c)] else [], c))"

definition SendACK :: "bool \<Rightarrow> Conn \<Rightarrow> bool \<times> datagram list \<times> Conn" where
  "SendACK writeOk c =
     (let pkt = \<lparr>pkFlags = FlagACK, pkConnID = cnConnID c, pkSeq = 0,
                 pkAck = cnRecvAck c, pkAckBitmask = cnRecvBitmask c, pkPayload = []\<rparr>
      in (writeOk, if writeOk then [(encodePacket pkt, cnRemoteAddr c)] else [], c))"

definition SendPing :: "bool \<Rightarrow> Conn \<Rightarrow> bool \<times> datagram list \<times> Conn" where
  "SendPing writeOk c =
     (let pkt = \<lparr>pkFlags = FlagPING OR FlagACK, pkConnID = cnConnID c, pkSeq = 0,
                 pkAck = cnRecvAck c, pkAckBitmask = cnRecvBitmask c, pkPayload = []\<rparr>
      in (writeOk, if writeOk then [(encodePacket pkt, cnRemoteAddr c)] else [], c))"

text \<open>
  \<^verbatim>\<open>Tick\<close> resends the due packets with the current acknowledgement. The packets are
  shared with the queue through pointers, so the queue's copies are refreshed too.
\<close>

definition refresh_ack :: "Conn \<Rightarrow> Packet \<Rightarrow> Packet" where
  "refresh_ack c p = p\<lparr>pkAck := cnRecvAck c, pkAckBitmask := cnRecvBitmask c\<rparr>"

definition refresh_pending :: "Conn \<Rightarrow> u32 list \<Rightarrow> u32 \<times> pendingPacket \<Rightarrow> u32 \<times> pendingPacket" where
  "refresh_pending c resent sp =
     (fst sp, if fst sp \<in> set resent then (snd sp)\<lparr>ppPkt := refresh_ack c (ppPkt (snd sp))\<rparr> else snd sp)"

definition conn_Tick ::
  "int \<Rightarrow> Conn \<Rightarrow> (nat \<times> u32 list) \<times> datagram list \<times> Conn" where
  "conn_Tick now c =
     (case CollectRetransmissions now (cnRetx c) of (pkts, expired, q) \<Rightarrow>
        ((length pkts, expired),
         map (\<lambda>p. (encodePacket (refresh_ack c p), cnRemoteAddr c)) pkts,
         c\<lparr>cnRetx := map (refresh_pending c (map pkSeq pkts)) q\<rparr>))"

definition PendingCount :: "Conn \<Rightarrow> nat" where
  "PendingCount c = retxPendingCount (cnRetx c)"

section \<open>Receiving\<close>

definition updateRecvAck :: "u32 \<Rightarrow> u32 \<times> u32 \<Rightarrow> u32 \<times> u32" where
  "updateRecvAck seq ab =
     (let (recvAck, recvBitmask) = ab
      in if seqLT recvAck seq then
           (let diff = seq - recvAck
            in (seq, if diff \<le> 32
                     then push_bit (unat diff) recvBitmask OR push_bit (unat (diff - 1)) 1
                     else 0))
         else if seq < recvAck then
           (let diff = recvAck - seq
            in (recvAck, if diff \<le> 32 then recvBitmask OR push_bit (unat (diff - 1)) 1
                         else recvBitmask))
         else (recvAck, recvBitmask))"

text \<open>A send on the buffered channel that gives up when the channel is full.\<close>

definition push_inbox :: "byte list \<Rightarrow> Conn \<Rightarrow> Conn" where
  "push_inbox payload c =
     (if length (cnInbox c) < cnInboxSize c then c\<lparr>cnInbox := cnInbox c @ [payload]\<rparr> else c)"

definition recv_acks :: "int \<Rightarrow> Packet \<Rightarrow> Conn \<Rightarrow> Conn" where
  "recv_acks now pkt c =
     (if IsACK pkt then
        (case retxAck (pkAck pkt) now (cnRetx c) of ((rtt, ok), q) \<Rightarrow>
           (let c = c\<lparr>cnRetx := q\<rparr>;
                c = (if ok then updateRTT rtt c else c)
            in c\<lparr>cnRetx := retxAckBitmask (pkAck pkt) (pkAckBitmask pkt) now (cnRetx c)\<rparr>))
      else c)"

definition recv_reliable :: "Packet \<Rightarrow> Conn \<Rightarrow> Conn" where
  "recv_reliable pkt c =
     (if IsReliable pkt \<and> 0 < length (pkPayload pkt) then
        (case updateRecvAck (pkSeq pkt) (cnRecvAck c, cnRecvBitmask c) of (a, m) \<Rightarrow>
         (case rbInsert (pkSeq pkt) (pkPayload pkt) (cnReorder c) of (delivered, rb) \<Rightarrow>
            foldl (\<lambda>c p. push_inbox p c)
              (c\<lparr>cnRecvAck := a, cnRecvBitmask := m, cnReorder := rb\<rparr>) delivered))
      else c)"

definition recv_unreliable :: "Packet \<Rightarrow> Conn \<Rightarrow> Conn" where
  "recv_unreliable pkt c =
     (if \<not> IsReliable pkt \<and> 0 < length (pkPayload pkt) \<and> \<not> IsPING pkt
      then push_inbox (pkPayload pkt) c else c)"

definition HandleReceive :: "int \<Rightarrow> Packet \<Rightarrow> Conn \<Rightarrow> Conn" where
  "HandleReceive now pkt c =
     (let c = c\<lparr>cnLastRecv := now\<rparr>;
          c = recv_acks now pkt c;
          c = recv_reliable pkt c
      in recv_unreliable pkt c)"

text \<open>A receive from the channel \<^verbatim>\<open>Inbox\<close>, by whoever drains it.\<close>

definition take_inbox :: "Conn \<Rightarrow> byte list option \<times> Conn" where
  "take_inbox c = (case cnInbox c of [] \<Rightarrow> (None, c) | p # ps \<Rightarrow> (Some p, c\<lparr>cnInbox := ps\<rparr>))"

section \<open>The acknowledgement window\<close>

lemma unat_diff_eq_0: "unat (a - s :: u32) = 0 \<longleftrightarrow> s = a"
  by (metis right_minus_eq unat_eq_zero)

lemma unat_diff_eq: "unat (a - s) = unat (a - t :: u32) \<longleftrightarrow> s = t"
  by (simp flip: word_unat_eq_iff)

lemma acked_iff:
  "acked a m s \<longleftrightarrow> unat (a - s) = 0 \<or> unat (a - s) \<le> 32 \<and> bit m (unat (a - s) - 1)"
proof -
  have "s = a - 1 - of_nat i \<longleftrightarrow> unat (a - s) = Suc i" if "i < 32" for i
  proof -
    have "unat (of_nat (Suc i) :: u32) = Suc i" using that by (intro unat_of_nat_small) simp
    then have "unat (a - s) = Suc i \<longleftrightarrow> a - s = of_nat (Suc i)"
      by (metis word_unat_eq_iff)
    also have "\<dots> \<longleftrightarrow> s = a - 1 - of_nat i"
      by (metis (no_types, opaque_lifting) add_diff_cancel_left' diff_add_cancel diff_diff_eq of_nat_Suc)
    finally show ?thesis by simp
  qed
  then have "(\<exists>i < 32. bit m i \<and> s = a - 1 - of_nat i) \<longleftrightarrow> (\<exists>i < 32. bit m i \<and> unat (a - s) = Suc i)"
    by blast
  also have "\<dots> \<longleftrightarrow> unat (a - s) \<noteq> 0 \<and> unat (a - s) \<le> 32 \<and> bit m (unat (a - s) - 1)"
    by (cases "unat (a - s)") auto
  finally show ?thesis unfolding acked_def by (metis unat_diff_eq_0)
qed

lemma seqLT_unat: "seqLT a s \<longleftrightarrow> 0 < unat (s - a) \<and> unat (s - a) \<le> 2 ^ 31"
proof -
  let ?x = "a - s"
  have "sint ?x < 0 \<longleftrightarrow> bit ?x 31" using bit_last_iff [of ?x] by simp
  also have "\<dots> \<longleftrightarrow> odd (unat ?x div 2 ^ 31)" by (metis bit_iff_odd bit_unsigned_iff possible_bit_nat)
  also have "\<dots> \<longleftrightarrow> 2 ^ 31 \<le> unat ?x"
  proof -
    have "unat ?x div 2 ^ 31 < 2" using unsigned_less [of ?x, where ?'a = nat] by (simp add: div_less_iff_less_mult)
    then have "odd (unat ?x div 2 ^ 31) \<longleftrightarrow> 1 \<le> unat ?x div 2 ^ 31" by (auto simp: less_2_cases_iff)
    also have "\<dots> \<longleftrightarrow> 2 ^ 31 \<le> unat ?x" by (simp add: Suc_le_eq div_greater_zero_iff)
    finally show ?thesis .
  qed
  also have "\<dots> \<longleftrightarrow> 0 < unat (s - a) \<and> unat (s - a) \<le> 2 ^ 31"
    using unsigned_less [of a, where ?'a = nat] unsigned_less [of s, where ?'a = nat]
    by (auto simp: unat_sub_if')
  finally show ?thesis by (simp add: seqLT_def word_sless_alt)
qed

text \<open>A newer packet slides the window; an older one inside it sets its bit.\<close>

lemma updateRecvAck_newer:
  assumes "seqLT a seq"
  shows "fst (updateRecvAck seq (a, m)) = seq"
    and "acked seq (snd (updateRecvAck seq (a, m))) s \<longleftrightarrow>
      s = seq \<or> acked a m s \<and> unat (seq - s) \<le> 32"
proof -
  show "fst (updateRecvAck seq (a, m)) = seq" using assms by (simp add: updateRecvAck_def Let_def)
next
  let ?d = "unat (seq - a)" and ?k = "unat (seq - s)"
  from assms have d: "0 < ?d" "?d \<le> 2 ^ 31" by (simp_all add: seqLT_unat)
  have "a - s = (seq - s) - (seq - a)" by simp
  then have k: "unat (a - s) = (if ?d \<le> ?k then ?k - ?d else ?k + 2 ^ 32 - ?d)"
    by (simp only: unat_sub_if') simp
  have "?d \<le> 32 \<longleftrightarrow> seq - a \<le> 32" by (simp add: word_le_nat_alt)
  moreover have "unat (seq - a - 1) = ?d - 1" using d(1) by (intro unat_minus_one) auto
  ultimately have m': "snd (updateRecvAck seq (a, m)) =
      (if ?d \<le> 32 then push_bit ?d m OR push_bit (?d - 1) 1 else 0)"
    using assms by (simp add: updateRecvAck_def Let_def)
  have z: "s = seq \<longleftrightarrow> ?k = 0" by (simp only: unat_diff_eq_0)
  show "acked seq (snd (updateRecvAck seq (a, m))) s \<longleftrightarrow>
      s = seq \<or> acked a m s \<and> unat (seq - s) \<le> 32"
    unfolding acked_iff m' z k
    using d by (auto simp: bit_or_iff bit_push_bit_iff bit_exp_iff)
qed

lemma updateRecvAck_older:
  assumes "\<not> seqLT a seq" and "seq \<le> a"
  shows "fst (updateRecvAck seq (a, m)) = a"
    and "acked a (snd (updateRecvAck seq (a, m))) s \<longleftrightarrow>
      acked a m s \<or> s = seq \<and> unat (a - s) \<le> 32"
proof -
  show "fst (updateRecvAck seq (a, m)) = a" using assms by (auto simp: updateRecvAck_def Let_def)
next
  let ?d = "unat (a - seq)" and ?k = "unat (a - s)"
  have z: "s = seq \<longleftrightarrow> ?k = ?d" by (simp only: unat_diff_eq)
  show "acked a (snd (updateRecvAck seq (a, m))) s \<longleftrightarrow>
      acked a m s \<or> s = seq \<and> unat (a - s) \<le> 32"
  proof (cases "seq = a")
    case True
    with assms show ?thesis by (auto simp: updateRecvAck_def acked_iff)
  next
    case False
    then have d: "0 < ?d" by (simp add: unat_gt_0)
    have "?d \<le> 32 \<longleftrightarrow> a - seq \<le> 32" by (simp add: word_le_nat_alt)
    moreover have "unat (a - seq - 1) = ?d - 1" using d by (intro unat_minus_one) auto
    moreover have "seq < a" using False assms(2) by simp
    ultimately have m': "snd (updateRecvAck seq (a, m)) = (if ?d \<le> 32 then m OR push_bit (?d - 1) 1 else m)"
      using assms by (simp add: updateRecvAck_def Let_def)
    show ?thesis
      unfolding acked_iff m' z
      using d by (auto simp: bit_or_iff bit_push_bit_iff bit_exp_iff)
  qed
qed

lemma updateRecvAck_wrapped:
  assumes "\<not> seqLT a seq" and "\<not> seq \<le> a"
  shows "updateRecvAck seq (a, m) = (a, m)"
  using assms by (auto simp: updateRecvAck_def Let_def)

text \<open>Nothing is acknowledged that did not arrive, wrap-around or not.\<close>

lemma updateRecvAck_sound:
  assumes "acked (fst (updateRecvAck seq (a, m))) (snd (updateRecvAck seq (a, m))) s"
  shows "s = seq \<or> acked a m s"
proof (cases "seqLT a seq")
  case True
  with assms updateRecvAck_newer [OF this, of m] show ?thesis by auto
next
  case False
  with assms updateRecvAck_older [OF this, of m] updateRecvAck_wrapped [OF this, of m] show ?thesis
    by (cases "seq \<le> a") auto
qed

lemma acks_sound:
  "acked (fst (fold updateRecvAck ks (a, m))) (snd (fold updateRecvAck ks (a, m))) s \<Longrightarrow>
    s \<in> set ks \<or> acked a m s"
proof (induction ks arbitrary: a m)
  case Nil
  then show ?case by simp
next
  case (Cons k ks)
  obtain a' m' where u: "updateRecvAck k (a, m) = (a', m')" by fastforce
  with Cons.prems Cons.IH [of a' m'] have "s \<in> set ks \<or> acked a' m' s" by simp
  with updateRecvAck_sound [of k a m s] u show ?case by auto
qed

text \<open>
  Below half the sequence space the window is exact: the highest arrival, and every arrival at
  most 32 below it.
\<close>

lemma seqLT_low: "a < 2 ^ 31 \<Longrightarrow> s < 2 ^ 31 \<Longrightarrow> seqLT a s \<longleftrightarrow> a < (s :: u32)"
  by (auto simp: seqLT_unat word_less_nat_alt unat_sub_if' split: if_splits)

lemma acks_exact:
  assumes "\<forall>k \<in> set ks. k < 2 ^ 31"
  shows "fst (fold updateRecvAck ks (0, 0)) = fold max ks 0 \<and>
    (\<forall>s. acked (fst (fold updateRecvAck ks (0, 0))) (snd (fold updateRecvAck ks (0, 0))) s \<longleftrightarrow>
      s \<in> insert 0 (set ks) \<and> s \<le> fold max ks 0 \<and> unat (fold max ks 0 - s) \<le> 32)"
  using assms
proof (induction ks rule: rev_induct)
  case Nil
  show ?case using unat_diff_eq_0 [of 0] by (auto simp: acked_iff)
next
  case (snoc k ks)
  obtain a m where am: "fold updateRecvAck ks (0, 0) = (a, m)" by fastforce
  have "fold max ks 0 < (2 ^ 31 :: u32)"
  proof -
    have "fold max xs b < (2 ^ 31 :: u32)" if "b < 2 ^ 31" "\<forall>k \<in> set xs. k < 2 ^ 31" for xs b
      using that by (induction xs arbitrary: b) (auto simp: max_def)
    then show ?thesis using snoc.prems by simp
  qed
  moreover have ih: "a = fold max ks 0" and iha: "acked a m s \<longleftrightarrow> s \<in> insert 0 (set ks) \<and> s \<le> a \<and> unat (a - s) \<le> 32" for s
    using snoc am by auto
  ultimately have low: "a < 2 ^ 31" "k < 2 ^ 31" using snoc.prems by simp_all
  have f: "fold max (ks @ [k]) 0 = max k a" by (simp add: ih)
  have top: "s \<le> a" if "s \<in> insert 0 (set ks)" for s
  proof -
    have "b \<le> fold max xs b \<and> (\<forall>x \<in> set xs. x \<le> fold max xs b)" for xs and b :: u32
    proof (induction xs arbitrary: b)
      case (Cons x xs)
      from Cons [of "max x b"] show ?case by (auto simp: max_def split: if_splits)
    qed simp
    from this [of 0 ks] that show ?thesis unfolding ih by auto
  qed
  show ?case
  proof (cases "a < k")
    case True
    then have lt: "seqLT a k" using seqLT_low low by simp
    have far: "unat (a - s) \<le> 32" if "s \<le> a" "unat (k - s) \<le> 32" for s
      using that True by (auto simp: unat_sub_if' word_le_nat_alt word_less_nat_alt split: if_splits)
    have mx: "max k a = k" using True by simp
    have "s = k \<or> acked a m s \<and> unat (k - s) \<le> 32 \<longleftrightarrow>
        s \<in> insert 0 (insert k (set ks)) \<and> s \<le> k \<and> unat (k - s) \<le> 32" for s
      using top [of s] far [of s] True unfolding iha by auto
    then show ?thesis using updateRecvAck_newer [OF lt, of m]
      unfolding f mx by (simp add: am insert_commute)
  next
    case False
    then have le: "\<not> seqLT a k" "k \<le> a" using seqLT_low low by auto
    then have mx: "max k a = a" by simp
    have "acked a m s \<or> s = k \<and> unat (a - s) \<le> 32 \<longleftrightarrow>
        s \<in> insert 0 (insert k (set ks)) \<and> s \<le> a \<and> unat (a - s) \<le> 32" for s
      using le(2) unfolding iha by auto
    then show ?thesis using updateRecvAck_older [OF le, of m]
      unfolding f mx by (simp add: am insert_commute)
  qed
qed

section \<open>Timeouts\<close>

lemma conn_rto_bounds: "InitialRTO \<le> conn_rto c" "conn_rto c \<le> MaxRTO"
  by (simp_all add: conn_rto_def Let_def InitialRTO_def MaxRTO_def)

definition rtt_within :: "int \<Rightarrow> int \<Rightarrow> Conn \<Rightarrow> bool" where
  "rtt_within lo hi c \<longleftrightarrow> lo \<le> cnSrtt c \<and> cnSrtt c \<le> hi \<and> 0 \<le> cnRttVar c \<and> cnRttVar c \<le> hi"

lemma updateRTT_within:
  assumes "rtt_within lo hi c" and "0 \<le> lo" and "0 < sample \<Longrightarrow> lo \<le> sample \<and> sample \<le> hi"
  shows "rtt_within lo hi (updateRTT sample c)"
proof (cases "sample \<le> 0")
  case True
  then show ?thesis using assms by (simp add: updateRTT_def)
next
  case False
  then have s: "0 < sample" "lo \<le> sample" "sample \<le> hi" using assms(3) by auto
  note q = sdiv_nonneg
  show ?thesis
  proof (cases "cnSrtt c = 0")
    case True
    with assms s show ?thesis by (simp add: updateRTT_def rtt_within_def q)
  next
    case ne: False
    let ?s = "cnSrtt c" and ?v = "cnRttVar c"
    let ?d = "if ?s - sample < 0 then - (?s - sample) else ?s - sample"
    have b: "lo \<le> ?s" "?s \<le> hi" "0 \<le> ?v" "?v \<le> hi" using assms(1) by (simp_all add: rtt_within_def)
    have d: "0 \<le> ?d" "?d \<le> hi" using b s assms(2) by auto
    have "updateRTT sample c = c\<lparr>cnSrtt := (7 * ?s + sample) div 8, cnRttVar := (3 * ?v + ?d) div 4\<rparr>"
      using False ne b d s assms(2) by (auto simp: updateRTT_def Let_def q)
    moreover have "lo \<le> (7 * ?s + sample) div 8" "(7 * ?s + sample) div 8 \<le> hi" using b s by linarith+
    moreover have "0 \<le> (3 * ?v + ?d) div 4" "(3 * ?v + ?d) div 4 \<le> hi" using b d by linarith+
    ultimately show ?thesis by (simp add: rtt_within_def)
  qed
qed

section \<open>The connection's invariant\<close>

definition conn_ok :: "Conn \<Rightarrow> bool" where
  "conn_ok c \<longleftrightarrow> retx_ok (cnRetx c) \<and> length (cnInbox c) \<le> cnInboxSize c \<and>
     (\<exists>f. rb_inv f (cnReorder c))"

lemma conn_ok_new: "conn_ok (NewConn i a ch n now)"
  by (auto simp: conn_ok_def NewConn_def retx_ok_def newRetxQueue_def Let_def intro: rb_inv_new)

lemma push_inbox_frame [simp]:
  "cnConnID (push_inbox p c) = cnConnID c" "cnRemoteAddr (push_inbox p c) = cnRemoteAddr c"
  "cnState (push_inbox p c) = cnState c" "cnSendSeq (push_inbox p c) = cnSendSeq c"
  "cnRetx (push_inbox p c) = cnRetx c" "cnReorder (push_inbox p c) = cnReorder c"
  "cnRecvAck (push_inbox p c) = cnRecvAck c" "cnRecvBitmask (push_inbox p c) = cnRecvBitmask c"
  "cnInboxSize (push_inbox p c) = cnInboxSize c" "cnChaos (push_inbox p c) = cnChaos c"
  "cnSrtt (push_inbox p c) = cnSrtt c" "cnRttVar (push_inbox p c) = cnRttVar c"
  "cnLastRecv (push_inbox p c) = cnLastRecv c"
  by (simp_all add: push_inbox_def)

abbreviation push_all :: "byte list list \<Rightarrow> Conn \<Rightarrow> Conn" where
  "push_all ps c \<equiv> foldl (\<lambda>c p. push_inbox p c) c ps"

lemma push_all_frame [simp]:
  "cnConnID (push_all ps c) = cnConnID c" "cnRemoteAddr (push_all ps c) = cnRemoteAddr c"
  "cnState (push_all ps c) = cnState c" "cnSendSeq (push_all ps c) = cnSendSeq c"
  "cnRetx (push_all ps c) = cnRetx c" "cnReorder (push_all ps c) = cnReorder c"
  "cnRecvAck (push_all ps c) = cnRecvAck c" "cnRecvBitmask (push_all ps c) = cnRecvBitmask c"
  "cnInboxSize (push_all ps c) = cnInboxSize c" "cnChaos (push_all ps c) = cnChaos c"
  "cnSrtt (push_all ps c) = cnSrtt c" "cnRttVar (push_all ps c) = cnRttVar c"
  "cnLastRecv (push_all ps c) = cnLastRecv c"
  by (induction ps arbitrary: c) simp_all

lemma push_all_inbox:
  "cnInbox (push_all ps c) = cnInbox c @ take (cnInboxSize c - length (cnInbox c)) ps"
proof (induction ps arbitrary: c)
  case (Cons p ps)
  show ?case
  proof (cases "length (cnInbox c) < cnInboxSize c")
    case True
    then obtain k where k: "cnInboxSize c - length (cnInbox c) = Suc k" by (cases "cnInboxSize c - length (cnInbox c)") auto
    then have "cnInboxSize c - Suc (length (cnInbox c)) = k" by simp
    with True k Cons.IH [of "push_inbox p c"] show ?thesis by (simp add: push_inbox_def)
  next
    case False
    with Cons.IH [of "push_inbox p c"] show ?thesis by (simp add: push_inbox_def)
  qed
qed simp

lemma updateRTT_frame [simp]:
  "cnConnID (updateRTT s c) = cnConnID c" "cnRemoteAddr (updateRTT s c) = cnRemoteAddr c"
  "cnState (updateRTT s c) = cnState c" "cnSendSeq (updateRTT s c) = cnSendSeq c"
  "cnRetx (updateRTT s c) = cnRetx c" "cnReorder (updateRTT s c) = cnReorder c"
  "cnRecvAck (updateRTT s c) = cnRecvAck c" "cnRecvBitmask (updateRTT s c) = cnRecvBitmask c"
  "cnInbox (updateRTT s c) = cnInbox c" "cnInboxSize (updateRTT s c) = cnInboxSize c"
  "cnChaos (updateRTT s c) = cnChaos c" "cnLastRecv (updateRTT s c) = cnLastRecv c"
  by (simp_all add: updateRTT_def Let_def split_def)

lemma recv_acks_frame [simp]:
  "cnConnID (recv_acks now pkt c) = cnConnID c" "cnRemoteAddr (recv_acks now pkt c) = cnRemoteAddr c"
  "cnState (recv_acks now pkt c) = cnState c" "cnSendSeq (recv_acks now pkt c) = cnSendSeq c"
  "cnReorder (recv_acks now pkt c) = cnReorder c"
  "cnRecvAck (recv_acks now pkt c) = cnRecvAck c" "cnRecvBitmask (recv_acks now pkt c) = cnRecvBitmask c"
  "cnInbox (recv_acks now pkt c) = cnInbox c" "cnInboxSize (recv_acks now pkt c) = cnInboxSize c"
  "cnChaos (recv_acks now pkt c) = cnChaos c" "cnLastRecv (recv_acks now pkt c) = cnLastRecv c"
  by (simp_all add: recv_acks_def Let_def split: prod.split)

lemma recv_acks_retx:
  "cnRetx (recv_acks now pkt c) =
    (if IsACK pkt then retxAckBitmask (pkAck pkt) (pkAckBitmask pkt) now (snd (retxAck (pkAck pkt) now (cnRetx c)))
     else cnRetx c)"
  by (simp add: recv_acks_def Let_def split: prod.split)

lemma recv_acks_map:
  "map_of (cnRetx (recv_acks now pkt c)) s =
    (if IsACK pkt \<and> acked (pkAck pkt) (pkAckBitmask pkt) s then None else map_of (cnRetx c) s)"
  by (auto simp: recv_acks_retx retxAckBitmask_map acked_def)

lemma rb_inv_any:
  assumes "rb_inv f rb"
  shows "\<exists>f. rb_inv f (snd (rbInsert k p rb))"
proof (cases "map_of (rbBuffer rb) k")
  case None
  then have "x \<in> set (rbBuffer rb) \<Longrightarrow> fst x \<noteq> k" for x by (auto simp: map_of_eq_None_iff)
  then have "rb_inv (f(k := p)) rb" using assms unfolding rb_inv_def by (simp add: split_def)
  from rb.insert_inv [OF this, of k] show ?thesis by auto
next
  case (Some x)
  then have "(k, x) \<in> set (rbBuffer rb)" by (rule map_of_SomeD)
  then have "k \<noteq> rbNextExpected rb" using assms by (auto simp: rb_inv_def)
  with Some have "snd (rbInsert k p rb) = rb" by (simp add: rbInsert_def)
  with assms show ?thesis by auto
qed

lemma map_fst_refresh [simp]: "map (fst \<circ> refresh_pending c ks) q = map fst q"
  by (simp add: refresh_pending_def)

lemma pending_ok_refresh: "pending_ok sp \<Longrightarrow> pending_ok (refresh_pending c ks sp)"
  by (simp add: pending_ok_def refresh_pending_def refresh_ack_def)

lemma retx_ok_refresh: "retx_ok q \<Longrightarrow> retx_ok (map (refresh_pending c ks) q)"
  by (auto simp: retx_ok_def list_all_iff pending_ok_refresh)

lemma conn_ok_Send: "conn_ok c \<Longrightarrow> conn_ok (snd (snd (Send env p c)))"
  by (simp add: conn_ok_def Send_def Let_def conn_rto_bounds retx_ok_add)

lemma conn_ok_Tick: "conn_ok c \<Longrightarrow> conn_ok (snd (snd (conn_Tick now c)))"
  using retx_ok_collect [of "cnRetx c" now]
  by (auto simp: conn_ok_def conn_Tick_def retx_ok_refresh split: prod.split)

lemma conn_ok_recv_acks: "conn_ok c \<Longrightarrow> conn_ok (recv_acks now pkt c)"
  by (simp add: conn_ok_def recv_acks_retx retx_ok_ack retx_ok_ackBitmask)

lemma conn_ok_push: "conn_ok c \<Longrightarrow> conn_ok (push_inbox p c)"
  by (simp add: conn_ok_def) (simp add: push_inbox_def)

lemma conn_ok_push_all: "conn_ok c \<Longrightarrow> conn_ok (push_all ps c)"
  by (induction ps arbitrary: c) (simp_all add: conn_ok_push)

lemma recv_reliable_eq:
  "recv_reliable pkt c =
    (if IsReliable pkt \<and> pkPayload pkt \<noteq> [] then
       push_all (fst (rbInsert (pkSeq pkt) (pkPayload pkt) (cnReorder c)))
         (c\<lparr>cnRecvAck := fst (updateRecvAck (pkSeq pkt) (cnRecvAck c, cnRecvBitmask c)),
            cnRecvBitmask := snd (updateRecvAck (pkSeq pkt) (cnRecvAck c, cnRecvBitmask c)),
            cnReorder := snd (rbInsert (pkSeq pkt) (pkPayload pkt) (cnReorder c))\<rparr>)
     else c)"
  by (simp add: recv_reliable_def split_def)

lemma conn_ok_recv_reliable:
  assumes "conn_ok c"
  shows "conn_ok (recv_reliable pkt c)"
proof -
  have "conn_ok (c\<lparr>cnRecvAck := a, cnRecvBitmask := m,
      cnReorder := snd (rbInsert (pkSeq pkt) (pkPayload pkt) (cnReorder c))\<rparr>)" for a m
    using assms by (auto simp: conn_ok_def rb_inv_any)
  then show ?thesis unfolding recv_reliable_eq using assms by (simp add: conn_ok_push_all)
qed

lemma conn_ok_HandleReceive: "conn_ok c \<Longrightarrow> conn_ok (HandleReceive now pkt c)"
proof -
  assume "conn_ok c"
  then have "conn_ok (c\<lparr>cnLastRecv := now\<rparr>)" by (simp add: conn_ok_def)
  then show ?thesis
    by (simp add: HandleReceive_def Let_def recv_unreliable_def conn_ok_push
        conn_ok_recv_reliable conn_ok_recv_acks)
qed

lemma conn_ok_take: "conn_ok c \<Longrightarrow> conn_ok (snd (take_inbox c))"
  by (auto simp: take_inbox_def conn_ok_def split: list.split)

section \<open>Properties\<close>

lemma cnRetx_HandleReceive: "cnRetx (HandleReceive now pkt c) = cnRetx (recv_acks now pkt (c\<lparr>cnLastRecv := now\<rparr>))"
  by (simp add: HandleReceive_def recv_reliable_eq recv_unreliable_def Let_def)

text \<open>C18: selective acknowledgement is exact end to end. A receiver that has updated its state with
  the numbers \<open>ks\<close> (below 2^31, in any order) acknowledges its highest number and those at
  most 32 below it that it received, and nothing else; the sender that gets this state in a packet
  stops tracking exactly these.\<close>

theorem selective_ack_exact:
  assumes "\<forall>k \<in> set ks. k < 2 ^ 31" and "IsACK pkt"
    and "(pkAck pkt, pkAckBitmask pkt) = fold updateRecvAck ks (0, 0)"
  shows "pkAck pkt = fold max ks 0 \<and>
    map_of (cnRetx (HandleReceive now pkt c)) s =
      (if s \<in> insert 0 (set ks) \<and> s \<le> fold max ks 0 \<and> unat (fold max ks 0 - s) \<le> 32
       then None else map_of (cnRetx c) s)"
proof -
  have p: "pkAck pkt = fst (fold updateRecvAck ks (0, 0))" "pkAckBitmask pkt = snd (fold updateRecvAck ks (0, 0))"
    using assms(3) by (metis fst_conv, metis snd_conv)
  from acks_exact [OF assms(1)] have "pkAck pkt = fold max ks 0"
    and "acked (pkAck pkt) (pkAckBitmask pkt) s \<longleftrightarrow>
      s \<in> insert 0 (set ks) \<and> s \<le> fold max ks 0 \<and> unat (fold max ks 0 - s) \<le> 32"
    unfolding p by blast+
  then show ?thesis by (auto simp: cnRetx_HandleReceive recv_acks_map assms(2))
qed

text \<open>The sender of the examples: three packets in flight.\<close>

definition in_flight :: Conn where
  "in_flight = foldl (\<lambda>c p. snd (snd (Send \<lparr>seNow = 0, seWriteOk = True, seDrop = False, seDuplicate = False\<rparr> p c)))
     (NewConn 1 ''peer'' False 0 0) [[1], [2], [3]]"

definition ack_packet :: "u32 list \<Rightarrow> Packet" where
  "ack_packet ks = (case fold updateRecvAck ks (0, 0) of (a, m) \<Rightarrow>
     \<lparr>pkFlags = FlagACK, pkConnID = 1, pkSeq = 0, pkAck = a, pkAckBitmask = m, pkPayload = []\<rparr>)"

theorem selective_ack_exact_witness:
  "pkAck (ack_packet [1, 3]) = 3 \<and>
    map_of (cnRetx (HandleReceive 5 (ack_packet [1, 3]) in_flight)) 2 = map_of (cnRetx in_flight) 2 \<and>
    map_of (cnRetx (HandleReceive 5 (ack_packet [1, 3]) in_flight)) 1 = None"
proof -
  have a: "IsACK (ack_packet [1, 3])" by (simp add: ack_packet_def IsACK_def flag_defs split: prod.split)
  have s: "(pkAck (ack_packet [1, 3]), pkAckBitmask (ack_packet [1, 3])) = fold updateRecvAck [1, 3] (0, 0)"
    by (simp add: ack_packet_def split: prod.split)
  have m: "fold max [1, 3] (0 :: u32) = 3" by code_simp
  note x = selective_ack_exact [OF _ a s, of 5 in_flight, unfolded m]
  show ?thesis using x [of 2] x [of 1] by simp
qed

text \<open>The estimate of the round-trip time stays within the bounds of the samples and the
  timeout within its two constants.\<close>

theorem rtt_estimate_bounded:
  assumes "rtt_within lo hi c" and "0 \<le> lo" and "\<forall>s \<in> set samples. 0 < s \<longrightarrow> lo \<le> s \<and> s \<le> hi"
  shows "rtt_within lo hi (fold updateRTT samples c) \<and>
    InitialRTO \<le> conn_rto (fold updateRTT samples c) \<and> conn_rto (fold updateRTT samples c) \<le> MaxRTO"
proof -
  have "rtt_within lo hi (fold updateRTT samples c)"
    using assms(1,3) by (induction samples arbitrary: c) (auto intro: updateRTT_within [OF _ assms(2)])
  then show ?thesis by (simp add: conn_rto_bounds)
qed

theorem rtt_estimate_bounded_witness:
  "let c = fold updateRTT [30 * Millisecond, 0, 120 * Millisecond] (NewConn 1 ''peer'' False 0 0)
   in rtt_within (20 * Millisecond) (150 * Millisecond) c \<and> InitialRTO \<le> conn_rto c \<and> conn_rto c \<le> MaxRTO"
  unfolding Let_def
  by (rule rtt_estimate_bounded) (simp_all add: rtt_within_def NewConn_def Millisecond_def Let_def)

text \<open>The data packets of the examples.\<close>

definition data_at :: "u32 \<Rightarrow> byte list \<Rightarrow> Packet" where
  "data_at s payload = \<lparr>pkFlags = FlagReliable OR FlagACK, pkConnID = 1, pkSeq = s, pkAck = 0,
     pkAckBitmask = 0, pkPayload = payload\<rparr>"

lemma data_at_reliable [simp]: "IsReliable (data_at s payload)"
  by (simp add: data_at_def flag_tests flag_defs)

lemma data_at_simps [simp]: "pkSeq (data_at s payload) = s" "pkPayload (data_at s payload) = payload"
  by (simp_all add: data_at_def)

text \<open>A reliable packet further ahead than the reorder buffer reaches is acknowledged and then
  thrown away: the sender stops repeating it and the receiver never has it.\<close>

theorem acknowledged_but_dropped:
  assumes "IsReliable pkt" and "pkPayload pkt \<noteq> []" and "seqLT (cnRecvAck b) (pkSeq pkt)"
    and "rbMaxBuffered (cnReorder b) < unat (pkSeq pkt - rbNextExpected (cnReorder b))"
  shows "cnRecvAck (HandleReceive now pkt b) = pkSeq pkt \<and>
    cnReorder (HandleReceive now pkt b) = cnReorder b \<and> cnInbox (HandleReceive now pkt b) = cnInbox b"
proof -
  have "rbInsert (pkSeq pkt) (pkPayload pkt) (cnReorder b) = ([], cnReorder b)"
    using assms(4) by (simp add: rbInsert_def)
  moreover have "fst (updateRecvAck (pkSeq pkt) (cnRecvAck b, cnRecvBitmask b)) = pkSeq pkt"
    by (rule updateRecvAck_newer(1) [OF assms(3)])
  ultimately show ?thesis
    using assms(1,2) by (simp add: HandleReceive_def recv_reliable_eq recv_unreliable_def Let_def push_all_inbox)
qed

theorem acknowledged_but_dropped_witness:
  "let b = NewConn 1 ''peer'' False 0 0; b' = HandleReceive 9 (data_at 514 [1]) b
   in cnRecvAck b' = 514 \<and> cnReorder b' = cnReorder b \<and> cnInbox b' = cnInbox b"
  using acknowledged_but_dropped [of "data_at 514 [1]" "NewConn 1 ''peer'' False 0 0" 9]
  by (simp add: seqLT_unat NewConn_def newReorderBuffer_def Let_def)

end
