(* ===== verification/Wire.thy ===== *)
theory Wire
  imports Prelude
begin

text \<open>
  The wire protocol of \<^verbatim>\<open>internal/wire\<close>: the messages of \<^verbatim>\<open>messages.go\<close>
  and the codec of \<^verbatim>\<open>codec.go\<close>. A Go string is its bytes. Encoders lay the fields out
  in the order of the buffer offsets; decoders check lengths and read at the code's offsets
  with the readers of \<^verbatim>\<open>Prelude\<close>, so that a read outside the packet would be a panic.
\<close>

type_synonym gostring = "byte list"
type_synonym MsgType = u8

definition MsgHello :: MsgType where "MsgHello = 1"
definition MsgHelloAck :: MsgType where "MsgHelloAck = 2"
definition MsgJoinRoom :: MsgType where "MsgJoinRoom = 3"
definition MsgJoinAck :: MsgType where "MsgJoinAck = 4"
definition MsgCmd :: MsgType where "MsgCmd = 10"
definition MsgFrameBundle :: MsgType where "MsgFrameBundle = 11"
definition MsgHashAck :: MsgType where "MsgHashAck = 12"
definition MsgRTTReport :: MsgType where "MsgRTTReport = 13"
definition MsgNPub :: MsgType where "MsgNPub = 14"
definition MsgFeedbackHint :: MsgType where "MsgFeedbackHint = 15"
definition MsgResume :: MsgType where "MsgResume = 20"
definition MsgResync :: MsgType where "MsgResync = 21"
definition MsgBye :: MsgType where "MsgBye = 30"

lemmas msg_type_defs = MsgHello_def MsgHelloAck_def MsgJoinRoom_def MsgJoinAck_def MsgCmd_def
  MsgFrameBundle_def MsgHashAck_def MsgRTTReport_def MsgNPub_def MsgFeedbackHint_def MsgResume_def
  MsgResync_def MsgBye_def

definition ProtocolVersion :: u16 where "ProtocolVersion = 1"

section \<open>Messages\<close>

record Hello =
  heProtocolVersion :: u16
  hePlayerName :: gostring

record HelloAck =
  haProtocolVersion :: u16
  haServerTickRate :: u16
  haAccepted :: bool

record JoinRoom =
  jrRoomID :: gostring

record JoinAck =
  jaRoomID :: gostring
  jaPlayerID :: u8
  jaSeed :: u64
  jaMapW :: i32
  jaMapH :: i32
  jaAccepted :: bool

record Cmd =
  cmTick :: u32
  cmPlayer :: u8
  cmOp :: u8
  cmUnitID :: u32
  cmTargetX :: i32
  cmTargetY :: i32
  cmTargetID :: u32

record FrameBundle =
  fbTick :: u32
  fbNCurrent :: u8
  fbCmds :: "Cmd list"

record HashAck =
  hkTick :: u32
  hkHash :: u64

record RTTReport =
  rrSamples :: "u16 \<times> u16 \<times> u16"

record NPub =
  npEffectiveFromTick :: u32
  npN :: u8

record FeedbackHint =
  fhTick :: u32
  fhPlayer :: u8
  fhHintID :: u16

record Resume =
  rsConnID :: u16
  rsLastExecutedTick :: u32
  rsToken :: "byte list"

record Resync =
  ryHasSnapshot :: bool
  rySnapshot :: "byte list"
  ryFrames :: "FrameBundle list"

datatype WireMsg =
    MHello Hello | MHelloAck HelloAck | MJoinRoom JoinRoom | MJoinAck JoinAck | MCmd Cmd
  | MFrameBundle FrameBundle | MHashAck HashAck | MRTTReport RTTReport | MNPub NPub
  | MFeedbackHint FeedbackHint | MResume Resume | MResync Resync

datatype wire_error =
    EmptyMessage | UnknownMessageType | HelloTooShort | HelloNameTruncated | HelloAckTooShort
  | JoinRoomTooShort | JoinRoomRidTruncated | JoinAckTooShort | CmdTooShort | CmdPayloadTooShort
  | FrameBundleTooShort | FrameBundleCmdsTruncated | HashAckTooShort | RTTReportTooShort
  | NPubTooShort | FeedbackHintTooShort | ResumeTooShort

section \<open>Encoders\<close>

definition truncStr :: "gostring \<Rightarrow> nat \<Rightarrow> gostring" where
  "truncStr s n = (if n < length s then take n s else s)"

definition bool_byte :: "bool \<Rightarrow> byte" where "bool_byte b = (if b then 1 else 0)"

definition encodeHello :: "Hello \<Rightarrow> byte list" where
  "encodeHello m =
     (let name = truncStr (hePlayerName m) 32
      in [MsgHello] @ put_u16 (heProtocolVersion m) @ [of_nat (length name)] @ name)"

definition encodeHelloAck :: "HelloAck \<Rightarrow> byte list" where
  "encodeHelloAck m =
     [MsgHelloAck] @ put_u16 (haProtocolVersion m) @ put_u16 (haServerTickRate m)
       @ [bool_byte (haAccepted m)]"

definition encodeJoinRoom :: "JoinRoom \<Rightarrow> byte list" where
  "encodeJoinRoom m =
     (let rid = truncStr (jrRoomID m) 32 in [MsgJoinRoom] @ [of_nat (length rid)] @ rid)"

definition encodeJoinAck :: "JoinAck \<Rightarrow> byte list" where
  "encodeJoinAck m =
     (let rid = truncStr (jaRoomID m) 32
      in [MsgJoinAck] @ [of_nat (length rid)] @ rid @ [jaPlayerID m] @ put_u64 (jaSeed m)
           @ put_u32 (jaMapW m) @ put_u32 (jaMapH m) @ [bool_byte (jaAccepted m)])"

definition cmdSize :: nat where "cmdSize = 1 + 4 + 1 + 1 + 4 + 4 + 4 + 4"

definition encodeCmd :: "Cmd \<Rightarrow> byte list" where
  "encodeCmd m =
     [MsgCmd] @ put_u32 (cmTick m) @ [cmPlayer m] @ [cmOp m] @ put_u32 (cmUnitID m)
       @ put_u32 (cmTargetX m) @ put_u32 (cmTargetY m) @ put_u32 (cmTargetID m)"

definition encodeCmdPayload :: "Cmd \<Rightarrow> byte list" where
  "encodeCmdPayload m =
     put_u32 (cmTick m) @ [cmPlayer m] @ [cmOp m] @ put_u32 (cmUnitID m)
       @ put_u32 (cmTargetX m) @ put_u32 (cmTargetY m) @ put_u32 (cmTargetID m)"

definition encodeFrameBundle :: "FrameBundle \<Rightarrow> byte list" where
  "encodeFrameBundle m =
     [MsgFrameBundle] @ put_u32 (fbTick m) @ [fbNCurrent m] @ put_u16 (of_nat (length (fbCmds m)))
       @ concat (map encodeCmdPayload (fbCmds m))"

definition encodeHashAck :: "HashAck \<Rightarrow> byte list" where
  "encodeHashAck m = [MsgHashAck] @ put_u32 (hkTick m) @ put_u64 (hkHash m)"

definition encodeRTTReport :: "RTTReport \<Rightarrow> byte list" where
  "encodeRTTReport m =
     (case rrSamples m of (a, b, c) \<Rightarrow> [MsgRTTReport] @ put_u16 a @ put_u16 b @ put_u16 c)"

definition encodeNPub :: "NPub \<Rightarrow> byte list" where
  "encodeNPub m = [MsgNPub] @ put_u32 (npEffectiveFromTick m) @ [npN m]"

definition encodeFeedbackHint :: "FeedbackHint \<Rightarrow> byte list" where
  "encodeFeedbackHint m =
     [MsgFeedbackHint] @ put_u32 (fhTick m) @ [fhPlayer m] @ put_u16 (fhHintID m)"

definition encodeResume :: "Resume \<Rightarrow> byte list" where
  "encodeResume m =
     [MsgResume] @ put_u16 (rsConnID m) @ put_u32 (rsLastExecutedTick m) @ rsToken m"

text \<open>\<^verbatim>\<open>Encode\<close>'s type switch: it has no case for \<^verbatim>\<open>*Resync\<close>.\<close>

fun Encode :: "WireMsg \<Rightarrow> wire_error fault + byte list" where
  "Encode (MHello m) = Inr (encodeHello m)"
| "Encode (MHelloAck m) = Inr (encodeHelloAck m)"
| "Encode (MJoinRoom m) = Inr (encodeJoinRoom m)"
| "Encode (MJoinAck m) = Inr (encodeJoinAck m)"
| "Encode (MCmd m) = Inr (encodeCmd m)"
| "Encode (MFrameBundle m) = Inr (encodeFrameBundle m)"
| "Encode (MHashAck m) = Inr (encodeHashAck m)"
| "Encode (MRTTReport m) = Inr (encodeRTTReport m)"
| "Encode (MNPub m) = Inr (encodeNPub m)"
| "Encode (MFeedbackHint m) = Inr (encodeFeedbackHint m)"
| "Encode (MResume m) = Inr (encodeResume m)"
| "Encode _ = Inl (Err UnknownMessageType)"

section \<open>Decoders\<close>

definition decodeHello :: "byte list \<Rightarrow> wire_error fault + Hello" where
  "decodeHello d =
     (if length d < 3 then Inl (Err HelloTooShort)
      else and_then (u16_at d 0) (\<lambda>v.
           and_then (byte_at d 2) (\<lambda>b.
           let nameLen = unat b
           in if length d < 3 + nameLen then Inl (Err HelloNameTruncated)
              else and_then (subslice d 3 (3 + nameLen)) (\<lambda>name.
                   Inr \<lparr>heProtocolVersion = v, hePlayerName = name\<rparr>))))"

definition decodeHelloAck :: "byte list \<Rightarrow> wire_error fault + HelloAck" where
  "decodeHelloAck d =
     (if length d < 5 then Inl (Err HelloAckTooShort)
      else and_then (u16_at d 0) (\<lambda>v.
           and_then (u16_at d 2) (\<lambda>r.
           and_then (byte_at d 4) (\<lambda>a.
           Inr \<lparr>haProtocolVersion = v, haServerTickRate = r, haAccepted = (a \<noteq> 0)\<rparr>))))"

definition decodeJoinRoom :: "byte list \<Rightarrow> wire_error fault + JoinRoom" where
  "decodeJoinRoom d =
     (if length d < 1 then Inl (Err JoinRoomTooShort)
      else and_then (byte_at d 0) (\<lambda>b.
           let ridLen = unat b
           in if length d < 1 + ridLen then Inl (Err JoinRoomRidTruncated)
              else and_then (subslice d 1 (1 + ridLen)) (\<lambda>rid. Inr \<lparr>jrRoomID = rid\<rparr>)))"

definition decodeJoinAck :: "byte list \<Rightarrow> wire_error fault + JoinAck" where
  "decodeJoinAck d =
     (if length d < 1 then Inl (Err JoinAckTooShort)
      else and_then (byte_at d 0) (\<lambda>b.
           let ridLen = unat b; off = 1 + ridLen
           in if length d < off + 1 + 8 + 4 + 4 + 1 then Inl (Err JoinAckTooShort)
              else and_then (subslice d 1 (1 + ridLen)) (\<lambda>rid.
                   and_then (byte_at d off) (\<lambda>pid.
                   and_then (u64_at d (off + 1)) (\<lambda>seed.
                   and_then (u32_at d (off + 1 + 8)) (\<lambda>w.
                   and_then (u32_at d (off + 1 + 8 + 4)) (\<lambda>h.
                   and_then (byte_at d (off + 1 + 8 + 4 + 4)) (\<lambda>a.
                   Inr \<lparr>jaRoomID = rid, jaPlayerID = pid, jaSeed = seed, jaMapW = w, jaMapH = h,
                        jaAccepted = (a \<noteq> 0)\<rparr>))))))))"

definition decodeCmdPayload :: "byte list \<Rightarrow> wire_error fault + Cmd" where
  "decodeCmdPayload d =
     (if length d < 22 then Inl (Err CmdPayloadTooShort)
      else and_then (u32_at d 0) (\<lambda>tick.
           and_then (byte_at d 4) (\<lambda>player.
           and_then (byte_at d 5) (\<lambda>op.
           and_then (u32_at d 6) (\<lambda>unit.
           and_then (u32_at d 10) (\<lambda>tx.
           and_then (u32_at d 14) (\<lambda>ty.
           and_then (u32_at d 18) (\<lambda>tid.
           Inr \<lparr>cmTick = tick, cmPlayer = player, cmOp = op, cmUnitID = unit, cmTargetX = tx,
                cmTargetY = ty, cmTargetID = tid\<rparr>))))))))"

definition decodeCmd :: "byte list \<Rightarrow> wire_error fault + Cmd" where
  "decodeCmd d = (if length d < cmdSize - 1 then Inl (Err CmdTooShort) else decodeCmdPayload d)"

text \<open>The loop of \<^verbatim>\<open>decodeFrameBundle\<close> checks each command's length before it reads it.\<close>

definition decode_next_cmd :: "byte list \<Rightarrow> wire_error fault + Cmd" where
  "decode_next_cmd d =
     (if length d < cmdSize - 1 then Inl (Err FrameBundleCmdsTruncated) else decodeCmdPayload d)"

definition decodeFrameBundle :: "byte list \<Rightarrow> wire_error fault + FrameBundle" where
  "decodeFrameBundle d =
     (if length d < 7 then Inl (Err FrameBundleTooShort)
      else and_then (u32_at d 0) (\<lambda>tick.
           and_then (byte_at d 4) (\<lambda>n.
           and_then (u16_at d 5) (\<lambda>cmdCount.
           and_then (read_seq (cmdSize - 1) decode_next_cmd (unat cmdCount) (drop 7 d)) (\<lambda>cmds.
           Inr \<lparr>fbTick = tick, fbNCurrent = n, fbCmds = cmds\<rparr>)))))"

definition decodeHashAck :: "byte list \<Rightarrow> wire_error fault + HashAck" where
  "decodeHashAck d =
     (if length d < 12 then Inl (Err HashAckTooShort)
      else and_then (u32_at d 0) (\<lambda>tick.
           and_then (u64_at d 4) (\<lambda>h. Inr \<lparr>hkTick = tick, hkHash = h\<rparr>)))"

definition decodeRTTReport :: "byte list \<Rightarrow> wire_error fault + RTTReport" where
  "decodeRTTReport d =
     (if length d < 6 then Inl (Err RTTReportTooShort)
      else and_then (u16_at d 0) (\<lambda>a.
           and_then (u16_at d 2) (\<lambda>b.
           and_then (u16_at d 4) (\<lambda>c. Inr \<lparr>rrSamples = (a, b, c)\<rparr>))))"

definition decodeNPub :: "byte list \<Rightarrow> wire_error fault + NPub" where
  "decodeNPub d =
     (if length d < 5 then Inl (Err NPubTooShort)
      else and_then (u32_at d 0) (\<lambda>tick.
           and_then (byte_at d 4) (\<lambda>n. Inr \<lparr>npEffectiveFromTick = tick, npN = n\<rparr>)))"

definition decodeFeedbackHint :: "byte list \<Rightarrow> wire_error fault + FeedbackHint" where
  "decodeFeedbackHint d =
     (if length d < 7 then Inl (Err FeedbackHintTooShort)
      else and_then (u32_at d 0) (\<lambda>tick.
           and_then (byte_at d 4) (\<lambda>p.
           and_then (u16_at d 5) (\<lambda>h. Inr \<lparr>fhTick = tick, fhPlayer = p, fhHintID = h\<rparr>))))"

definition decodeResume :: "byte list \<Rightarrow> wire_error fault + Resume" where
  "decodeResume d =
     (if length d < 22 then Inl (Err ResumeTooShort)
      else and_then (u16_at d 0) (\<lambda>c.
           and_then (u32_at d 2) (\<lambda>tick.
           and_then (subslice d 6 22) (\<lambda>token.
           Inr \<lparr>rsConnID = c, rsLastExecutedTick = tick, rsToken = token\<rparr>))))"

definition tag :: "MsgType \<Rightarrow> ('a \<Rightarrow> WireMsg) \<Rightarrow> wire_error fault + 'a \<Rightarrow>
    wire_error fault + MsgType \<times> WireMsg" where
  "tag t c r = and_then r (\<lambda>m. Inr (t, c m))"

definition Decode :: "byte list \<Rightarrow> wire_error fault + MsgType \<times> WireMsg" where
  "Decode d =
     (if length d < 1 then Inl (Err EmptyMessage)
      else and_then (byte_at d 0) (\<lambda>t.
        let payload = drop 1 d
        in if t = MsgHello then tag t MHello (decodeHello payload)
           else if t = MsgHelloAck then tag t MHelloAck (decodeHelloAck payload)
           else if t = MsgJoinRoom then tag t MJoinRoom (decodeJoinRoom payload)
           else if t = MsgJoinAck then tag t MJoinAck (decodeJoinAck payload)
           else if t = MsgCmd then tag t MCmd (decodeCmd payload)
           else if t = MsgFrameBundle then tag t MFrameBundle (decodeFrameBundle payload)
           else if t = MsgHashAck then tag t MHashAck (decodeHashAck payload)
           else if t = MsgRTTReport then tag t MRTTReport (decodeRTTReport payload)
           else if t = MsgNPub then tag t MNPub (decodeNPub payload)
           else if t = MsgFeedbackHint then tag t MFeedbackHint (decodeFeedbackHint payload)
           else if t = MsgResume then tag t MResume (decodeResume payload)
           else Inl (Err UnknownMessageType)))"

section \<open>The command record\<close>

lemma cmdSize_simp [simp]: "cmdSize - 1 = 22" "cmdSize - Suc 0 = 22"
  by (simp_all add: cmdSize_def)

lemma length_encodeCmdPayload: "length (encodeCmdPayload c) = 22"
  by (simp add: encodeCmdPayload_def)

lemma decodeCmdPayload_encode: "decodeCmdPayload (encodeCmdPayload c @ rest) = Inr c"
  by (simp add: decodeCmdPayload_def encodeCmdPayload_def go_simps)

lemma take_22_fields:
  assumes "22 \<le> length (d :: byte list)"
  shows "take 22 d = take 4 d @ [d ! 4] @ [d ! 5] @ take 4 (drop 6 d) @ take 4 (drop 10 d)
    @ take 4 (drop 14 d) @ take 4 (drop 18 d)"
proof -
  have "take 22 d = take (4 + (Suc 0 + (Suc 0 + (4 + (4 + (4 + 4)))))) d" by simp
  also have "\<dots> = take 4 d @ take (Suc 0) (drop 4 d) @ take (Suc 0) (drop 5 d) @ take 4 (drop 6 d)
      @ take 4 (drop 10 d) @ take 4 (drop 14 d) @ take 4 (drop 18 d)"
    by (simp only: take_add drop_drop) simp
  finally show ?thesis using assms by (simp add: take_Suc hd_drop_conv_nth)
qed

lemma decodeCmdPayload_total:
  "22 \<le> length d \<Longrightarrow> \<exists>c. decodeCmdPayload d = Inr c \<and> encodeCmdPayload c = take 22 d"
  by (simp add: decodeCmdPayload_def encodeCmdPayload_def read_ok le_bytes_word take_22_fields)

interpretation wire_cmd: record_codec 22 encodeCmdPayload decode_next_cmd
  by unfold_locales
    (simp_all add: length_encodeCmdPayload decode_next_cmd_def decodeCmdPayload_encode
      decodeCmdPayload_total)

section \<open>Round trips\<close>

lemma length_truncStr: "length (truncStr s n) = min (length s) n"
  by (simp add: truncStr_def)

lemma truncStr_id: "length s \<le> n \<Longrightarrow> truncStr s n = s"
  by (simp add: truncStr_def)

lemma unat_of_nat_8: "n < 256 \<Longrightarrow> unat (of_nat n :: 8 word) = n"
  by (simp add: unat_of_nat)

lemma unat_of_nat_16: "n < 65536 \<Longrightarrow> unat (of_nat n :: 16 word) = n"
  by (simp add: unat_of_nat)

lemma bool_byte_simp [simp]: "(bool_byte b \<noteq> 0) = b" "(bool_byte b = 0) = (\<not> b)"
  by (simp_all add: bool_byte_def)

text \<open>The messages that survive the codec: names and ids of at most 32 bytes, at most 65535
  commands in a bundle, a token of 16 bytes. \<^verbatim>\<open>Resync\<close> is not among them.\<close>

fun wire_ok :: "WireMsg \<Rightarrow> bool" where
  "wire_ok (MHello m) = (length (hePlayerName m) \<le> 32)"
| "wire_ok (MJoinRoom m) = (length (jrRoomID m) \<le> 32)"
| "wire_ok (MJoinAck m) = (length (jaRoomID m) \<le> 32)"
| "wire_ok (MFrameBundle m) = (length (fbCmds m) < 65536)"
| "wire_ok (MResume m) = (length (rsToken m) = 16)"
| "wire_ok (MResync m) = False"
| "wire_ok _ = True"

fun msg_type :: "WireMsg \<Rightarrow> MsgType" where
  "msg_type (MHello m) = MsgHello"
| "msg_type (MHelloAck m) = MsgHelloAck"
| "msg_type (MJoinRoom m) = MsgJoinRoom"
| "msg_type (MJoinAck m) = MsgJoinAck"
| "msg_type (MCmd m) = MsgCmd"
| "msg_type (MFrameBundle m) = MsgFrameBundle"
| "msg_type (MHashAck m) = MsgHashAck"
| "msg_type (MRTTReport m) = MsgRTTReport"
| "msg_type (MNPub m) = MsgNPub"
| "msg_type (MFeedbackHint m) = MsgFeedbackHint"
| "msg_type (MResume m) = MsgResume"
| "msg_type (MResync m) = MsgResync"

lemma Decode_Hello: "length (hePlayerName m) \<le> 32 \<Longrightarrow>
    Decode (encodeHello m @ rest) = Inr (MsgHello, MHello m)"
  by (simp add: Decode_def encodeHello_def decodeHello_def tag_def truncStr_id Let_def
      unat_of_nat_8 go_simps)

lemma Decode_HelloAck: "Decode (encodeHelloAck m @ rest) = Inr (MsgHelloAck, MHelloAck m)"
  by (simp add: Decode_def encodeHelloAck_def decodeHelloAck_def tag_def msg_type_defs go_simps)

lemma Decode_JoinRoom: "length (jrRoomID m) \<le> 32 \<Longrightarrow>
    Decode (encodeJoinRoom m @ rest) = Inr (MsgJoinRoom, MJoinRoom m)"
  by (simp add: Decode_def encodeJoinRoom_def decodeJoinRoom_def tag_def truncStr_id Let_def
      msg_type_defs unat_of_nat_8 go_simps)

lemma Decode_JoinAck: "length (jaRoomID m) \<le> 32 \<Longrightarrow>
    Decode (encodeJoinAck m @ rest) = Inr (MsgJoinAck, MJoinAck m)"
  by (simp add: Decode_def encodeJoinAck_def decodeJoinAck_def tag_def truncStr_id Let_def
      msg_type_defs unat_of_nat_8 go_simps)

lemma encodeCmd_payload: "encodeCmd c = MsgCmd # encodeCmdPayload c"
  by (simp add: encodeCmd_def encodeCmdPayload_def)

lemma Decode_Cmd: "Decode (encodeCmd m @ rest) = Inr (MsgCmd, MCmd m)"
  by (simp add: Decode_def encodeCmd_payload decodeCmd_def decodeCmdPayload_encode tag_def
      length_encodeCmdPayload msg_type_defs go_simps)

lemma decodeFrameBundle_encode:
  assumes "length (fbCmds m) < 65536"
  shows "decodeFrameBundle (drop 1 (encodeFrameBundle m) @ rest) = Inr m"
  using assms wire_cmd.read_seq_enc [OF refl, of "fbCmds m" rest]
  by (simp add: decodeFrameBundle_def encodeFrameBundle_def go_simps unat_of_nat_16)

lemma Decode_FrameBundle: "length (fbCmds m) < 65536 \<Longrightarrow>
    Decode (encodeFrameBundle m @ rest) = Inr (MsgFrameBundle, MFrameBundle m)"
  using decodeFrameBundle_encode [of m rest]
  by (simp add: Decode_def encodeFrameBundle_def tag_def msg_type_defs go_simps)

lemma Decode_HashAck: "Decode (encodeHashAck m @ rest) = Inr (MsgHashAck, MHashAck m)"
  by (simp add: Decode_def encodeHashAck_def decodeHashAck_def tag_def msg_type_defs go_simps)

lemma Decode_RTTReport: "Decode (encodeRTTReport m @ rest) = Inr (MsgRTTReport, MRTTReport m)"
  by (cases m)
    (auto simp add: Decode_def encodeRTTReport_def decodeRTTReport_def tag_def msg_type_defs go_simps
      split: prod.split)

lemma Decode_NPub: "Decode (encodeNPub m @ rest) = Inr (MsgNPub, MNPub m)"
  by (simp add: Decode_def encodeNPub_def decodeNPub_def tag_def msg_type_defs go_simps)

lemma Decode_FeedbackHint:
  "Decode (encodeFeedbackHint m @ rest) = Inr (MsgFeedbackHint, MFeedbackHint m)"
  by (simp add: Decode_def encodeFeedbackHint_def decodeFeedbackHint_def tag_def msg_type_defs go_simps)

lemma Decode_Resume: "length (rsToken m) = 16 \<Longrightarrow>
    Decode (encodeResume m @ rest) = Inr (MsgResume, MResume m)"
  by (simp add: Decode_def encodeResume_def decodeResume_def tag_def msg_type_defs go_simps)

lemmas Decode_encoded = Decode_Hello Decode_HelloAck Decode_JoinRoom Decode_JoinAck Decode_Cmd
  Decode_FrameBundle Decode_HashAck Decode_RTTReport Decode_NPub Decode_FeedbackHint Decode_Resume

lemma Decode_Encode_rest:
  "wire_ok m \<Longrightarrow> \<exists>d. Encode m = Inr d \<and> Decode (d @ rest) = Inr (msg_type m, m)"
  by (cases m) (simp_all add: Decode_encoded)

section \<open>No input panics the decoder\<close>

lemma no_panic_read_seq:
  "(\<And>d. no_panic (dec d)) \<Longrightarrow> no_panic (read_seq w dec n d)"
  by (induction n arbitrary: d) (auto intro!: no_panic_and_then)

lemma decode_no_panic:
  "no_panic (decodeHello d)" "no_panic (decodeHelloAck d)" "no_panic (decodeJoinRoom d)"
  "no_panic (decodeJoinAck d)" "no_panic (decodeCmd d)" "no_panic (decode_next_cmd d)"
  "no_panic (decodeHashAck d)" "no_panic (decodeRTTReport d)" "no_panic (decodeNPub d)"
  "no_panic (decodeFeedbackHint d)" "no_panic (decodeResume d)"
  by (auto simp: decodeHello_def decodeHelloAck_def decodeJoinRoom_def decodeJoinAck_def
      decodeCmd_def decode_next_cmd_def decodeCmdPayload_def decodeHashAck_def decodeRTTReport_def
      decodeNPub_def decodeFeedbackHint_def decodeResume_def Let_def intro!: no_panic_and_then)

lemma decodeFrameBundle_no_panic: "no_panic (decodeFrameBundle d)"
  by (auto simp: decodeFrameBundle_def decode_no_panic intro!: no_panic_and_then no_panic_read_seq)

lemma tag_no_panic: "no_panic r \<Longrightarrow> no_panic (tag t c r)"
  by (auto simp: tag_def intro: no_panic_and_then)

lemma Decode_never_panics: "no_panic (Decode d)"
  by (auto simp: Decode_def Let_def decode_no_panic decodeFrameBundle_no_panic
      intro!: no_panic_and_then tag_no_panic)

text \<open>A decoded message has the type its tag names.\<close>

lemma Decode_msg_type: "Decode d = Inr (t, m) \<Longrightarrow> t = msg_type m"
  by (auto simp: Decode_def tag_def and_then_eq_Inr Let_def split: if_splits)

section \<open>Properties\<close>

text \<open>C30: every message the codec knows, with its strings within 32 bytes, its token of 16 bytes and
  fewer than 65536 commands, is encoded, and decoded to itself whatever bytes follow it.\<close>

theorem message_roundtrip:
  assumes "wire_ok m"
  shows "\<exists>d. Encode m = Inr d \<and> Decode (d @ rest) = Inr (msg_type m, m)"
  by (rule Decode_Encode_rest [OF assms])

theorem message_roundtrip_witness:
  "let m = MFrameBundle \<lparr>fbTick = 7, fbNCurrent = 3, fbCmds =
      [\<lparr>cmTick = 7, cmPlayer = 1, cmOp = 1, cmUnitID = 6, cmTargetX = 65536, cmTargetY = - 1, cmTargetID = 0\<rparr>]\<rparr>
   in \<exists>d. Encode m = Inr d \<and> Decode (d @ [255]) = Inr (msg_type m, m)"
  unfolding Let_def by (rule message_roundtrip) simp

text \<open>No received bytes make the decoder panic; what it accepts has the type its tag names, so the
  type assertions after it hold.\<close>

theorem Decode_total:
  "no_panic (Decode d) \<and> (\<forall>t m. Decode d = Inr (t, m) \<longrightarrow> t = msg_type m)"
  using Decode_never_panics Decode_msg_type by blast

theorem Decode_total_witness:
  "Decode (encodeNPub \<lparr>npEffectiveFromTick = 46, npN = 4\<rparr>) =
      Inr (MsgNPub, MNPub \<lparr>npEffectiveFromTick = 46, npN = 4\<rparr>) \<and>
   MsgNPub = msg_type (MNPub \<lparr>npEffectiveFromTick = 46, npN = 4\<rparr>)"
  using Decode_total [of "encodeNPub \<lparr>npEffectiveFromTick = 46, npN = 4\<rparr>"]
    Decode_NPub [of "\<lparr>npEffectiveFromTick = 46, npN = 4\<rparr>" "[]"] by simp

end
