(* ===== verification/InputBuf.thy ===== *)
theory InputBuf
  imports Wire
begin

text \<open>
  \<^verbatim>\<open>internal/lockstep/inputbuf.go\<close>: commands grouped by the tick they name. The
  abstract view is a function from ticks to queues; \<open>Add\<close> and \<open>Seal\<close> refine
  appending to a queue and emptying one.
\<close>

type_synonym InputBuf = "(u32 \<times> Cmd list) list"

definition NewInputBuf :: InputBuf where "NewInputBuf = []"

text \<open>Reading an absent key of the map gives the nil slice.\<close>

definition bucket :: "InputBuf \<Rightarrow> u32 \<Rightarrow> Cmd list" where
  "bucket ib tick = (case map_of ib tick of None \<Rightarrow> [] | Some cmds \<Rightarrow> cmds)"

definition ibAdd :: "Cmd \<Rightarrow> InputBuf \<Rightarrow> InputBuf" where
  "ibAdd cmd ib = AList.update (cmTick cmd) (bucket ib (cmTick cmd) @ [cmd]) ib"

definition ibSeal :: "u32 \<Rightarrow> InputBuf \<Rightarrow> Cmd list \<times> InputBuf" where
  "ibSeal tick ib = (bucket ib tick, AList.delete tick ib)"

definition ibPending :: "InputBuf \<Rightarrow> nat" where
  "ibPending ib = length ib"

section \<open>Refinement of one queue per tick\<close>

lemma bucket_new [simp]: "bucket NewInputBuf = (\<lambda>t. [])"
  by (simp add: fun_eq_iff bucket_def NewInputBuf_def)

lemma bucket_Add: "bucket (ibAdd cmd ib) = (bucket ib)(cmTick cmd := bucket ib (cmTick cmd) @ [cmd])"
  by (auto simp: fun_eq_iff bucket_def ibAdd_def go_map_simps)

lemma bucket_Seal: "fst (ibSeal t ib) = bucket ib t" "bucket (snd (ibSeal t ib)) = (bucket ib)(t := [])"
  by (auto simp: fun_eq_iff bucket_def ibSeal_def go_map_simps)

datatype input_op = IAdd Cmd | ISeal u32

fun input_run :: "input_op list \<Rightarrow> InputBuf \<Rightarrow> (u32 \<times> Cmd list) list \<times> InputBuf" where
  "input_run [] ib = ([], ib)"
| "input_run (IAdd c # ops) ib = input_run ops (ibAdd c ib)"
| "input_run (ISeal t # ops) ib =
     (case ibSeal t ib of (cmds, ib') \<Rightarrow> (case input_run ops ib' of (ss, ib'') \<Rightarrow> ((t, cmds) # ss, ib'')))"

fun input_spec :: "input_op list \<Rightarrow> (u32 \<Rightarrow> Cmd list) \<Rightarrow> (u32 \<times> Cmd list) list \<times> (u32 \<Rightarrow> Cmd list)" where
  "input_spec [] q = ([], q)"
| "input_spec (IAdd c # ops) q = input_spec ops (q(cmTick c := q (cmTick c) @ [c]))"
| "input_spec (ISeal t # ops) q =
     (case input_spec ops (q(t := [])) of (ss, q') \<Rightarrow> ((t, q t) # ss, q'))"

lemma input_run_refines:
  "input_spec ops (bucket ib) = (fst (input_run ops ib), bucket (snd (input_run ops ib)))"
proof (induction ops arbitrary: ib)
  case (Cons x ops)
  show ?case
  proof (cases x)
    case (IAdd c)
    then show ?thesis by (simp add: Cons.IH [of "ibAdd c ib", unfolded bucket_Add])
  next
    case (ISeal t)
    have "input_spec ops ((bucket ib)(t := [])) =
        (fst (input_run ops (snd (ibSeal t ib))), bucket (snd (input_run ops (snd (ibSeal t ib)))))"
      using Cons.IH [of "snd (ibSeal t ib)"] by (simp only: bucket_Seal)
    then show ?thesis by (simp add: ISeal bucket_Seal(1) split: prod.split) (metis bucket_Seal(1) fst_conv snd_conv)
  qed
qed simp

text \<open>Every command added is sealed in its tick's bundle, in order of arrival, or still waits.\<close>

definition added :: "u32 \<Rightarrow> input_op list \<Rightarrow> Cmd list" where
  "added t ops = concat (map (\<lambda>x. case x of IAdd c \<Rightarrow> if cmTick c = t then [c] else [] | ISeal _ \<Rightarrow> []) ops)"

definition sealed :: "u32 \<Rightarrow> (u32 \<times> Cmd list) list \<Rightarrow> Cmd list" where
  "sealed t ss = concat (map (\<lambda>(u, cs). if u = t then cs else []) ss)"

lemma input_spec_conserve:
  "q t @ added t ops = sealed t (fst (input_spec ops q)) @ snd (input_spec ops q) t"
proof (induction ops arbitrary: q)
  case (Cons x ops)
  show ?case
  proof (cases x)
    case (IAdd c)
    let ?q = "q(cmTick c := q (cmTick c) @ [c])"
    have "q t @ added t (x # ops) = ?q t @ added t ops" by (simp add: IAdd added_def)
    then show ?thesis using Cons.IH [of ?q] by (simp only: IAdd input_spec.simps)
  next
    case (ISeal u)
    obtain ss q' where r: "input_spec ops (q(u := [])) = (ss, q')" by fastforce
    have "(if u = t then [] else q t) @ added t ops = sealed t ss @ q' t"
      using Cons.IH [of "q(u := [])"] unfolding r by (simp add: eq_commute [of u])
    then show ?thesis by (auto simp: ISeal r added_def sealed_def split: if_splits)
  qed
qed (simp add: added_def sealed_def)

lemma input_conserve:
  "bucket ib t @ added t ops = sealed t (fst (input_run ops ib)) @ bucket (snd (input_run ops ib)) t"
  using input_spec_conserve [of "bucket ib" t ops] by (simp add: input_run_refines)

text \<open>A command for a tick that is not sealed again is never executed, and never forgotten.\<close>

lemma input_stuck:
  assumes "\<forall>u. ISeal u \<in> set ops \<longrightarrow> u \<noteq> t"
  shows "bucket (snd (input_run ops ib)) t = bucket ib t @ added t ops"
proof -
  have "sealed t (fst (input_spec ops q)) = []" for q
    using assms by (induction ops q rule: input_spec.induct) (auto simp: sealed_def split: prod.split)
  from this [of "bucket ib"] input_conserve [of ib t ops] show ?thesis by (simp add: input_run_refines)
qed

definition ib_ok :: "InputBuf \<Rightarrow> bool" where
  "ib_ok ib \<longleftrightarrow> distinct (map fst ib) \<and> (\<forall>(t, cs) \<in> set ib. cs \<noteq> [] \<and> (\<forall>c \<in> set cs. cmTick c = t))"

lemma ib_ok_new: "ib_ok NewInputBuf" by (simp add: ib_ok_def NewInputBuf_def)

lemma bucket_ticks: "ib_ok ib \<Longrightarrow> c \<in> set (bucket ib t) \<Longrightarrow> cmTick c = t"
  by (fastforce simp: ib_ok_def bucket_def split: option.splits dest: map_of_SomeD)

lemma ib_ok_Add:
  assumes "ib_ok ib"
  shows "ib_ok (ibAdd cmd ib)"
proof -
  let ?v = "bucket ib (cmTick cmd) @ [cmd]"
  have "distinct (map fst (ibAdd cmd ib))"
    using assms by (simp add: ib_ok_def ibAdd_def AList.distinct_update)
  moreover have "?v \<noteq> [] \<and> (\<forall>c \<in> set ?v. cmTick c = cmTick cmd)"
    using bucket_ticks [OF assms] by auto
  ultimately show ?thesis
    using assms set_update [of "cmTick cmd" ?v ib] unfolding ib_ok_def ibAdd_def by blast
qed

lemma ib_ok_Seal: "ib_ok ib \<Longrightarrow> ib_ok (snd (ibSeal t ib))"
  by (auto simp: ib_ok_def ibSeal_def delete_filter distinct_map_filter)

section \<open>Properties\<close>

text \<open>The buffer refines one queue of commands per tick, under any sequence of additions and
  seals.\<close>

theorem input_buffer_refines_queues:
  "input_spec ops (bucket ib) = (fst (input_run ops ib), bucket (snd (input_run ops ib)))"
  by (rule input_run_refines)

text \<open>No command is lost, repeated or reordered within its tick: the commands added for a tick are
  those its seals have returned, in order, followed by those still held. A tick that is not sealed
  again keeps them for ever.\<close>

theorem commands_conserved:
  "added t ops = sealed t (fst (input_run ops NewInputBuf)) @ bucket (snd (input_run ops NewInputBuf)) t"
  using input_conserve [of NewInputBuf t ops] by simp

end
