(* ===== verification/Adaptive.thy ===== *)
theory Adaptive
  imports Prelude
begin

text \<open>
  \<^verbatim>\<open>internal/lockstep/adaptive.go\<close>: the input delay N from the round-trip times the
  players report. Durations are integer nanoseconds, a Go \<^verbatim>\<open>int\<close> is an integer; the two
  divisions can panic.
\<close>

record AdaptiveN =
  anCurrent :: u8
  anMinN :: u8
  anMaxN :: u8
  anTickRate :: int
  anSamples :: "(u8 \<times> int) list"

definition Second :: int where "Second = 1000000000"

definition NewAdaptiveN :: "u8 \<Rightarrow> u8 \<Rightarrow> u8 \<Rightarrow> int \<Rightarrow> AdaptiveN" where
  "NewAdaptiveN initial minN maxN tickRate =
     \<lparr>anCurrent = initial, anMinN = minN, anMaxN = maxN, anTickRate = tickRate, anSamples = []\<rparr>"

definition ReportRTT :: "u8 \<Rightarrow> int \<Rightarrow> AdaptiveN \<Rightarrow> AdaptiveN" where
  "ReportRTT playerID rtt a = a\<lparr>anSamples := AList.update playerID rtt (anSamples a)\<rparr>"

text \<open>Go's division truncates and panics on zero.\<close>

definition go_div :: "int \<Rightarrow> int \<Rightarrow> 'e fault + int" where
  "go_div x y = (if y = 0 then Inl Panic else Inr (x sdiv y))"

definition max_rtt :: "(u8 \<times> int) list \<Rightarrow> int" where
  "max_rtt samples = foldl (\<lambda>m s. if snd s > m then snd s else m) 0 samples"

definition Recalculate :: "AdaptiveN \<Rightarrow> 'e fault + (u8 \<times> bool) \<times> AdaptiveN" where
  "Recalculate a =
     (if length (anSamples a) = 0 then Inr ((anCurrent a, False), a)
      else let maxRTT = max_rtt (anSamples a)
           in and_then (go_div Second (anTickRate a)) (\<lambda>tickInterval.
              and_then (go_div maxRTT tickInterval) (\<lambda>q.
              let needed = q + 1 + 1;
                  needed = (if needed < uint (anMinN a) then uint (anMinN a) else needed);
                  needed = (if needed > uint (anMaxN a) then uint (anMaxN a) else needed);
                  newN = (of_int needed :: u8)
              in if newN = anCurrent a then Inr ((anCurrent a, False), a)
                 else Inr ((newN, True), a\<lparr>anCurrent := newN\<rparr>))))"

section \<open>Order independence and bounds\<close>

lemma max_rtt_Max: "max_rtt samples = Max (insert 0 (snd ` set samples))"
proof -
  have "foldl (\<lambda>m s. if snd s > m then snd s else m) b samples = Max (insert b (snd ` set samples))" for b
  proof (induction samples arbitrary: b)
    case (Cons s samples)
    have "(if snd s > b then snd s else b) = max b (snd s)" by simp
    then show ?case using Cons.IH [of "max b (snd s)"]
      by (cases "samples = []") (simp_all add: insert_commute max.assoc max.left_commute)
  qed simp
  then show ?thesis by (simp add: max_rtt_def)
qed

lemma max_rtt_nonneg: "0 \<le> max_rtt samples"
  by (simp add: max_rtt_Max)

definition rate_ok :: "AdaptiveN \<Rightarrow> bool" where
  "rate_ok a \<longleftrightarrow> 0 < anTickRate a \<and> anTickRate a \<le> Second"

definition tick_interval :: "AdaptiveN \<Rightarrow> int" where
  "tick_interval a = Second div anTickRate a"

definition clamp_n :: "AdaptiveN \<Rightarrow> int \<Rightarrow> int" where
  "clamp_n a k = min (uint (anMaxN a)) (max (uint (anMinN a)) k)"

lemma tick_interval_pos: "rate_ok a \<Longrightarrow> 0 < tick_interval a"
  by (simp add: rate_ok_def tick_interval_def pos_imp_zdiv_pos_iff)

lemma Recalculate_eq:
  assumes "rate_ok a" and "anSamples a \<noteq> []"
  defines "n \<equiv> of_int (clamp_n a (max_rtt (anSamples a) div tick_interval a + 2))"
  shows "Recalculate a = Inr ((n, n \<noteq> anCurrent a), a\<lparr>anCurrent := n\<rparr>)"
proof -
  have d: "go_div Second (anTickRate a) = Inr (tick_interval a)"
    using assms(1) by (simp add: go_div_def rate_ok_def tick_interval_def sdiv_nonneg Second_def)
  have e: "go_div (max_rtt (anSamples a)) (tick_interval a) = Inr (max_rtt (anSamples a) div tick_interval a)"
    using tick_interval_pos [OF assms(1)] by (simp add: go_div_def sdiv_nonneg max_rtt_nonneg)
  have c: "(if M < (if q + 1 + 1 < m then m else q + 1 + 1) then M else if q + 1 + 1 < m then m else q + 1 + 1)
      = min M (max m (q + 2))" for m M q :: int by (auto simp: min_def max_def)
  have same: "a\<lparr>anCurrent := anCurrent a\<rparr> = a" by simp
  show ?thesis
    using assms(2) unfolding Recalculate_def Let_def d e and_then_simps c n_def clamp_n_def
    by (auto simp: same)
qed

lemma uint_clamp: "uint (of_int (clamp_n a k) :: u8) = clamp_n a k"
proof -
  have "0 \<le> clamp_n a k" "clamp_n a k < 256"
    using uint_bounded [of "anMaxN a"] by (auto simp: clamp_n_def le_max_iff_disj)
  then show ?thesis by (simp add: uint_word_of_int)
qed

lemma rate_ok_current [simp]: "rate_ok (a\<lparr>anCurrent := n\<rparr>) = rate_ok a"
  by (simp add: rate_ok_def)

lemma Recalculate_total:
  assumes "rate_ok a"
  shows "\<exists>n ch a'. (Recalculate a :: 'e fault + _) = Inr ((n, ch), a') \<and> rate_ok a'"
proof (cases "anSamples a = []")
  case True
  with assms show ?thesis by (auto simp: Recalculate_def)
next
  case False
  from Recalculate_eq [OF assms False] assms show ?thesis by (metis rate_ok_current)
qed

section \<open>Properties\<close>

text \<open>C33: the recalculated delay is the slowest player's round trip in whole ticks plus two, clamped:
  when the clamp does not cut it, the delay less one tick covers every reported round-trip time.\<close>

theorem delay_covers_rtt:
  assumes "rate_ok a" and "anSamples a \<noteq> []"
  defines "needed \<equiv> max_rtt (anSamples a) div tick_interval a + 2"
  shows "\<exists>n. (Recalculate a :: 'e fault + _) = Inr ((n, n \<noteq> anCurrent a), a\<lparr>anCurrent := n\<rparr>) \<and>
    uint n = clamp_n a needed \<and>
    (needed \<le> uint (anMaxN a) \<longrightarrow> (\<forall>s \<in> set (anSamples a). snd s < (uint n - 1) * tick_interval a))"
proof (intro exI conjI impI ballI)
  let ?n = "of_int (clamp_n a needed) :: u8"
  show "(Recalculate a :: 'e fault + _) = Inr ((?n, ?n \<noteq> anCurrent a), a\<lparr>anCurrent := ?n\<rparr>)"
    unfolding needed_def by (rule Recalculate_eq [OF assms(1,2)])
  show u: "uint ?n = clamp_n a needed" by (rule uint_clamp)
  fix s assume le: "needed \<le> uint (anMaxN a)" and s: "s \<in> set (anSamples a)"
  have p: "0 < tick_interval a" by (rule tick_interval_pos [OF assms(1)])
  have "snd s \<le> max_rtt (anSamples a)" using s by (simp add: max_rtt_Max)
  also have "\<dots> < (max_rtt (anSamples a) div tick_interval a + 1) * tick_interval a"
    using p pos_mod_bound [OF p, of "max_rtt (anSamples a)"]
      div_mult_mod_eq [of "max_rtt (anSamples a)" "tick_interval a"] by (simp only: distrib_right mult_1)
  also have "\<dots> \<le> (uint ?n - 1) * tick_interval a"
    unfolding u using p le by (intro mult_right_mono) (auto simp: clamp_n_def needed_def)
  finally show "snd s < (uint ?n - 1) * tick_interval a" .
qed

theorem delay_covers_rtt_witness:
  "\<exists>n. (Recalculate (ReportRTT 1 130000000 (NewAdaptiveN 3 2 6 20)) :: unit fault + _) =
      Inr ((n, n \<noteq> 3), (ReportRTT 1 130000000 (NewAdaptiveN 3 2 6 20))\<lparr>anCurrent := n\<rparr>) \<and>
    uint n = 4 \<and> 130000000 < (uint n - 1) * (50000000 :: int)"
proof -
  let ?a = "ReportRTT 1 130000000 (NewAdaptiveN 3 2 6 20)"
  have a: "rate_ok ?a" "anSamples ?a \<noteq> []"
    by (simp_all add: rate_ok_def ReportRTT_def NewAdaptiveN_def Second_def)
  have t: "tick_interval ?a = 50000000" "max_rtt (anSamples ?a) = 130000000"
    by (simp_all add: tick_interval_def ReportRTT_def NewAdaptiveN_def Second_def max_rtt_def)
  show ?thesis using delay_covers_rtt [OF a, where 'e = unit] unfolding t
    by (auto simp: ReportRTT_def NewAdaptiveN_def clamp_n_def)
qed

end
