(* ===== verification/HashAgg.thy ===== *)
theory HashAgg
  imports Prelude
begin

text \<open>
  \<^verbatim>\<open>internal/lockstep/hashagg.go\<close>: the per-tick collection of state hashes and the
  verdict on them. The maps are association lists; \<^verbatim>\<open>Report\<close> iterates over one, and
  the verdict does not depend on the order.
\<close>

datatype HashState = HashPending | HashPartial | HashMatch | HashTimeout | HashDesync

record tickHash =
  thTick :: u32
  thHashes :: "(u8 \<times> u64) list"
  thExpected :: int
  thState :: HashState

record HashAgg =
  hgWindow :: "(u32 \<times> tickHash) list"
  hgWindowSize :: int
  hgPlayerCount :: int

definition NewHashAgg :: "int \<Rightarrow> int \<Rightarrow> HashAgg" where
  "NewHashAgg windowSize playerCount =
     \<lparr>hgWindow = [], hgWindowSize = windowSize, hgPlayerCount = playerCount\<rparr>"

definition CreateSlot :: "u32 \<Rightarrow> HashAgg \<Rightarrow> HashAgg" where
  "CreateSlot tick h =
     (let win = AList.update tick
                  \<lparr>thTick = tick, thHashes = [], thExpected = hgPlayerCount h, thState = HashPending\<rparr>
                  (hgWindow h);
          size = (of_int (hgWindowSize h) :: u32)
      in h\<lparr>hgWindow :=
             (if tick > size then filter (\<lambda>x. \<not> fst x < tick - size) win else win)\<rparr>)"

text \<open>The loop over the reported hashes: the first is the reference.\<close>

fun scan_hashes :: "u64 list \<Rightarrow> u64 option \<Rightarrow> HashState" where
  "scan_hashes [] ref = HashMatch"
| "scan_hashes (v # vs) None = scan_hashes vs (Some v)"
| "scan_hashes (v # vs) (Some ref) = (if v \<noteq> ref then HashDesync else scan_hashes vs (Some ref))"

definition Report :: "u32 \<Rightarrow> u8 \<Rightarrow> u64 \<Rightarrow> HashAgg \<Rightarrow> HashState \<times> HashAgg" where
  "Report tick playerID hash h =
     (case map_of (hgWindow h) tick of
        None \<Rightarrow> (HashTimeout, h)
      | Some th \<Rightarrow>
          (let hs = AList.update playerID hash (thHashes th);
               st = (if int (length hs) < thExpected th then HashPartial
                     else scan_hashes (map snd hs) None)
           in (st, h\<lparr>hgWindow := AList.update tick (th\<lparr>thHashes := hs, thState := st\<rparr>) (hgWindow h)\<rparr>)))"

definition th_due :: "u32 \<Rightarrow> u32 \<Rightarrow> u32 \<times> tickHash \<Rightarrow> bool" where
  "th_due currentTick maxAge x \<longleftrightarrow>
     (thState (snd x) = HashPending \<or> thState (snd x) = HashPartial) \<and> currentTick - fst x > maxAge"

definition CheckTimeouts :: "u32 \<Rightarrow> u32 \<Rightarrow> HashAgg \<Rightarrow> u32 list \<times> HashAgg" where
  "CheckTimeouts currentTick maxAge h =
     (map fst (filter (th_due currentTick maxAge) (hgWindow h)),
      h\<lparr>hgWindow := map (\<lambda>x. if th_due currentTick maxAge x
                             then (fst x, (snd x)\<lparr>thState := HashTimeout\<rparr>) else x) (hgWindow h)\<rparr>)"

definition GetState :: "u32 \<Rightarrow> HashAgg \<Rightarrow> HashState \<times> (u8 \<times> u64) list option" where
  "GetState tick h =
     (case map_of (hgWindow h) tick of
        None \<Rightarrow> (HashTimeout, None)
      | Some th \<Rightarrow> (thState th, Some (thHashes th)))"

section \<open>The verdict\<close>

lemma scan_hashes_Some: "scan_hashes vs (Some r) = (if set vs \<subseteq> {r} then HashMatch else HashDesync)"
  by (induction vs) auto

lemma scan_hashes_None:
  "scan_hashes vs None = (if \<exists>x \<in> set vs. \<exists>y \<in> set vs. x \<noteq> y then HashDesync else HashMatch)"
  by (cases vs) (auto simp: scan_hashes_Some)

text \<open>The verdict as a function of who has reported what.\<close>

definition verdict :: "int \<Rightarrow> (u8 \<rightharpoonup> u64) \<Rightarrow> HashState" where
  "verdict expected m =
     (if int (card (dom m)) < expected then HashPartial
      else if card (ran m) \<le> 1 then HashMatch else HashDesync)"

lemma scan_verdict:
  assumes "distinct (map fst hs)"
  shows "(if int (length hs) < e then HashPartial else scan_hashes (map snd hs) None) = verdict e (map_of hs)"
proof -
  have "card (dom (map_of hs)) = length hs"
    using assms by (metis distinct_card dom_map_of_conv_image_fst length_map set_map)
  moreover have "ran (map_of hs) = snd ` set hs" using assms by (rule ran_distinct)
  moreover have "card S \<le> 1 \<longleftrightarrow> \<not> (\<exists>x \<in> S. \<exists>y \<in> S. x \<noteq> y)" if "finite S" for S :: "u64 set"
    using card_le_Suc0_iff_eq [OF that] by auto
  from this [of "snd ` set hs"]
  have "scan_hashes (map snd hs) None = (if card (snd ` set hs) \<le> 1 then HashMatch else HashDesync)"
    unfolding scan_hashes_None set_map by (metis finite_imageI finite_set)
  ultimately show ?thesis by (simp only: verdict_def)
qed

section \<open>Invariant\<close>

definition th_ok :: "u32 \<times> tickHash \<Rightarrow> bool" where
  "th_ok x \<longleftrightarrow> distinct (map fst (thHashes (snd x)))"

definition hagg_ok :: "HashAgg \<Rightarrow> bool" where
  "hagg_ok h \<longleftrightarrow> distinct (map fst (hgWindow h)) \<and> list_all th_ok (hgWindow h)"

lemma hagg_ok_new: "hagg_ok (NewHashAgg n p)" by (simp add: hagg_ok_def NewHashAgg_def)

lemma th_ok_lookup: "hagg_ok h \<Longrightarrow> map_of (hgWindow h) t = Some th \<Longrightarrow> distinct (map fst (thHashes th))"
  by (fastforce simp: hagg_ok_def list_all_iff th_ok_def dest: map_of_SomeD)

lemma hagg_ok_update:
  assumes "hagg_ok h" and "distinct (map fst (thHashes th))"
  shows "hagg_ok (h\<lparr>hgWindow := AList.update t th (hgWindow h)\<rparr>)"
  using assms set_update [of t th "hgWindow h"]
  by (auto simp: hagg_ok_def list_all_iff th_ok_def AList.distinct_update)

lemma hagg_ok_filter: "hagg_ok h \<Longrightarrow> hagg_ok (h\<lparr>hgWindow := filter P (hgWindow h)\<rparr>)"
  by (auto simp: hagg_ok_def list_all_iff distinct_map_filter)

lemma hagg_ok_CreateSlot: "hagg_ok h \<Longrightarrow> hagg_ok (CreateSlot t h)"
  using hagg_ok_update [of h "\<lparr>thTick = t, thHashes = [], thExpected = hgPlayerCount h, thState = HashPending\<rparr>" t]
    hagg_ok_filter
  by (fastforce simp: CreateSlot_def Let_def)

lemma hagg_ok_Report: "hagg_ok h \<Longrightarrow> hagg_ok (snd (Report t p v h))"
  by (auto simp: Report_def Let_def th_ok_lookup AList.distinct_update intro!: hagg_ok_update split: option.split)

lemma hagg_ok_CheckTimeouts: "hagg_ok h \<Longrightarrow> hagg_ok (snd (CheckTimeouts c m h))"
proof -
  assume ok: "hagg_ok h"
  have "map fst (hgWindow (snd (CheckTimeouts c m h))) = map fst (hgWindow h)"
    by (auto simp: CheckTimeouts_def)
  moreover have "list_all th_ok (hgWindow (snd (CheckTimeouts c m h)))"
    using ok by (auto simp: hagg_ok_def list_all_iff th_ok_def CheckTimeouts_def)
  ultimately show ?thesis using ok by (simp only: hagg_ok_def)
qed

lemma Report_verdict:
  assumes "hagg_ok h" and "map_of (hgWindow h) t = Some th"
  shows "fst (Report t p v h) = verdict (thExpected th) ((map_of (thHashes th))(p \<mapsto> v))"
    and "map_of (hgWindow (snd (Report t p v h))) t =
      Some (th\<lparr>thHashes := AList.update p v (thHashes th), thState := fst (Report t p v h)\<rparr>)"
    and "u \<noteq> t \<Longrightarrow> map_of (hgWindow (snd (Report t p v h))) u = map_of (hgWindow h) u"
proof -
  have "distinct (map fst (AList.update p v (thHashes th)))"
    using assms by (simp add: AList.distinct_update th_ok_lookup)
  from scan_verdict [OF this] show "fst (Report t p v h) = verdict (thExpected th) ((map_of (thHashes th))(p \<mapsto> v))"
    using assms by (simp add: Report_def Let_def AList.update_conv')
qed (simp_all add: assms Report_def Let_def AList.update_conv')

text \<open>Reports in any order, each player any number of times.\<close>

definition overlay :: "(u8 \<rightharpoonup> u64) \<Rightarrow> (u8 \<times> u64) list \<Rightarrow> (u8 \<rightharpoonup> u64)" where
  "overlay m rs = foldl (\<lambda>m r. m(fst r \<mapsto> snd r)) m rs"

fun report_all :: "u32 \<Rightarrow> (u8 \<times> u64) list \<Rightarrow> HashAgg \<Rightarrow> HashAgg" where
  "report_all t [] h = h"
| "report_all t ((p, v) # rs) h = report_all t rs (snd (Report t p v h))"

lemma report_all_state:
  assumes "hagg_ok h" and "map_of (hgWindow h) t = Some th" and "rs \<noteq> []"
  shows "\<exists>th'. map_of (hgWindow (report_all t rs h)) t = Some th' \<and>
    thState th' = verdict (thExpected th) (overlay (map_of (thHashes th)) rs) \<and>
    map_of (thHashes th') = overlay (map_of (thHashes th)) rs"
  using assms
proof (induction rs arbitrary: h th)
  case (Cons r rs)
  obtain p v where r: "r = (p, v)" by fastforce
  let ?h = "snd (Report t p v h)"
  note rv = Report_verdict [OF Cons.prems(1,2), where p = p and v = v]
  let ?th = "th\<lparr>thHashes := AList.update p v (thHashes th), thState := fst (Report t p v h)\<rparr>"
  show ?case
  proof (cases "rs = []")
    case True
    have "map_of (hgWindow (report_all t (r # rs) h)) t = Some ?th"
      using rv(2) by (simp add: True r)
    moreover have "map_of (thHashes ?th) = overlay (map_of (thHashes th)) (r # rs)"
      by (simp add: r True overlay_def AList.update_conv')
    moreover have "thState ?th = verdict (thExpected th) (overlay (map_of (thHashes th)) (r # rs))"
      using rv(1) by (simp add: r True overlay_def)
    ultimately show ?thesis by blast
  next
    case False
    have m: "overlay (map_of (thHashes ?th)) rs = overlay (map_of (thHashes th)) (r # rs)"
      by (simp add: r overlay_def AList.update_conv')
    from Cons.IH [OF hagg_ok_Report [OF Cons.prems(1)] rv(2) False]
    show ?thesis unfolding m by (simp add: r)
  qed
qed simp

section \<open>The window\<close>

lemma CreateSlot_keys:
  "fst ` set (hgWindow (CreateSlot t h)) =
    (if t > of_int (hgWindowSize h)
     then {u \<in> insert t (fst ` set (hgWindow h)). t - of_int (hgWindowSize h) \<le> u}
     else insert t (fst ` set (hgWindow h)))"
proof -
  have "fst ` set (filter (\<lambda>x. \<not> fst x < k) win) = {u \<in> fst ` set win. k \<le> u}" for k :: u32 and win :: "(u32 \<times> tickHash) list"
    by auto
  moreover have "fst ` set (AList.update t th (hgWindow h)) = insert t (fst ` set (hgWindow h))" for th
    by (subst AList.dom_update) auto
  ultimately show ?thesis unfolding CreateSlot_def Let_def by (simp only: HashAgg.simps split: if_split) simp
qed

lemma CreateSlot_frame [simp]:
  "hgWindowSize (CreateSlot t h) = hgWindowSize h" "hgPlayerCount (CreateSlot t h) = hgPlayerCount h"
  by (simp_all add: CreateSlot_def Let_def)

text \<open>Slots created for the ticks 1 to n: the keys are the last \<open>windowSize + 1\<close> of them.\<close>

definition slots :: "nat \<Rightarrow> HashAgg \<Rightarrow> HashAgg" where
  "slots n h = foldl (\<lambda>h i. CreateSlot (of_nat i) h) h [1..<Suc n]"

lemma slots_Suc: "slots (Suc n) h = CreateSlot (of_nat (Suc n)) (slots n h)"
  by (simp add: slots_def)

lemma slots_frame [simp]: "hgWindowSize (slots n h) = hgWindowSize h"
  by (induction n) (simp_all add: slots_Suc, simp add: slots_def)

lemma slots_keys:
  assumes "n < 2 ^ 32" and "s < 2 ^ 32"
  shows "fst ` set (hgWindow (slots n (NewHashAgg (int s) p))) = of_nat ` {max 1 (n - s)..n}"
  using assms(1)
proof (induction n)
  case 0
  then show ?case by (simp add: slots_def NewHashAgg_def)
next
  case (Suc n)
  let ?t = "of_nat (Suc n) :: u32"
  have ih: "fst ` set (hgWindow (slots n (NewHashAgg (int s) p))) = of_nat ` {max 1 (n - s)..n}"
    using Suc by simp
  have t: "unat ?t = Suc n" "unat (of_nat s :: u32) = s"
    using Suc.prems assms(2) by (intro unat_of_nat_small; simp)+
  have sz: "of_int (hgWindowSize (slots n (NewHashAgg (int s) p))) = (of_nat s :: u32)"
    by (simp add: NewHashAgg_def)
  have gt: "?t > of_nat s \<longleftrightarrow> s < Suc n" unfolding word_less_nat_alt t ..
  have ins: "insert ?t (of_nat ` {max 1 (n - s)..n}) = of_nat ` {max 1 (n - s)..Suc n}"
    by (simp add: atLeastAtMostSuc_conv)
  have ge: "?t - of_nat s \<le> of_nat i \<longleftrightarrow> Suc n - s \<le> i" if "i \<le> Suc n" "s < Suc n" for i
  proof -
    have "unat (of_nat i :: u32) = i" using that Suc.prems by (intro unat_of_nat_small) simp
    moreover have "unat (?t - of_nat s) = Suc n - s"
      unfolding unat_sub_if' t using that(2) by simp
    ultimately show ?thesis unfolding word_le_nat_alt by simp
  qed
  show ?case
  proof (cases "s < Suc n")
    case True
    have "{u \<in> of_nat ` {max 1 (n - s)..Suc n}. ?t - of_nat s \<le> u} = of_nat ` {max 1 (Suc n - s)..Suc n}"
      using ge True by (auto intro!: imageI)
    then show ?thesis unfolding slots_Suc CreateSlot_keys sz ih ins by (simp only: gt True if_True)
  next
    case False
    then have "max 1 (n - s) = max 1 (Suc n - s)" by simp
    then show ?thesis unfolding slots_Suc CreateSlot_keys sz ih ins by (simp only: gt False if_False)
  qed
qed

section \<open>Order independence\<close>

lemma overlay_lookup:
  "distinct (map fst rs) \<Longrightarrow> overlay m rs p = (case map_of rs p of None \<Rightarrow> m p | Some v \<Rightarrow> Some v)"
proof (induction rs arbitrary: m)
  case Nil
  then show ?case by (simp add: overlay_def)
next
  case (Cons r rs)
  have "overlay m (r # rs) p = overlay (m(fst r \<mapsto> snd r)) rs p" by (simp add: overlay_def)
  also have "\<dots> = (case map_of rs p of None \<Rightarrow> (m(fst r \<mapsto> snd r)) p | Some v \<Rightarrow> Some v)"
    using Cons by simp
  also have "\<dots> = (case map_of (r # rs) p of None \<Rightarrow> m p | Some v \<Rightarrow> Some v)"
    using Cons.prems by (cases r) (auto simp: map_of_eq_None_iff split: option.split dest: map_of_SomeD intro: rev_image_eqI)
  finally show ?case .
qed

lemma overlay_perm:
  assumes "distinct (map fst rs)" and "set rs' = set rs" and "distinct (map fst rs')"
  shows "overlay m rs' = overlay m rs"
proof -
  have "map_of rs' = map_of rs" using assms by (metis map_of_inject_set)
  then show ?thesis using assms by (simp add: fun_eq_iff overlay_lookup)
qed

text \<open>What the window answers once each of some players has reported once.\<close>

lemma report_verdict_all:
  assumes "hagg_ok h" and "map_of (hgWindow h) t = Some th" and "thHashes th = []"
    and "rs \<noteq> []" and "distinct (map fst rs)"
  shows "fst (GetState t (report_all t rs h)) =
    (if int (length rs) < thExpected th then HashPartial
     else if \<exists>x \<in> set rs. \<exists>y \<in> set rs. snd x \<noteq> snd y then HashDesync else HashMatch)"
proof -
  have "overlay (map_of []) rs = map_of rs"
    using assms(5) by (intro ext) (simp add: overlay_lookup split: option.split)
  with report_all_state [OF assms(1,2,4)] assms(3)
  have "fst (GetState t (report_all t rs h)) = verdict (thExpected th) (map_of rs)"
    by (auto simp: GetState_def)
  also have "\<dots> = (if int (length rs) < thExpected th then HashPartial else scan_hashes (map snd rs) None)"
    using scan_verdict [OF assms(5)] by simp
  finally show ?thesis by (simp add: scan_hashes_None)
qed

section \<open>Properties\<close>

text \<open>The verdict on a tick does not depend on the order in which the players report, nor on Go's
  map iteration: it is partial while a player is missing, then a match exactly when all the reported
  hashes are equal.\<close>

theorem hash_verdict:
  assumes "hagg_ok h" and "map_of (hgWindow h) t = Some th" and "thHashes th = []"
    and "rs \<noteq> []" and "distinct (map fst rs)"
    and "distinct (map fst rs')" and "set rs' = set rs"
  shows "fst (GetState t (report_all t rs h)) =
      (if int (length rs) < thExpected th then HashPartial
       else if \<exists>x \<in> set rs. \<exists>y \<in> set rs. snd x \<noteq> snd y then HashDesync else HashMatch) \<and>
    fst (GetState t (report_all t rs' h)) = fst (GetState t (report_all t rs h))"
proof -
  have "rs' \<noteq> []" using assms(4,7) by auto
  moreover have "length rs' = length rs"
    using assms(5-7) by (metis distinct_card distinct_map)
  ultimately show ?thesis using report_verdict_all [OF assms(1-3)] assms(4-7) by simp
qed

theorem hash_verdict_witness:
  "let h = CreateSlot 9 (NewHashAgg 100 2)
   in fst (GetState 9 (report_all 9 [(0, 77), (1, 78)] h)) = HashDesync \<and>
      fst (GetState 9 (report_all 9 [(1, 78), (0, 77)] h)) = fst (GetState 9 (report_all 9 [(0, 77), (1, 78)] h))"
proof -
  let ?h = "CreateSlot 9 (NewHashAgg 100 2)"
  have "map_of (hgWindow ?h) 9 = Some \<lparr>thTick = 9, thHashes = [], thExpected = 2, thState = HashPending\<rparr>"
    by (simp add: CreateSlot_def NewHashAgg_def Let_def)
  from hash_verdict [OF hagg_ok_CreateSlot [OF hagg_ok_new] this, of "[(0, 77), (1, 78)]" "[(1, 78), (0, 77)]"]
  show ?thesis by (simp add: Let_def insert_commute) blast
qed

text \<open>The window is bounded: after a slot for each of the ticks 1 to n, the slots are those of the
  last \<open>windowSize + 1\<close> ticks (one more than the name says), and a report for an older tick
  changes nothing and answers as a time-out.\<close>

theorem hash_window_bounded:
  assumes "n < 2 ^ 32" and "s < 2 ^ 32"
  shows "fst ` set (hgWindow (slots n (NewHashAgg (int s) p))) = of_nat ` {max 1 (n - s)..n} \<and>
    (t \<notin> of_nat ` {max 1 (n - s)..n} \<longrightarrow>
      Report t q v (slots n (NewHashAgg (int s) p)) = (HashTimeout, slots n (NewHashAgg (int s) p)))"
proof -
  have "Report t q v h = (HashTimeout, h)" if "t \<notin> fst ` set (hgWindow h)" for h
    using that by (simp add: Report_def flip: map_of_eq_None_iff)
  then show ?thesis using slots_keys [OF assms, of p] by simp
qed

theorem hash_window_bounded_witness:
  "fst ` set (hgWindow (slots 300 (NewHashAgg (int 100) 2))) = of_nat ` {200..300} \<and>
    Report 0 1 5 (slots 300 (NewHashAgg (int 100) 2)) = (HashTimeout, slots 300 (NewHashAgg (int 100) 2))"
proof -
  have "(0 :: u32) \<notin> of_nat ` {max 1 (300 - 100)..300 :: nat}"
  proof
    assume "(0 :: u32) \<in> of_nat ` {max 1 (300 - 100)..300 :: nat}"
    then obtain k :: nat where k: "(of_nat k :: u32) = 0" "200 \<le> k" "k \<le> 300" by auto
    then have "unat (of_nat k :: u32) = k" by (intro unat_of_nat_small) simp
    with k show False by simp
  qed
  with hash_window_bounded [of 300 100 2 0 1 5] show ?thesis by simp
qed

end
