(* ===== verification/World.thy ===== *)
theory World
  imports Fixed "HOL-Library.Multiset"
begin

text \<open>
  The deterministic simulation of \<^verbatim>\<open>internal/sim\<close>: \<^verbatim>\<open>rand.go\<close>,
  \<^verbatim>\<open>world.go\<close> and \<^verbatim>\<open>step.go\<close>. A pointer into \<^verbatim>\<open>w.Units\<close> is an
  index, so that a unit that attacks itself and a target updated through \<^verbatim>\<open>FindUnit\<close>
  are the same list cell as in the code. \<^verbatim>\<open>Step\<close> returns a result because
  \<^verbatim>\<open>MoveToward\<close> can divide by zero.
\<close>

section \<open>The generator\<close>

record SplitMix64 =
  rState :: u64

definition NewRand :: "u64 \<Rightarrow> SplitMix64" where
  "NewRand seed = \<lparr>rState = seed\<rparr>"

definition Next :: "SplitMix64 \<Rightarrow> u64 \<times> SplitMix64" where
  "Next r =
     (let s = rState r + 0x9e3779b97f4a7c15;
          z = s;
          z = (z XOR drop_bit 30 z) * 0xbf58476d1ce4e5b9;
          z = (z XOR drop_bit 27 z) * 0x94d049bb133111eb
      in (z XOR drop_bit 31 z, \<lparr>rState = s\<rparr>))"

definition Intn :: "SplitMix64 \<Rightarrow> i64 \<Rightarrow> i64 \<times> SplitMix64" where
  "Intn r n =
     (if n \<le>s 0 then (0, r)
      else let (z, r') = Next r in (z mod n, r'))"

section \<open>Units, commands and the world\<close>

type_synonym UnitState = u8
type_synonym CmdOp = u8

definition UnitIdle :: UnitState where "UnitIdle = 0"
definition UnitMoving :: UnitState where "UnitMoving = 1"
definition UnitDead :: UnitState where "UnitDead = 2"

definition CmdMove :: CmdOp where "CmdMove = 1"
definition CmdAttack :: CmdOp where "CmdAttack = 2"
definition CmdStop :: CmdOp where "CmdStop = 3"

lemmas state_defs = UnitIdle_def UnitMoving_def UnitDead_def
lemmas op_defs = CmdMove_def CmdAttack_def CmdStop_def

record Unit =
  uID :: u32
  uOwner :: u8
  uPos :: Vec2
  uHP :: fix32
  uMaxHP :: fix32
  uSpeed :: fix32
  uState :: UnitState
  uTargetID :: u32
  uMoveTo :: Vec2

record SimCmd =
  cPlayer :: u8
  cOp :: CmdOp
  cUnitID :: u32
  cTargetPos :: Vec2
  cTargetID :: u32

record World =
  wTick :: u32
  wSeed :: u64
  wRand :: SplitMix64
  wUnits :: "Unit list"
  wNextID :: u32
  wMapSizeX :: fix32
  wMapSizeY :: fix32

definition NewWorld :: "u64 \<Rightarrow> i32 \<Rightarrow> i32 \<Rightarrow> World" where
  "NewWorld seed mapW mapH =
     \<lparr>wTick = 0, wSeed = seed, wRand = NewRand seed, wUnits = [], wNextID = 1,
      wMapSizeX = FromInt mapW, wMapSizeY = FromInt mapH\<rparr>"

definition SpawnUnit :: "World \<Rightarrow> u8 \<Rightarrow> Vec2 \<Rightarrow> fix32 \<Rightarrow> fix32 \<Rightarrow> World \<times> u32" where
  "SpawnUnit w owner pos hp speed =
     (let ident = wNextID w;
          u = \<lparr>uID = ident, uOwner = owner, uPos = pos, uHP = hp, uMaxHP = hp,
               uSpeed = speed, uState = UnitIdle, uTargetID = 0,
               uMoveTo = \<lparr>vX = 0, vY = 0\<rparr>\<rparr>
      in (w\<lparr>wNextID := ident + 1, wUnits := wUnits w @ [u]\<rparr>, ident))"

text \<open>The index of the first unit with an id, for the pointer \<^verbatim>\<open>FindUnit\<close> returns.\<close>

fun find_unit :: "Unit list \<Rightarrow> u32 \<Rightarrow> nat option" where
  "find_unit [] ident = None"
| "find_unit (u # us) ident =
     (if uID u = ident then Some 0 else map_option Suc (find_unit us ident))"

definition FindUnit :: "World \<Rightarrow> u32 \<Rightarrow> nat option" where
  "FindUnit w ident = find_unit (wUnits w) ident"

text \<open>\<^verbatim>\<open>sort.Slice\<close> by id; where ids are distinct every correct sort agrees with
  \<open>sort_key\<close>.\<close>

definition SortedUnitsByID :: "World \<Rightarrow> Unit list" where
  "SortedUnitsByID w = sort_key uID (wUnits w)"

definition RemoveDead :: "World \<Rightarrow> World" where
  "RemoveDead w = w\<lparr>wUnits := filter (\<lambda>u. uState u \<noteq> UnitDead) (wUnits w)\<rparr>"

section \<open>One tick\<close>

definition AttackRange :: fix32 where "AttackRange = FromInt 2"
definition AttackDamage :: fix32 where "AttackDamage = 32768"

definition upd_unit :: "nat \<Rightarrow> (Unit \<Rightarrow> Unit) \<Rightarrow> World \<Rightarrow> World" where
  "upd_unit i f w = w\<lparr>wUnits := (wUnits w)[i := f (wUnits w ! i)]\<rparr>"

definition applyCommand :: "World \<Rightarrow> SimCmd \<Rightarrow> World" where
  "applyCommand w cmd =
     (case FindUnit w (cUnitID cmd) of
        None \<Rightarrow> w
      | Some i \<Rightarrow>
          if uState (wUnits w ! i) = UnitDead then w
          else if uOwner (wUnits w ! i) \<noteq> cPlayer cmd then w
          else if cOp cmd = CmdMove then
            upd_unit i (\<lambda>u. u\<lparr>uState := UnitMoving, uMoveTo := cTargetPos cmd, uTargetID := 0\<rparr>) w
          else if cOp cmd = CmdAttack then
            upd_unit i (\<lambda>u. u\<lparr>uState := UnitIdle, uTargetID := cTargetID cmd\<rparr>) w
          else if cOp cmd = CmdStop then
            upd_unit i (\<lambda>u. u\<lparr>uState := UnitIdle, uTargetID := 0\<rparr>) w
          else w)"

definition applyCommands :: "World \<Rightarrow> SimCmd list \<Rightarrow> World" where
  "applyCommands w cmds = foldl applyCommand w cmds"

definition stepMove :: "World \<Rightarrow> nat \<Rightarrow> 'e fault + World" where
  "stepMove w i =
     (let u = wUnits w ! i
      in and_then (MoveToward (uPos u) (uMoveTo u) (uSpeed u)) (\<lambda>p.
           let newPos = \<lparr>vX = fix_Clamp (vX p) 0 (wMapSizeX w), vY = fix_Clamp (vY p) 0 (wMapSizeY w)\<rparr>;
               w' = upd_unit i (\<lambda>u. u\<lparr>uPos := newPos\<rparr>) w
           in Inr (if DistSq newPos (uMoveTo u) \<le>s Eps
                   then upd_unit i (\<lambda>u. u\<lparr>uState := UnitIdle\<rparr>) w' else w')))"

definition stepAttack :: "World \<Rightarrow> nat \<Rightarrow> 'e fault + World" where
  "stepAttack w i =
     (let u = wUnits w ! i
      in if uTargetID u = 0 then Inr w
         else case FindUnit w (uTargetID u) of
           None \<Rightarrow> Inr (upd_unit i (\<lambda>u. u\<lparr>uTargetID := 0\<rparr>) w)
         | Some t \<Rightarrow>
             let target = wUnits w ! t
             in if uState target = UnitDead then Inr (upd_unit i (\<lambda>u. u\<lparr>uTargetID := 0\<rparr>) w)
                else if DistSq (uPos u) (uPos target) \<le>s fix_Mul AttackRange AttackRange then
                  let hp = fix_Sub (uHP target) AttackDamage
                  in Inr (if hp \<le>s 0
                          then upd_unit t (\<lambda>u. u\<lparr>uState := UnitDead, uHP := 0\<rparr>) w
                          else upd_unit t (\<lambda>u. u\<lparr>uHP := hp\<rparr>) w)
                else and_then (MoveToward (uPos u) (uPos target) (uSpeed u)) (\<lambda>p.
                       Inr (upd_unit i (\<lambda>u. u\<lparr>uPos := p\<rparr>) w)))"

text \<open>The insertion sort, on the array: \<open>shift_right us key j\<close> has its hole at \<open>j\<close>.\<close>

fun shift_right :: "Unit list \<Rightarrow> Unit \<Rightarrow> nat \<Rightarrow> Unit list" where
  "shift_right us key 0 = us[0 := key]"
| "shift_right us key (Suc j) =
     (if uID key < uID (us ! j) then shift_right (us[Suc j := us ! j]) key j
      else us[Suc j := key])"

definition sort_units :: "Unit list \<Rightarrow> Unit list" where
  "sort_units us = foldl (\<lambda>us i. shift_right us (us ! i) i) us [1..<length us]"

definition sortUnitsByID :: "World \<Rightarrow> World" where
  "sortUnitsByID w = w\<lparr>wUnits := sort_units (wUnits w)\<rparr>"

definition stepUnit :: "World \<Rightarrow> nat \<Rightarrow> 'e fault + World" where
  "stepUnit w i =
     (let u = wUnits w ! i
      in if uState u = UnitDead then Inr w
         else if uState u = UnitMoving then stepMove w i
         else if uState u = UnitIdle then stepAttack w i
         else Inr w)"

fun step_units :: "nat list \<Rightarrow> World \<Rightarrow> 'e fault + World" where
  "step_units [] w = Inr w"
| "step_units (i # is) w = and_then (stepUnit w i) (step_units is)"

definition Step :: "World \<Rightarrow> SimCmd list \<Rightarrow> 'e fault + World" where
  "Step w cmds =
     (let w1 = w\<lparr>wTick := wTick w + 1\<rparr>;
          w2 = applyCommands w1 cmds;
          w3 = sortUnitsByID w2
      in and_then (step_units [0..<length (wUnits w3)] w3) (\<lambda>w4. Inr (RemoveDead w4)))"

section \<open>The insertion sort is a stable sort by id\<close>

primrec insr :: "Unit \<Rightarrow> Unit list \<Rightarrow> Unit list" where
  "insr key [] = [key]"
| "insr key (x # rs) = (if uID key < uID x then x # insr key rs else key # x # rs)"

lemma mset_insr: "mset (insr key rs) = add_mset key (mset rs)"
  by (induction rs) auto

lemma set_insr: "set (insr key rs) = insert key (set rs)"
  by (induction rs) auto

lemma filter_insr:
  "filter (\<lambda>x. k = uID x) (insr key rs) =
     (if k = uID key then key # filter (\<lambda>x. k = uID x) rs else filter (\<lambda>x. k = uID x) rs)"
  by (induction rs) auto

lemma sorted_insr: "sorted (map uID (rev rs)) \<Longrightarrow> sorted (map uID (rev (insr key rs)))"
  by (induction rs) (auto simp: sorted_append set_insr)

lemma shift_right_insr:
  "shift_right (xs @ y # zs) key (length xs) = rev (insr key (rev xs)) @ zs"
proof (induction xs arbitrary: y zs rule: rev_induct)
  case Nil
  then show ?case by simp
next
  case (snoc x xs)
  then show ?case
    using snoc.IH [of x "x # zs"] by (simp add: nth_append list_update_append)
qed

lemma sort_key_stable': "filter (\<lambda>x. k = uID x) (sort_key uID xs) = filter (\<lambda>x. k = uID x) xs"
  using sort_key_stable [of uID k xs] by (simp only: eq_commute [of k])

lemma sort_key_snoc:
  "rev (insr y (rev (sort_key uID xs))) = sort_key uID (xs @ [y])"
proof (rule sym, rule properties_for_sort_key)
  show "mset (rev (insr y (rev (sort_key uID xs)))) = mset (xs @ [y])"
    by (simp add: mset_insr)
next
  fix k :: Unit
  show "filter (\<lambda>x. uID k = uID x) (rev (insr y (rev (sort_key uID xs)))) =
      filter (\<lambda>x. uID k = uID x) (xs @ [y])"
    by (simp add: filter_insr sort_key_stable' flip: rev_filter)
next
  show "sorted (map uID (rev (insr y (rev (sort_key uID xs)))))"
    by (rule sorted_insr) simp
qed

lemma sort_units_upto:
  "Suc 0 \<le> k \<Longrightarrow> k \<le> length us \<Longrightarrow>
    foldl (\<lambda>us i. shift_right us (us ! i) i) us [1..<k] = sort_key uID (take k us) @ drop k us"
proof (induction k rule: dec_induct)
  case base
  then show ?case by (cases us) simp_all
next
  case (step k)
  then have d: "drop k us = us ! k # drop (Suc k) us" by (simp add: Cons_nth_drop_Suc)
  have "foldl (\<lambda>us i. shift_right us (us ! i) i) us [1..<Suc k] =
      shift_right (sort_key uID (take k us) @ us ! k # drop (Suc k) us) (us ! k) (length (sort_key uID (take k us)))"
    using step by (simp add: d nth_append)
  also have "\<dots> = sort_key uID (take (Suc k) us) @ drop (Suc k) us"
    using step by (simp only: shift_right_insr sort_key_snoc take_Suc_conv_app_nth Suc_le_eq)
  finally show ?case .
qed

lemma sort_units_eq: "sort_units us = sort_key uID us"
proof (cases "us = []")
  case False
  then show ?thesis using sort_units_upto [of "length us" us]
    by (simp add: sort_units_def Suc_le_eq)
qed (simp add: sort_units_def)

lemma sort_units_facts [simp]:
  "set (sort_units us) = set us" "length (sort_units us) = length us"
  "sorted (map uID (sort_units us))"
  "distinct (map uID (sort_units us)) = distinct (map uID us)"
proof -
  show "set (sort_units us) = set us" "length (sort_units us) = length us"
    "sorted (map uID (sort_units us))" by (simp_all add: sort_units_eq)
  have "mset (map uID (sort_units us)) = mset (map uID us)"
    by (simp add: sort_units_eq)
  then show "distinct (map uID (sort_units us)) = distinct (map uID us)"
    by (rule mset_eq_imp_distinct_iff)
qed

section \<open>Invariants of a tick\<close>

text \<open>What no operation of a tick writes: of a unit, and of the world.\<close>

definition unit_static :: "Unit \<Rightarrow> u32 \<times> u8 \<times> fix32 \<times> fix32" where
  "unit_static u = (uID u, uOwner u, uMaxHP u, uSpeed u)"

definition world_static :: "World \<Rightarrow> u64 \<times> SplitMix64 \<times> u32 \<times> fix32 \<times> fix32" where
  "world_static w = (wSeed w, wRand w, wNextID w, wMapSizeX w, wMapSizeY w)"

definition in_range :: "fix32 \<Rightarrow> fix32 \<Rightarrow> bool" where
  "in_range hi x \<longleftrightarrow> 0 \<le> sint x \<and> sint x \<le> sint hi"

definition unit_ok :: "fix32 \<Rightarrow> fix32 \<Rightarrow> Unit \<Rightarrow> bool" where
  "unit_ok mx my u \<longleftrightarrow>
     speed_ok (uSpeed u) \<and> in_range mx (vX (uPos u)) \<and> in_range my (vY (uPos u)) \<and>
     (uState u = UnitDead \<or> 0 < sint (uHP u) \<and> sint (uHP u) \<le> sint (uMaxHP u))"

definition world_ok :: "World \<Rightarrow> bool" where
  "world_ok w \<longleftrightarrow>
     0 \<le> sint (wMapSizeX w) \<and> 0 \<le> sint (wMapSizeY w) \<and>
     distinct (map uID (wUnits w)) \<and>
     list_all (\<lambda>u. uID u < wNextID w) (wUnits w) \<and>
     list_all (unit_ok (wMapSizeX w) (wMapSizeY w)) (wUnits w)"

lemma find_unit_Some:
  "find_unit us ident = Some i \<Longrightarrow> i < length us \<and> uID (us ! i) = ident"
  by (induction us arbitrary: i) (auto split: if_splits)

lemma find_unit_None: "find_unit us ident = None \<longleftrightarrow> ident \<notin> uID ` set us"
  by (induction us) auto

lemma find_unit_distinct:
  "distinct (map uID us) \<Longrightarrow> i < length us \<Longrightarrow> find_unit us (uID (us ! i)) = Some i"
proof (induction us arbitrary: i)
  case (Cons u us)
  then show ?case by (cases i) (auto dest: nth_mem)
qed simp

lemma upd_unit_simps [simp]:
  "wUnits (upd_unit i f w) = (wUnits w)[i := f (wUnits w ! i)]"
  "world_static (upd_unit i f w) = world_static w"
  "wTick (upd_unit i f w) = wTick w"
  "wNextID (upd_unit i f w) = wNextID w"
  "wMapSizeX (upd_unit i f w) = wMapSizeX w"
  "wMapSizeY (upd_unit i f w) = wMapSizeY w"
  by (simp_all add: upd_unit_def world_static_def)

lemma map_update_same: "f y = f (xs ! i) \<Longrightarrow> map f (xs[i := y]) = map f xs"
  by (cases "i < length xs") (auto simp: map_update list_update_beyond intro: list_update_same_conv [THEN iffD2])

lemma uID_of_static: "map unit_static us = map unit_static vs \<Longrightarrow> map uID us = map uID vs"
  by (drule arg_cong [where f = "map fst"]) (simp add: unit_static_def comp_def)

lemma list_all_update: "list_all P xs \<Longrightarrow> P y \<Longrightarrow> list_all P (xs[i := y])"
  unfolding list_all_iff using set_update_subset_insert by fastforce

lemma list_all_at: "list_all P xs \<Longrightarrow> i < length xs \<Longrightarrow> P (xs ! i)"
  by (simp add: list_all_length)

text \<open>The static data decide everything of the invariant but the units' health and place.\<close>

lemma world_ok_transfer:
  assumes "world_ok w" and "map unit_static (wUnits w') = map unit_static (wUnits w)"
    and "world_static w' = world_static w"
    and "list_all (unit_ok (wMapSizeX w') (wMapSizeY w')) (wUnits w')"
  shows "world_ok w'"
proof -
  have ids: "map uID (wUnits w') = map uID (wUnits w)" using assms(2) by (rule uID_of_static)
  have "list_all (\<lambda>x. x < wNextID w) (map uID (wUnits w))"
    using assms(1) by (simp add: world_ok_def list_all_iff)
  then have "list_all (\<lambda>u. uID u < wNextID w') (wUnits w')"
    using assms(3) by (simp only: ids [symmetric]) (simp add: list_all_iff world_static_def)
  with assms ids show ?thesis by (simp add: world_ok_def world_static_def)
qed

text \<open>One summary per operation: it succeeds, keeps the static data and the invariant.\<close>

definition keeps :: "World \<Rightarrow> World \<Rightarrow> bool" where
  "keeps w w' \<longleftrightarrow>
     world_ok w' \<and> map unit_static (wUnits w') = map unit_static (wUnits w) \<and>
     world_static w' = world_static w \<and> wTick w' = wTick w"

lemma keeps_refl: "world_ok w \<Longrightarrow> keeps w w"
  by (simp add: keeps_def)

lemma keeps_trans: "keeps w w1 \<Longrightarrow> keeps w1 w2 \<Longrightarrow> keeps w w2"
  by (simp add: keeps_def)

lemma keeps_length: "keeps w w' \<Longrightarrow> length (wUnits w') = length (wUnits w)"
  by (metis keeps_def length_map)

lemma keeps_upd:
  assumes "world_ok w" and "i < length (wUnits w)"
    and "unit_static (f (wUnits w ! i)) = unit_static (wUnits w ! i)"
    and "unit_ok (wMapSizeX w) (wMapSizeY w) (f (wUnits w ! i))"
  shows "keeps w (upd_unit i f w)"
proof -
  have m: "map unit_static (wUnits (upd_unit i f w)) = map unit_static (wUnits w)"
    using assms(3) by (simp add: map_update_same)
  moreover have "world_ok (upd_unit i f w)"
    by (rule world_ok_transfer [OF assms(1) m])
      (use assms in \<open>auto simp: world_ok_def intro: list_all_update\<close>)
  ultimately show ?thesis by (simp add: keeps_def)
qed

lemma world_ok_unit:
  "world_ok w \<Longrightarrow> i < length (wUnits w) \<Longrightarrow> unit_ok (wMapSizeX w) (wMapSizeY w) (wUnits w ! i)"
  by (simp add: world_ok_def list_all_at)

lemma keeps_applyCommand: "world_ok w \<Longrightarrow> keeps w (applyCommand w cmd)"
proof (cases "FindUnit w (cUnitID cmd)")
  case None
  then show "world_ok w \<Longrightarrow> ?thesis" by (simp add: applyCommand_def keeps_refl)
next
  case (Some i)
  assume w: "world_ok w"
  from Some have i: "i < length (wUnits w)" using find_unit_Some by (auto simp: FindUnit_def)
  show ?thesis
    using world_ok_unit [OF w i] Some
    by (auto simp: applyCommand_def unit_ok_def unit_static_def state_defs intro!: keeps_refl w keeps_upd i)
qed

lemma keeps_applyCommands: "world_ok w \<Longrightarrow> keeps w (applyCommands w cmds)"
proof (induction cmds arbitrary: w)
  case Nil
  then show ?case by (simp add: applyCommands_def keeps_refl)
next
  case (Cons c cs)
  from keeps_applyCommand [OF Cons.prems, of c] Cons.IH [of "applyCommand w c"]
  show ?case by (auto simp: applyCommands_def keeps_def)
qed

lemma clamp_in_range: "0 \<le> sint hi \<Longrightarrow> in_range hi (fix_Clamp x 0 hi)"
  using fix_Clamp_range [of 0 hi x] by (simp add: in_range_def word_sle_eq)

lemma stepMove_ok:
  assumes w: "world_ok w" and i: "i < length (wUnits w)" and m: "uState (wUnits w ! i) = UnitMoving"
  shows "\<exists>w'. (stepMove w i :: 'e fault + World) = Inr w' \<and> keeps w w'"
proof -
  let ?u = "wUnits w ! i"
  note u = world_ok_unit [OF w i]
  then have "no_panic (MoveToward (uPos ?u) (uMoveTo ?u) (uSpeed ?u) :: 'e fault + Vec2)"
    by (intro MoveToward_no_panic speed_ok_Mul) (simp add: unit_ok_def)
  then obtain p where p: "(MoveToward (uPos ?u) (uMoveTo ?u) (uSpeed ?u) :: 'e fault + Vec2) = Inr p"
    by (auto simp: MoveToward_def fix_Div_eq Let_def split: if_splits)
  define f :: "Unit \<Rightarrow> Unit" where "f = (\<lambda>u. u\<lparr>uPos := \<lparr>vX = fix_Clamp (vX p) 0 (wMapSizeX w),
    vY = fix_Clamp (vY p) 0 (wMapSizeY w)\<rparr>\<rparr>)"
  have map: "0 \<le> sint (wMapSizeX w)" "0 \<le> sint (wMapSizeY w)" using w by (simp_all add: world_ok_def)
  have f: "keeps w (upd_unit i f w)"
    using u map m
    by (intro keeps_upd w i) (auto simp: f_def unit_static_def unit_ok_def clamp_in_range state_defs)
  have "keeps (upd_unit i f w) (upd_unit i (\<lambda>u. u\<lparr>uState := UnitIdle\<rparr>) (upd_unit i f w))"
    using u map m f i
    by (intro keeps_upd) (auto simp: f_def unit_static_def unit_ok_def clamp_in_range state_defs keeps_def)
  with f p show ?thesis
    by (auto simp: stepMove_def Let_def f_def intro: keeps_trans)
qed

lemma damage_bounds:
  assumes "0 < sint hp" and "\<not> fix_Sub hp AttackDamage \<le>s 0"
  shows "0 < sint (fix_Sub hp AttackDamage)" and "sint (fix_Sub hp AttackDamage) = sint hp - 32768"
proof -
  show "sint (fix_Sub hp AttackDamage) = sint hp - 32768"
    using assms(1) sint_i32_bounds [of hp] sint_diff_32 [of hp 32768]
    by (simp add: fix_Sub_def AttackDamage_def)
  with assms(2) show "0 < sint (fix_Sub hp AttackDamage)" by (simp add: word_sle_eq)
qed

lemma between_in_range: "in_range hi a \<Longrightarrow> in_range hi b \<Longrightarrow> between (sint a) (sint b) (sint x) \<Longrightarrow> in_range hi x"
  by (auto simp: in_range_def between_def)

lemma in_range_diff: "in_range hi a \<Longrightarrow> in_range hi b \<Longrightarrow> \<bar>sint a - sint b\<bar> < 2 ^ 31"
  using sint_i32_bounds [of a] sint_i32_bounds [of b] by (auto simp: in_range_def)

lemma stepAttack_ok:
  assumes w: "world_ok w" and i: "i < length (wUnits w)" and m: "uState (wUnits w ! i) = UnitIdle"
  shows "\<exists>w'. (stepAttack w i :: 'e fault + World) = Inr w' \<and> keeps w w'"
proof -
  let ?u = "wUnits w ! i"
  note u = world_ok_unit [OF w i]
  have reset: "keeps w (upd_unit i (\<lambda>u. u\<lparr>uTargetID := 0\<rparr>) w)"
    using u by (intro keeps_upd w i) (auto simp: unit_static_def unit_ok_def)
  show ?thesis
  proof (cases "uTargetID ?u = 0 \<or> FindUnit w (uTargetID ?u) = None")
    case True
    with reset w show ?thesis by (auto simp: stepAttack_def Let_def keeps_refl)
  next
    case False
    then obtain t where t: "FindUnit w (uTargetID ?u) = Some t" and nz: "uTargetID ?u \<noteq> 0" by auto
    then have tl: "t < length (wUnits w)" using find_unit_Some by (auto simp: FindUnit_def)
    let ?t = "wUnits w ! t"
    note tu = world_ok_unit [OF w tl]
    show ?thesis
    proof (cases "uState ?t = UnitDead")
      case True
      with reset t nz show ?thesis by (simp add: stepAttack_def Let_def)
    next
      case alive: False
      then have hp: "0 < sint (uHP ?t)" "sint (uHP ?t) \<le> sint (uMaxHP ?t)"
        using tu by (auto simp: unit_ok_def)
      have kill: "keeps w (upd_unit t (\<lambda>u. u\<lparr>uState := UnitDead, uHP := 0\<rparr>) w)"
        using tu by (intro keeps_upd w tl) (auto simp: unit_static_def unit_ok_def)
      have hit: "keeps w (upd_unit t (\<lambda>u. u\<lparr>uHP := fix_Sub (uHP ?t) AttackDamage\<rparr>) w)"
        if "\<not> fix_Sub (uHP ?t) AttackDamage \<le>s 0"
        using tu damage_bounds [OF hp(1) that] hp
        by (intro keeps_upd w tl) (auto simp: unit_static_def unit_ok_def)
      have "no_panic (MoveToward (uPos ?u) (uPos ?t) (uSpeed ?u) :: 'e fault + Vec2)"
        using u by (intro MoveToward_no_panic speed_ok_Mul) (simp add: unit_ok_def)
      then obtain p where p: "(MoveToward (uPos ?u) (uPos ?t) (uSpeed ?u) :: 'e fault + Vec2) = Inr p"
        by (auto simp: MoveToward_def fix_Div_eq Let_def split: if_splits)
      have r: "in_range (wMapSizeX w) (vX (uPos ?u))" "in_range (wMapSizeY w) (vY (uPos ?u))"
          "in_range (wMapSizeX w) (vX (uPos ?t))" "in_range (wMapSizeY w) (vY (uPos ?t))"
          "speed_ok (uSpeed ?u)"
        using u tu by (simp_all add: unit_ok_def)
      have pb: "in_range (wMapSizeX w) (vX p) \<and> in_range (wMapSizeY w) (vY p)"
        using MoveToward_between [OF r(5) p in_range_diff [OF r(3,1)] in_range_diff [OF r(4,2)]]
          between_in_range [OF r(1,3)] between_in_range [OF r(2,4)] by blast
      have "keeps w (upd_unit i (\<lambda>u. u\<lparr>uPos := p\<rparr>) w)"
        using u pb by (intro keeps_upd w i) (auto simp: unit_static_def unit_ok_def)
      with kill hit p alive t nz show ?thesis by (auto simp: stepAttack_def Let_def)
    qed
  qed
qed

lemma stepUnit_ok:
  "world_ok w \<Longrightarrow> i < length (wUnits w) \<Longrightarrow>
    \<exists>w'. (stepUnit w i :: 'e fault + World) = Inr w' \<and> keeps w w'"
  using stepMove_ok stepAttack_ok by (auto simp: stepUnit_def Let_def keeps_refl)

lemma step_units_ok:
  assumes "world_ok w" and "\<forall>i \<in> set is. i < length (wUnits w)"
  shows "\<exists>w'. (step_units is w :: 'e fault + World) = Inr w' \<and> keeps w w'"
  using assms
proof (induction "is" arbitrary: w)
  case Nil
  then show ?case by (simp add: keeps_refl)
next
  case (Cons i "is")
  obtain w1 where w1: "(stepUnit w i :: 'e fault + World) = Inr w1" "keeps w w1"
    using stepUnit_ok [OF Cons.prems(1)] Cons.prems(2) by auto
  with Cons.prems have "world_ok w1" "\<forall>i \<in> set is. i < length (wUnits w1)"
    by (auto simp: keeps_length) (simp add: keeps_def)
  from Cons.IH [OF this] w1 show ?case by (auto intro: keeps_trans)
qed

section \<open>The tick as a whole\<close>

lemma world_ok_tick: "world_ok w \<Longrightarrow> world_ok (w\<lparr>wTick := t\<rparr>)"
  by (simp add: world_ok_def)

lemma world_ok_sort: "world_ok w \<Longrightarrow> world_ok (sortUnitsByID w)"
  by (simp add: world_ok_def sortUnitsByID_def list_all_iff)

lemma world_ok_filter: "world_ok w \<Longrightarrow> world_ok (RemoveDead w)"
  by (auto simp: world_ok_def RemoveDead_def list_all_iff distinct_map_filter)

lemma sorted_map_filter': "sorted (map f xs) \<Longrightarrow> sorted (map f (filter P xs))"
  by (induction xs) auto

lemma Step_ok:
  assumes w: "world_ok w"
  shows "\<exists>w'. (Step w cmds :: 'e fault + World) = Inr w' \<and> world_ok w' \<and>
    wTick w' = wTick w + 1 \<and> world_static w' = world_static w \<and>
    sorted (map uID (wUnits w')) \<and> list_all (\<lambda>u. uState u \<noteq> UnitDead) (wUnits w') \<and>
    unit_static ` set (wUnits w') \<subseteq> unit_static ` set (wUnits w)"
proof -
  let ?w2 = "applyCommands (w\<lparr>wTick := wTick w + 1\<rparr>) cmds"
  let ?w3 = "sortUnitsByID ?w2"
  have k2: "keeps (w\<lparr>wTick := wTick w + 1\<rparr>) ?w2"
    by (intro keeps_applyCommands world_ok_tick w)
  then have ok3: "world_ok ?w3" by (intro world_ok_sort) (simp add: keeps_def)
  obtain w4 where w4: "(step_units [0..<length (wUnits ?w3)] ?w3 :: 'e fault + World) = Inr w4"
    and k4: "keeps ?w3 w4" using step_units_ok [OF ok3, of "[0..<length (wUnits ?w3)]"] by auto
  have st: "unit_static ` set (wUnits w4) = unit_static ` set (wUnits w)"
  proof -
    have "unit_static ` set (wUnits w4) = set (map unit_static (wUnits ?w3))"
      using k4 by (metis keeps_def set_map)
    also have "\<dots> = set (map unit_static (wUnits ?w2))" by (simp add: sortUnitsByID_def)
    also have "\<dots> = set (map unit_static (wUnits w))" using k2 by (simp add: keeps_def)
    finally show ?thesis by simp
  qed
  have "map uID (wUnits w4) = map uID (wUnits ?w3)" using k4 by (intro uID_of_static) (simp add: keeps_def)
  then have "sorted (map uID (wUnits w4))" by (simp add: sortUnitsByID_def)
  moreover have "wTick w4 = wTick w + 1" "world_static w4 = world_static w" "world_ok w4"
    using k2 k4 by (simp_all add: keeps_def sortUnitsByID_def world_static_def)
  moreover have "(Step w cmds :: 'e fault + World) = Inr (RemoveDead w4)"
    using w4 by (simp add: Step_def Let_def)
  moreover have "unit_static ` set (wUnits (RemoveDead w4)) \<subseteq> unit_static ` set (wUnits w)"
    using st by (auto simp: RemoveDead_def)
  ultimately show ?thesis
    by (auto simp: world_ok_filter sorted_map_filter' list_all_iff) (auto simp: RemoveDead_def world_static_def sorted_map_filter')
qed

section \<open>Commands act on their own player's units only\<close>

definition same_foreign :: "u8 \<Rightarrow> Unit list \<Rightarrow> Unit list \<Rightarrow> bool" where
  "same_foreign p us vs \<longleftrightarrow> list_all2 (\<lambda>u v. uOwner u = uOwner v \<and> (uOwner u = p \<or> u = v)) us vs"

lemma same_foreign_refl: "same_foreign p us us"
  by (simp add: same_foreign_def list.rel_refl)

lemma same_foreign_trans: "same_foreign p us vs \<Longrightarrow> same_foreign p vs ws \<Longrightarrow> same_foreign p us ws"
  by (simp add: same_foreign_def list_all2_conv_all_nth) metis

lemma same_foreign_upd:
  assumes "uOwner (us ! i) = p" and "uOwner v = p"
  shows "same_foreign p us (us[i := v])"
proof -
  have upd: "us[i := v] ! j = (if j = i then v else us ! j)" if "j < length us" for j
    using that by auto
  show ?thesis using assms by (auto simp: same_foreign_def list_all2_conv_all_nth upd)
qed

lemma applyCommand_foreign:
  "same_foreign (cPlayer c) (wUnits w) (wUnits (applyCommand w c))"
  by (auto simp: applyCommand_def same_foreign_refl intro!: same_foreign_upd split: option.splits)

lemma applyCommands_foreign:
  "\<forall>c \<in> set cs. cPlayer c = p \<Longrightarrow> same_foreign p (wUnits w) (wUnits (applyCommands w cs))"
proof (induction cs arbitrary: w)
  case Nil
  then show ?case by (simp add: applyCommands_def same_foreign_refl)
next
  case (Cons c cs)
  then show ?case
    using applyCommand_foreign [of c w] Cons.IH [of "applyCommand w c"]
    by (auto simp: applyCommands_def intro: same_foreign_trans)
qed

section \<open>The generator's output\<close>

lemma xorshift_bits:
  fixes a b :: "'a::len word"
  assumes "0 < k" and eq: "a XOR drop_bit k a = b XOR drop_bit k b"
  shows "a = b"
proof (rule bit_word_eqI)
  fix n assume n: "n < LENGTH('a)"
  have "m \<le> LENGTH('a) \<Longrightarrow> bit a (LENGTH('a) - m) = bit b (LENGTH('a) - m)" for m
  proof (induction m rule: less_induct)
    case (less m)
    let ?i = "LENGTH('a) - m"
    have "bit a (?i + k) = bit b (?i + k)"
    proof (cases "k < m")
      case True
      then show ?thesis using less.IH [of "m - k"] less.prems assms(1) by simp
    next
      case False
      then have "LENGTH('a) \<le> ?i + k" using less.prems by linarith
      then show ?thesis by (auto dest: bit_imp_le_length)
    qed
    moreover have "bit (a XOR drop_bit k a) ?i = bit (b XOR drop_bit k b) ?i" using eq by simp
    ultimately show ?case by (auto simp: bit_xor_iff bit_drop_bit_eq add.commute)
  qed
  from this [of "LENGTH('a) - n"] n show "bit a n = bit b n" by simp
qed

lemma mult_right_cancel_inverse:
  fixes a b c d :: "'a::len word"
  assumes "c * d = 1" and "a * c = b * c"
  shows "a = b"
proof -
  have "a * c * d = b * c * d" using assms(2) by simp
  then show ?thesis using assms(1) by (simp add: mult.assoc)
qed

definition mulshift :: "nat \<Rightarrow> u64 \<Rightarrow> u64 \<Rightarrow> u64" where
  "mulshift k c z = (z XOR drop_bit k z) * c"

lemma mulshift_inj: "c * d = 1 \<Longrightarrow> 0 < k \<Longrightarrow> mulshift k c a = mulshift k c b \<Longrightarrow> a = b"
  unfolding mulshift_def by (rule xorshift_bits) (auto dest: mult_right_cancel_inverse)

lemma Next_mulshift:
  "fst (Next r) =
     (let y = mulshift 27 0x94d049bb133111eb
        (mulshift 30 0xbf58476d1ce4e5b9 (rState r + 0x9e3779b97f4a7c15))
      in y XOR drop_bit 31 y)"
  by (simp only: Next_def Let_def fst_conv mulshift_def)

lemma Next_inj:
  assumes "fst (Next r) = fst (Next r')"
  shows "r = r'"
proof -
  have m1: "(0xbf58476d1ce4e5b9 :: u64) * 0x96de1b173f119089 = 1" by simp
  have m2: "(0x94d049bb133111eb :: u64) * 0x319642b2d24d8ec3 = 1" by simp
  let ?s = "\<lambda>r. rState r + 0x9e3779b97f4a7c15"
  let ?x = "\<lambda>r. mulshift 30 0xbf58476d1ce4e5b9 (?s r)"
  let ?y = "\<lambda>r. mulshift 27 0x94d049bb133111eb (?x r)"
  have "?y r XOR drop_bit 31 (?y r) = ?y r' XOR drop_bit 31 (?y r')"
    using assms by (simp only: Next_mulshift Let_def)
  then have "?y r = ?y r'" by (rule xorshift_bits [rotated]) simp
  then have "?x r = ?x r'" by (rule mulshift_inj [OF m2, rotated]) simp
  then have "?s r = ?s r'" by (rule mulshift_inj [OF m1, rotated]) simp
  then show ?thesis by simp
qed

lemma uint_sint_64:
  assumes "0 \<le> sint (n :: i64)"
  shows "uint n = sint n"
proof -
  have s: "sint n = (uint n + 2 ^ 63) mod 2 ^ 64 - 2 ^ 63"
    using int_word_sint [of "uint n", where 'a = 64] by simp
  have u: "0 \<le> uint n" "uint n < 2 ^ 64" using uint_bounded [of n] by simp_all
  show ?thesis
  proof (cases "uint n < 2 ^ 63")
    case True
    with u show ?thesis by (simp add: s)
  next
    case False
    then have "(uint n - 2 ^ 63) mod 2 ^ 64 = uint n - 2 ^ 63"
      using u by (intro mod_pos_pos_trivial) simp_all
    moreover have "uint n + 2 ^ 63 = (uint n - 2 ^ 63) + 2 ^ 64" by simp
    ultimately have "sint n = uint n - 2 ^ 64" by (simp only: s mod_add_self2)
    with assms u show ?thesis by simp
  qed
qed

lemma sint_uint_64: "uint (n :: i64) < 2 ^ 63 \<Longrightarrow> sint n = uint n"
  using int_word_sint [of "uint n", where 'a = 64] by simp

lemma Intn_range:
  assumes "0 <s n"
  shows "0 \<le> sint (fst (Intn r n))" and "sint (fst (Intn r n)) < sint n"
proof -
  have n: "0 < sint n" using assms by (simp add: word_sless_alt)
  then have un: "uint n = sint n" by (simp add: uint_sint_64)
  have "uint (fst (Next r) mod n) = uint (fst (Next r)) mod sint n" by (simp add: uint_mod un)
  then have b: "uint (fst (Next r) mod n) < sint n" using n by simp
  then have "sint (fst (Next r) mod n) = uint (fst (Next r) mod n)"
    using sint_lt [of n] by (intro sint_uint_64) simp
  moreover have "fst (Intn r n) = fst (Next r) mod n"
    using n by (simp add: Intn_def word_sle_eq split: prod.split)
  ultimately show "0 \<le> sint (fst (Intn r n))" "sint (fst (Intn r n)) < sint n" using b by simp_all
qed

section \<open>The order of the unit list does not matter\<close>

text \<open>With distinct ids an update through \<^verbatim>\<open>FindUnit\<close> is an update by id.\<close>

definition upd_id :: "u32 \<Rightarrow> (Unit \<Rightarrow> Unit) \<Rightarrow> Unit list \<Rightarrow> Unit list" where
  "upd_id ident f us = map (\<lambda>u. if uID u = ident then f u else u) us"

lemma upd_at_id:
  assumes "distinct (map uID us)" and "find_unit us ident = Some i"
  shows "us[i := f (us ! i)] = upd_id ident f us"
proof (rule nth_equalityI)
  fix j assume "j < length (us[i := f (us ! i)])"
  then have j: "j < length us" by simp
  from find_unit_Some [OF assms(2)] have i: "i < length us" "uID (us ! i) = ident" by auto
  have "uID (us ! j) = ident \<longleftrightarrow> j = i"
    using i j assms(1) nth_eq_iff_index_eq [of "map uID us" j i] by auto
  with i j show "us[i := f (us ! i)] ! j = upd_id ident f us ! j"
    by (auto simp: upd_id_def nth_list_update)
qed (simp add: upd_id_def)

definition cmd_effect :: "SimCmd \<Rightarrow> Unit \<Rightarrow> Unit" where
  "cmd_effect cmd u =
     (if uState u = UnitDead \<or> uOwner u \<noteq> cPlayer cmd then u
      else if cOp cmd = CmdMove then u\<lparr>uState := UnitMoving, uMoveTo := cTargetPos cmd, uTargetID := 0\<rparr>
      else if cOp cmd = CmdAttack then u\<lparr>uState := UnitIdle, uTargetID := cTargetID cmd\<rparr>
      else if cOp cmd = CmdStop then u\<lparr>uState := UnitIdle, uTargetID := 0\<rparr>
      else u)"

lemma uID_cmd_effect [simp]: "uID (cmd_effect cmd u) = uID u"
  by (simp add: cmd_effect_def)

lemma applyCommand_units:
  assumes "distinct (map uID (wUnits w))"
  shows "applyCommand w cmd = w\<lparr>wUnits := upd_id (cUnitID cmd) (cmd_effect cmd) (wUnits w)\<rparr>"
proof (cases "find_unit (wUnits w) (cUnitID cmd)")
  case None
  then have "upd_id (cUnitID cmd) (cmd_effect cmd) (wUnits w) = wUnits w"
    unfolding upd_id_def by (intro map_idI) (force simp: find_unit_None)
  with None show ?thesis by (simp add: applyCommand_def FindUnit_def)
next
  case (Some i)
  have "applyCommand w cmd = w\<lparr>wUnits := (wUnits w)[i := cmd_effect cmd (wUnits w ! i)]\<rparr>"
    using Some by (simp add: applyCommand_def FindUnit_def upd_unit_def cmd_effect_def)
  then show ?thesis by (simp only: upd_at_id [OF assms Some])
qed

definition world_rest :: "World \<Rightarrow> u32 \<times> u64 \<times> SplitMix64 \<times> u32 \<times> fix32 \<times> fix32" where
  "world_rest w = (wTick w, wSeed w, wRand w, wNextID w, wMapSizeX w, wMapSizeY w)"

definition same_units :: "World \<Rightarrow> World \<Rightarrow> bool" where
  "same_units w w' \<longleftrightarrow> distinct (map uID (wUnits w)) \<and> mset (wUnits w) = mset (wUnits w') \<and>
     world_rest w = world_rest w'"

lemma world_eqI: "world_rest w = world_rest w' \<Longrightarrow> wUnits w = wUnits w' \<Longrightarrow> w = (w' :: World)"
  by (cases w, cases w') (simp add: world_rest_def)

lemma world_rest_units [simp]: "world_rest (w\<lparr>wUnits := us\<rparr>) = world_rest w"
  by (simp add: world_rest_def)

lemma same_units_distinct: "same_units w w' \<Longrightarrow> distinct (map uID (wUnits w'))"
  unfolding same_units_def by (metis mset_eq_imp_distinct_iff mset_map)

lemma same_units_applyCommand:
  assumes "same_units w w'"
  shows "same_units (applyCommand w cmd) (applyCommand w' cmd)"
proof -
  let ?f = "\<lambda>u. if uID u = cUnitID cmd then cmd_effect cmd u else u"
  have m: "mset (map ?f (wUnits w)) = mset (map ?f (wUnits w'))"
    using assms by (simp add: same_units_def)
  have c: "uID \<circ> ?f = uID" by auto
  have "distinct (map uID (map ?f (wUnits w)))" using assms unfolding map_map c by (simp add: same_units_def)
  moreover have "applyCommand w cmd = w\<lparr>wUnits := map ?f (wUnits w)\<rparr>"
    "applyCommand w' cmd = w'\<lparr>wUnits := map ?f (wUnits w')\<rparr>"
    using assms same_units_distinct [OF assms]
    by (simp_all only: applyCommand_units same_units_def upd_id_def simp_thms)
  ultimately show ?thesis using assms m by (simp only: same_units_def world_rest_units) simp
qed

lemma same_units_applyCommands: "same_units w w' \<Longrightarrow> same_units (applyCommands w cs) (applyCommands w' cs)"
  by (induction cs arbitrary: w w') (simp_all add: applyCommands_def same_units_applyCommand)

lemma sort_key_perm:
  assumes "distinct (map f xs)" and "mset xs = mset ys"
  shows "sort_key f xs = sort_key f ys"
proof (rule properties_for_sort_key)
  show "mset (sort_key f ys) = mset xs" using assms by simp
next
  fix k assume k: "k \<in> set (sort_key f ys)"
  have one: "filter (\<lambda>x. f k = f x) zs = [k]" if "distinct (map f zs)" "k \<in> set zs" for zs
    using that by (induction zs) (auto simp: filter_empty_conv image_iff)
  have "mset (sort_key f ys) = mset xs" using assms by simp
  then have "distinct (map f (sort_key f ys))" "k \<in> set xs"
    using assms(1) k by (metis mset_eq_imp_distinct_iff mset_map, metis mset_eq_setD)
  with one k assms(1) show "filter (\<lambda>x. f k = f x) (sort_key f ys) = filter (\<lambda>x. f k = f x) xs" by simp
qed simp

lemma Step_same_units:
  assumes "same_units w w'"
  shows "Step w cmds = Step w' cmds"
proof -
  let ?a = "applyCommands (w\<lparr>wTick := wTick w + 1\<rparr>) cmds" and ?b = "applyCommands (w'\<lparr>wTick := wTick w' + 1\<rparr>) cmds"
  have "same_units (w\<lparr>wTick := wTick w + 1\<rparr>) (w'\<lparr>wTick := wTick w' + 1\<rparr>)"
    using assms by (simp add: same_units_def world_rest_def)
  then have s: "same_units ?a ?b" by (rule same_units_applyCommands)
  have "sortUnitsByID ?a = sortUnitsByID ?b"
  proof (rule world_eqI)
    show "world_rest (sortUnitsByID ?a) = world_rest (sortUnitsByID ?b)"
      using s by (simp add: sortUnitsByID_def same_units_def)
    show "wUnits (sortUnitsByID ?a) = wUnits (sortUnitsByID ?b)"
      using s sort_key_perm [of uID "wUnits ?a" "wUnits ?b"]
      by (simp add: sortUnitsByID_def same_units_def sort_units_eq)
  qed
  then show ?thesis by (simp add: Step_def Let_def)
qed

section \<open>Properties\<close>

text \<open>Two units of different players, as the examples use them.\<close>

definition duel :: World where
  "duel = fst (SpawnUnit (fst (SpawnUnit (NewWorld 42 100 100) 0 (VInt 10 10) (FromInt 10) 32768))
     1 (VInt 90 10) (FromInt 10) 32768)"

lemma duel_eq:
  "duel = \<lparr>wTick = 0, wSeed = 42, wRand = \<lparr>rState = 42\<rparr>,
     wUnits = [\<lparr>uID = 1, uOwner = 0, uPos = \<lparr>vX = 655360, vY = 655360\<rparr>, uHP = 655360, uMaxHP = 655360,
         uSpeed = 32768, uState = 0, uTargetID = 0, uMoveTo = \<lparr>vX = 0, vY = 0\<rparr>\<rparr>,
       \<lparr>uID = 2, uOwner = 1, uPos = \<lparr>vX = 5898240, vY = 655360\<rparr>, uHP = 655360, uMaxHP = 655360,
         uSpeed = 32768, uState = 0, uTargetID = 0, uMoveTo = \<lparr>vX = 0, vY = 0\<rparr>\<rparr>],
     wNextID = 3, wMapSizeX = 6553600, wMapSizeY = 6553600\<rparr>"
  by code_simp

lemma duel_ok: "world_ok duel"
  by (simp add: duel_eq world_ok_def unit_ok_def in_range_def speed_ok_def)

text \<open>C13: a tick always returns from a well-formed world (unit ids unique and below the next id,
  units on the map, speeds within range): no division by zero, no index out of range. It keeps the
  world well-formed, advances the tick by one, leaves ids, owners, speeds, the map and the random
  generator alone, and leaves the surviving units alive and sorted by id.\<close>

theorem Step_total_invariant:
  assumes "world_ok w"
  shows "\<exists>w'. (Step w cmds :: 'e fault + World) = Inr w' \<and> world_ok w' \<and>
    wTick w' = wTick w + 1 \<and> world_static w' = world_static w \<and>
    sorted (map uID (wUnits w')) \<and> list_all (\<lambda>u. uState u \<noteq> UnitDead) (wUnits w') \<and>
    unit_static ` set (wUnits w') \<subseteq> unit_static ` set (wUnits w)"
  by (rule Step_ok [OF assms])

theorem Step_total_invariant_witness:
  "\<exists>w'. (Step duel [\<lparr>cPlayer = 0, cOp = CmdAttack, cUnitID = 1, cTargetPos = VInt 0 0, cTargetID = 2\<rparr>] ::
      unit fault + World) = Inr w' \<and> world_ok w' \<and>
    wTick w' = wTick duel + 1 \<and> world_static w' = world_static duel \<and>
    sorted (map uID (wUnits w')) \<and> list_all (\<lambda>u. uState u \<noteq> UnitDead) (wUnits w') \<and>
    unit_static ` set (wUnits w') \<subseteq> unit_static ` set (wUnits duel)"
  by (rule Step_total_invariant [OF duel_ok])

text \<open>C34: a player's commands change only that player's units: whatever the commands name, a unit
  of another owner is left exactly as it was.\<close>

theorem commands_change_own_units:
  assumes "\<forall>c \<in> set cs. cPlayer c = p" and "i < length (wUnits w)"
  shows "length (wUnits (applyCommands w cs)) = length (wUnits w) \<and>
    uOwner (wUnits (applyCommands w cs) ! i) = uOwner (wUnits w ! i) \<and>
    (uOwner (wUnits w ! i) = p \<or> wUnits (applyCommands w cs) ! i = wUnits w ! i)"
  using applyCommands_foreign [OF assms(1), of w] assms(2)
  by (auto simp: same_foreign_def list_all2_conv_all_nth)

theorem commands_change_own_units_witness:
  "let cs = [\<lparr>cPlayer = 0, cOp = CmdMove, cUnitID = 2, cTargetPos = VInt 5 5, cTargetID = 0\<rparr>]
   in length (wUnits (applyCommands duel cs)) = length (wUnits duel) \<and>
      uOwner (wUnits (applyCommands duel cs) ! 1) = uOwner (wUnits duel ! 1) \<and>
      (uOwner (wUnits duel ! 1) = 0 \<or> wUnits (applyCommands duel cs) ! 1 = wUnits duel ! 1)"
  unfolding Let_def by (rule commands_change_own_units) (simp_all add: duel_eq)

text \<open>The in-place insertion sort of the unit slice is the stable sort by id.\<close>

theorem sortUnitsByID_is_stable_sort:
  "wUnits (sortUnitsByID w) = sort_key uID (wUnits w) \<and>
   mset (wUnits (sortUnitsByID w)) = mset (wUnits w) \<and>
   filter (\<lambda>u. uID u = k) (wUnits (sortUnitsByID w)) = filter (\<lambda>u. uID u = k) (wUnits w)"
  using sort_key_stable [of uID k "wUnits w"]
  by (simp add: sortUnitsByID_def sort_units_eq eq_commute [of k])

text \<open>C14: the result of a tick does not depend on the order in which the units are stored, so a
  peer that keeps the same units in another order computes the same next world.\<close>

theorem Step_order_independent:
  assumes "same_units w w'"
  shows "Step w cmds = Step w' cmds"
  by (rule Step_same_units [OF assms])

theorem Step_order_independent_witness:
  "Step duel [] = Step (duel\<lparr>wUnits := rev (wUnits duel)\<rparr>) []"
  by (rule Step_order_independent) (simp add: same_units_def duel_eq world_rest_def)

text \<open>The random generator is a bijection of its state at every draw (two generators that draw
  the same number are in the same state), and \<open>Intn\<close> stays in its range.\<close>

theorem random_draws:
  assumes "0 <s n"
  shows "(fst (Next r) = fst (Next r') \<longleftrightarrow> r = r') \<and>
    0 \<le> sint (fst (Intn r n)) \<and> sint (fst (Intn r n)) < sint n"
  using Next_inj [of r r'] Intn_range [OF assms, of r] by auto

theorem random_draws_witness:
  "(fst (Next (NewRand 1)) = fst (Next (NewRand 2)) \<longleftrightarrow> NewRand 1 = NewRand 2) \<and>
    0 \<le> sint (fst (Intn (NewRand 1) 6)) \<and> sint (fst (Intn (NewRand 1) 6)) < sint (6 :: i64)"
  by (rule random_draws) (simp add: word_sless_alt)

end
