(* ===== verification/Snapshot.thy ===== *)
theory Snapshot
  imports World
begin

text \<open>
  \<^verbatim>\<open>internal/sim/snapshot.go\<close> and \<^verbatim>\<open>internal/sim/hash.go\<close>: the byte form
  of a world and its 64-bit FNV-1a hash. The lemmas give the snapshot round trip, panic freedom
  of \<^verbatim>\<open>Unmarshal\<close> on arbitrary bytes, and what the hash can and cannot tell apart.
\<close>

section \<open>Snapshots\<close>

datatype snapshot_error = SnapshotTooShort | SnapshotTruncated

definition headerSize :: nat where "headerSize = 4 + 8 + 8 + 4 + 4 + 4 + 4"
definition unitSize :: nat where "unitSize = 38"

definition marshalUnit :: "Unit \<Rightarrow> byte list" where
  "marshalUnit u =
     put_u32 (uID u) @ [uOwner u] @ [uState u] @ put_u32 (uHP u) @ put_u32 (uMaxHP u)
       @ put_u32 (uSpeed u) @ put_u32 (vX (uPos u)) @ put_u32 (vY (uPos u))
       @ put_u32 (uTargetID u) @ put_u32 (vX (uMoveTo u)) @ put_u32 (vY (uMoveTo u))"

definition Marshal :: "World \<Rightarrow> byte list" where
  "Marshal w =
     put_u32 (wTick w) @ put_u64 (wSeed w) @ put_u64 (rState (wRand w)) @ put_u32 (wNextID w)
       @ put_u32 (wMapSizeX w) @ put_u32 (wMapSizeY w) @ put_u32 (of_nat (length (wUnits w)))
       @ concat (map marshalUnit (wUnits w))"

definition unmarshalUnit :: "byte list \<Rightarrow> snapshot_error fault + Unit" where
  "unmarshalUnit d =
     and_then (u32_at d 0) (\<lambda>ident.
     and_then (byte_at d 4) (\<lambda>owner.
     and_then (byte_at d 5) (\<lambda>st.
     and_then (u32_at d 6) (\<lambda>hp.
     and_then (u32_at d 10) (\<lambda>maxhp.
     and_then (u32_at d 14) (\<lambda>speed.
     and_then (u32_at d 18) (\<lambda>px.
     and_then (u32_at d 22) (\<lambda>py.
     and_then (u32_at d 26) (\<lambda>target.
     and_then (u32_at d 30) (\<lambda>mx.
     and_then (u32_at d 34) (\<lambda>my.
     Inr \<lparr>uID = ident, uOwner = owner, uPos = \<lparr>vX = px, vY = py\<rparr>, uHP = hp, uMaxHP = maxhp,
          uSpeed = speed, uState = st, uTargetID = target, uMoveTo = \<lparr>vX = mx, vY = my\<rparr>\<rparr>)))))))))))"

definition Unmarshal :: "byte list \<Rightarrow> snapshot_error fault + World" where
  "Unmarshal d =
     (if length d < 36 then Inl (Err SnapshotTooShort)
      else and_then (u32_at d 0) (\<lambda>tick.
           and_then (u64_at d 4) (\<lambda>seed.
           and_then (u64_at d 12) (\<lambda>randState.
           and_then (u32_at d 20) (\<lambda>nextID.
           and_then (u32_at d 24) (\<lambda>mapW.
           and_then (u32_at d 28) (\<lambda>mapH.
           and_then (u32_at d 32) (\<lambda>unitCount.
           if length d < 36 + unat unitCount * unitSize then Inl (Err SnapshotTruncated)
           else and_then (read_seq unitSize unmarshalUnit (unat unitCount) (drop 36 d)) (\<lambda>us.
                Inr \<lparr>wTick = tick, wSeed = seed, wRand = \<lparr>rState = randState\<rparr>, wUnits = us,
                     wNextID = nextID, wMapSizeX = mapW, wMapSizeY = mapH\<rparr>)))))))))"

lemma unitSize_simp [simp]: "unitSize = 38" by (simp add: unitSize_def)

lemma take_38_fields:
  assumes "38 \<le> length (d :: byte list)"
  shows "take 38 d = take 4 d @ [d ! 4] @ [d ! 5] @ take 4 (drop 6 d) @ take 4 (drop 10 d)
    @ take 4 (drop 14 d) @ take 4 (drop 18 d) @ take 4 (drop 22 d) @ take 4 (drop 26 d)
    @ take 4 (drop 30 d) @ take 4 (drop 34 d)"
proof -
  have "take 38 d = take (4 + (Suc 0 + (Suc 0 + (4 + (4 + (4 + (4 + (4 + (4 + (4 + 4)))))))))) d" by simp
  also have "\<dots> = take 4 d @ take (Suc 0) (drop 4 d) @ take (Suc 0) (drop 5 d) @ take 4 (drop 6 d)
      @ take 4 (drop 10 d) @ take 4 (drop 14 d) @ take 4 (drop 18 d) @ take 4 (drop 22 d)
      @ take 4 (drop 26 d) @ take 4 (drop 30 d) @ take 4 (drop 34 d)"
    by (simp only: take_add drop_drop) simp
  finally show ?thesis using assms by (simp add: take_Suc hd_drop_conv_nth)
qed

interpretation snapshot_unit: record_codec 38 marshalUnit unmarshalUnit
proof unfold_locales
  fix u rest d
  show "length (marshalUnit u) = 38" by (simp add: marshalUnit_def)
  show "unmarshalUnit (marshalUnit u @ rest) = Inr u"
    by (simp add: marshalUnit_def unmarshalUnit_def go_simps)
  show "38 \<le> length d \<Longrightarrow> \<exists>u. unmarshalUnit d = Inr u \<and> marshalUnit u = take 38 d"
    by (simp add: unmarshalUnit_def marshalUnit_def read_ok le_bytes_word take_38_fields)
qed

lemma length_Marshal: "length (Marshal w) = headerSize + length (wUnits w) * unitSize"
  by (simp add: Marshal_def headerSize_def snapshot_unit.length_concat_enc)

definition unit_count_ok :: "World \<Rightarrow> bool" where
  "unit_count_ok w \<longleftrightarrow> length (wUnits w) < 2 ^ 32"

lemma unat_of_nat_32: "n < 4294967296 \<Longrightarrow> unat (of_nat n :: 32 word) = n"
  by (simp add: unat_of_nat)

lemma Unmarshal_Marshal_rest:
  assumes "unit_count_ok w"
  shows "Unmarshal (Marshal w @ rest) = Inr w"
  using assms snapshot_unit.read_seq_enc [OF refl, of "wUnits w" rest]
    snapshot_unit.length_concat_enc [of "wUnits w"]
  by (simp add: Unmarshal_def Marshal_def unit_count_ok_def unat_of_nat_32 go_simps)

lemma Unmarshal_total: "no_panic (Unmarshal d)"
proof -
  have "no_panic (read_seq 38 unmarshalUnit n e)" if "n * 38 \<le> length e" for n e
    using snapshot_unit.read_seq_total [OF that] by auto
  then show ?thesis
    by (auto simp: Unmarshal_def intro!: no_panic_and_then)
qed

text \<open>Whatever decodes is the snapshot of what it decodes to, up to trailing bytes.\<close>

lemma Unmarshal_Inr_Marshal:
  assumes "Unmarshal d = Inr w"
  shows "unit_count_ok w" and "take (headerSize + length (wUnits w) * unitSize) d = Marshal w"
proof -
  have len: "36 \<le> length d" using assms by (auto simp: Unmarshal_def split: if_splits)
  define n where "n = unat (le_word (take 4 (drop 32 d)) :: u32)"
  have n: "n * 38 \<le> length (drop 36 d)"
    using assms len by (auto simp: Unmarshal_def read_ok n_def split: if_splits)
  from snapshot_unit.read_seq_total [OF n] obtain us where
    us: "read_seq 38 unmarshalUnit n (drop 36 d) = Inr us" "length us = n"
      "concat (map marshalUnit us) = take (n * 38) (drop 36 d)" by blast
  have w: "w = \<lparr>wTick = le_word (take 4 d), wSeed = le_word (take 8 (drop 4 d)),
      wRand = \<lparr>rState = le_word (take 8 (drop 12 d))\<rparr>, wUnits = us,
      wNextID = le_word (take 4 (drop 20 d)), wMapSizeX = le_word (take 4 (drop 24 d)),
      wMapSizeY = le_word (take 4 (drop 28 d))\<rparr>"
    using assms len n us by (auto simp: Unmarshal_def read_ok n_def split: if_splits)
  have c: "of_nat (length us) = (le_word (take 4 (drop 32 d)) :: u32)"
    by (simp add: us(2) n_def)
  show "unit_count_ok w" using unsigned_less [of "le_word (take 4 (drop 32 d)) :: u32"]
    by (simp add: unit_count_ok_def w us(2) n_def)
  have "take (36 + n * 38) d = take (4 + (8 + (8 + (4 + (4 + (4 + (4 + n * 38))))))) d" by simp
  also have "\<dots> = take 4 d @ take 8 (drop 4 d) @ take 8 (drop 12 d) @ take 4 (drop 20 d)
      @ take 4 (drop 24 d) @ take 4 (drop 28 d) @ take 4 (drop 32 d) @ take (n * 38) (drop 36 d)"
    by (simp only: take_add drop_drop) simp
  also have "\<dots> = Marshal w" using len by (simp add: w Marshal_def c us(3) le_bytes_word)
  finally show "take (headerSize + length (wUnits w) * unitSize) d = Marshal w"
    by (simp add: headerSize_def w us(2))
qed

section \<open>The state hash\<close>

definition fnvMix :: "u64 \<Rightarrow> byte list \<Rightarrow> u64" where
  "fnvMix h d = foldl (\<lambda>h b. (h XOR ucast b) * 1099511628211) h d"

definition unit_hash_bytes :: "Unit \<Rightarrow> byte list" where
  "unit_hash_bytes u =
     put_u32 (uID u) @ [uOwner u] @ [uState u] @ put_u32 (uHP u) @ put_u32 (vX (uPos u))
       @ put_u32 (vY (uPos u)) @ put_u32 (uTargetID u)"

definition hashUnit :: "u64 \<Rightarrow> Unit \<Rightarrow> u64" where
  "hashUnit h u = fnvMix h (unit_hash_bytes u)"

definition Hash :: "World \<Rightarrow> u64" where
  "Hash w =
     (let h = 14695981039346656037;
          h = fnvMix h (put_u32 (wTick w));
          h = fnvMix h (put_u32 (of_nat (length (wUnits w))))
      in foldl hashUnit h (wUnits w))"

lemma fnvMix_append: "fnvMix h (xs @ ys) = fnvMix (fnvMix h xs) ys"
  by (simp add: fnvMix_def)

lemma fnvMix_Cons: "fnvMix h (x # xs) = fnvMix ((h XOR ucast x) * 1099511628211) xs"
  by (simp add: fnvMix_def)

lemma foldl_hashUnit: "foldl hashUnit h us = fnvMix h (concat (map unit_hash_bytes us))"
  by (induction us arbitrary: h) (simp_all add: hashUnit_def fnvMix_append, simp add: fnvMix_def)

text \<open>The hash is FNV-1a of one byte string.\<close>

definition hash_bytes :: "World \<Rightarrow> byte list" where
  "hash_bytes w =
     put_u32 (wTick w) @ put_u32 (of_nat (length (wUnits w)))
       @ concat (map unit_hash_bytes (wUnits w))"

lemma Hash_bytes: "Hash w = fnvMix 14695981039346656037 (hash_bytes w)"
  by (simp add: Hash_def hash_bytes_def fnvMix_append foldl_hashUnit)

lemma fnv_step_inj:
  assumes "(h XOR ucast (b :: byte)) * 1099511628211 = (h' XOR ucast b') * (1099511628211 :: u64)"
  shows "h XOR ucast b = h' XOR ucast b'"
proof -
  have m: "(1099511628211 :: u64) * 0xce965057aff6957b = 1" by simp
  show ?thesis by (rule mult_right_cancel_inverse [OF m assms])
qed

lemma xor_right_cancel: "a XOR c = b XOR c \<longleftrightarrow> a = (b :: 'a::len word)"
proof
  assume "a XOR c = b XOR c"
  then have "(a XOR c) XOR c = (b XOR c) XOR c" by simp
  then show "a = b" by (simp add: xor.assoc)
qed simp

lemma fnvMix_inj: "fnvMix h d = fnvMix h' d \<Longrightarrow> h = h'"
proof (induction d arbitrary: h h')
  case Nil
  then show ?case by (simp add: fnvMix_def)
next
  case (Cons b d)
  from Cons.IH [OF Cons.prems [unfolded fnvMix_Cons]] show ?case
    by (auto dest!: fnv_step_inj simp: xor_right_cancel)
qed

lemma ucast_byte_inj: "(ucast (a :: byte) :: u64) = ucast b \<longleftrightarrow> a = b"
proof
  assume "(ucast a :: u64) = ucast b"
  then have "(ucast (ucast a :: u64) :: byte) = ucast (ucast b :: u64)" by simp
  then show "a = b" by (simp add: ucast_up_ucast_id is_up)
qed simp

lemma fnvMix_one_byte:
  assumes "a \<noteq> b"
  shows "fnvMix h (xs @ a # ys) \<noteq> fnvMix h (xs @ b # ys)"
proof
  assume "fnvMix h (xs @ a # ys) = fnvMix h (xs @ b # ys)"
  then have "(fnvMix h xs XOR ucast a) * 1099511628211 = (fnvMix h xs XOR ucast b) * 1099511628211"
    by (simp add: fnvMix_append fnvMix_Cons fnvMix_inj)
  then have "fnvMix h xs XOR ucast a = fnvMix h xs XOR ucast b" by (rule fnv_step_inj)
  then have "ucast a XOR fnvMix h xs = ucast b XOR fnvMix h xs" by (simp only: xor.commute)
  then show False using assms by (simp add: xor_right_cancel ucast_byte_inj)
qed

section \<open>Properties\<close>

text \<open>C31: a marshalled world, whatever follows it, is unmarshalled to the same world.\<close>

theorem snapshot_roundtrip:
  assumes "length (wUnits w) < 2 ^ 32"
  shows "Unmarshal (Marshal w @ rest) = Inr w"
  using assms by (intro Unmarshal_Marshal_rest) (simp add: unit_count_ok_def)

theorem snapshot_roundtrip_witness: "Unmarshal (Marshal duel @ [1, 2, 3]) = Inr duel"
  by (rule snapshot_roundtrip) (simp add: duel_eq)

text \<open>Unmarshalling arbitrary bytes never panics, and what it accepts starts with the
  marshalled form of the world it returns: a world has one encoding.\<close>

theorem snapshot_canonical:
  "no_panic (Unmarshal d) \<and>
    (Unmarshal d = Inr w \<longrightarrow> (\<exists>rest. d = Marshal w @ rest))"
proof -
  have "\<exists>rest. d = Marshal w @ rest" if "Unmarshal d = Inr w"
    using Unmarshal_Inr_Marshal(2) [OF that] by (metis append_take_drop_id)
  then show ?thesis using Unmarshal_total by blast
qed

theorem snapshot_canonical_witness:
  "\<exists>rest. Marshal duel = Marshal duel @ rest"
  using snapshot_canonical [of "Marshal duel" duel] Unmarshal_Marshal_rest [of duel "[]"]
  by (simp add: unit_count_ok_def duel_eq)

text \<open>The hash tells apart any two worlds whose hashed fields (tick, number of units and, for
  each unit, id, owner, state, health, position and target) differ in a single byte.\<close>

theorem Hash_detects_byte:
  assumes "hash_bytes w = xs @ a # ys" and "hash_bytes w' = xs @ b # ys" and "a \<noteq> b"
  shows "Hash w \<noteq> Hash w'"
  using fnvMix_one_byte [OF assms(3)] assms(1,2) by (simp add: Hash_bytes)

lemma hash_bytes_tick: "hash_bytes (w\<lparr>wTick := t\<rparr>) =
    put_u32 t @ put_u32 (of_nat (length (wUnits w))) @ concat (map unit_hash_bytes (wUnits w))"
  by (simp add: hash_bytes_def)

lemma hash_bytes_duel:
  "hash_bytes duel = [] @ 0 # tl (hash_bytes duel)"
  "hash_bytes (duel\<lparr>wTick := 1\<rparr>) = [] @ 1 # tl (hash_bytes duel)"
  by code_simp+

theorem Hash_detects_byte_witness: "Hash duel \<noteq> Hash (duel\<lparr>wTick := 1\<rparr>)"
  by (rule Hash_detects_byte [OF hash_bytes_duel]) simp

definition heads_for :: "Vec2 \<Rightarrow> World" where
  "heads_for p = applyCommands duel
     [\<lparr>cPlayer = 0, cOp = CmdMove, cUnitID = 1, cTargetPos = p, cTargetID = 0\<rparr>]"

lemma heads_for_hash: "Hash (heads_for (VInt 50 10)) = Hash (heads_for (VInt 10 50))"
  by code_simp

lemma heads_for_step:
  "(case (Step (heads_for (VInt 50 10)) [] :: unit fault + World, Step (heads_for (VInt 10 50)) [] :: unit fault + World) of
     (Inr w1, Inr w2) \<Rightarrow> Hash w1 \<noteq> Hash w2 | _ \<Rightarrow> False)"
  by code_simp

text \<open>C32: the hash sees nothing else of the world: seed, random generator, next id, map size, and the
  units' speed, full health and destination. Two worlds whose moving unit heads for different places
  have the same hash, and different hashes one tick later.\<close>

theorem Hash_ignores:
  "Hash (w\<lparr>wSeed := s, wRand := r, wNextID := n, wMapSizeX := mx, wMapSizeY := my,
     wUnits := map (\<lambda>u. u\<lparr>uMaxHP := f u, uSpeed := g u, uMoveTo := h u\<rparr>) (wUnits w)\<rparr>) = Hash w \<and>
   Hash (heads_for (VInt 50 10)) = Hash (heads_for (VInt 10 50)) \<and>
   (\<exists>w1 w2. Step (heads_for (VInt 50 10)) [] = (Inr w1 :: unit fault + World) \<and>
      Step (heads_for (VInt 10 50)) [] = (Inr w2 :: unit fault + World) \<and> Hash w1 \<noteq> Hash w2)"
proof (intro conjI)
  show "Hash (w\<lparr>wSeed := s, wRand := r, wNextID := n, wMapSizeX := mx, wMapSizeY := my,
     wUnits := map (\<lambda>u. u\<lparr>uMaxHP := f u, uSpeed := g u, uMoveTo := h u\<rparr>) (wUnits w)\<rparr>) = Hash w"
    by (simp add: Hash_bytes hash_bytes_def comp_def unit_hash_bytes_def [abs_def])
  show "\<exists>w1 w2. Step (heads_for (VInt 50 10)) [] = (Inr w1 :: unit fault + World) \<and>
      Step (heads_for (VInt 10 50)) [] = (Inr w2 :: unit fault + World) \<and> Hash w1 \<noteq> Hash w2"
    using heads_for_step by (auto split: sum.splits)
qed (rule heads_for_hash)

end
