(* ===== verification/Simulation.thy ===== *)
theory Simulation
  imports Snapshot
begin

text \<open>
  What the lockstep server, the replay tool and the clients rely on of \<^verbatim>\<open>internal/sim\<close>:
  a step that always returns, and a snapshot that loads to the same state. The consequences of
  determinism (equal commands give equal states and hashes; a state saved in the middle resumes)
  are proved once, in the locale, and hold of the simulation through its interpretation.
\<close>

locale simulation =
  fixes step :: "'w \<Rightarrow> 'c \<Rightarrow> 'e fault + 'w"
    and save :: "'w \<Rightarrow> 'b"
    and load :: "'b \<Rightarrow> 'f fault + 'w"
    and hash :: "'w \<Rightarrow> 'h"
    and ok :: "'w \<Rightarrow> bool"
  assumes step_total: "ok w \<Longrightarrow> \<exists>w'. step w c = Inr w' \<and> ok w'"
    and load_save: "ok w \<Longrightarrow> load (save w) = Inr w"
begin

fun run :: "'w \<Rightarrow> 'c list \<Rightarrow> 'e fault + 'w" where
  "run w [] = Inr w"
| "run w (c # cs) = and_then (step w c) (\<lambda>w. run w cs)"

text \<open>The hashes after each step.\<close>

fun trace :: "'w \<Rightarrow> 'c list \<Rightarrow> 'e fault + 'h list" where
  "trace w [] = Inr []"
| "trace w (c # cs) = and_then (step w c) (\<lambda>w. and_then (trace w cs) (\<lambda>hs. Inr (hash w # hs)))"

lemma run_append: "run w (cs @ ds) = and_then (run w cs) (\<lambda>w. run w ds)"
  by (induction cs arbitrary: w) (simp_all add: and_then_assoc)

lemma run_total: "ok w \<Longrightarrow> \<exists>w'. run w cs = Inr w' \<and> ok w'"
proof (induction cs arbitrary: w)
  case (Cons c cs)
  from step_total [OF Cons.prems, of c] obtain w1 where "step w c = Inr w1" "ok w1" by blast
  with Cons.IH [of w1] show ?case by auto
qed simp

lemma trace_total: "ok w \<Longrightarrow> \<exists>hs. trace w cs = Inr hs \<and> length hs = length cs"
proof (induction cs arbitrary: w)
  case (Cons c cs)
  from step_total [OF Cons.prems, of c] obtain w1 where "step w c = Inr w1" "ok w1" by blast
  with Cons.IH [of w1] show ?case by auto
qed simp

text \<open>Loading a snapshot taken after \<open>cs\<close> and running \<open>ds\<close> is running all of them.\<close>

lemma resume_snapshot:
  assumes "ok w" and "run w cs = Inr w1"
  shows "and_then (run w cs) (\<lambda>w. run w ds) = run w (cs @ ds)"
    and "load (save w1) = Inr w1"
  using assms run_total [OF assms(1), of cs] load_save by (auto simp: run_append)

end

section \<open>The simulation implements it\<close>

definition sim_ok :: "World \<Rightarrow> bool" where
  "sim_ok w \<longleftrightarrow> world_ok w \<and> unit_count_ok w"

lemma world_ok_count:
  assumes "world_ok w"
  shows "unit_count_ok w"
proof -
  let ?ids = "uID ` set (wUnits w)"
  have "?ids \<subseteq> {x. unat x < unat (wNextID w)}"
    using assms by (auto simp: world_ok_def list_all_iff word_less_nat_alt)
  then have "unat ` ?ids \<subseteq> {..<unat (wNextID w)}" by auto
  then have "card (unat ` ?ids) \<le> unat (wNextID w)"
    by (metis card_lessThan card_mono finite_lessThan)
  moreover have "card (unat ` ?ids) = card ?ids"
    by (intro card_image inj_onI) (simp flip: word_unat_eq_iff)
  moreover have "card ?ids = length (wUnits w)"
    using assms distinct_card [of "map uID (wUnits w)"] by (simp add: world_ok_def)
  ultimately have "length (wUnits w) \<le> unat (wNextID w)" by simp
  also have "\<dots> < 2 ^ 32" using unsigned_less [of "wNextID w", where ?'a = nat] by simp
  finally show ?thesis by (simp add: unit_count_ok_def)
qed

lemma sim_ok_iff: "sim_ok w \<longleftrightarrow> world_ok w"
  by (auto simp: sim_ok_def world_ok_count)

interpretation sim: simulation Step Marshal Unmarshal Hash sim_ok
proof unfold_locales
  show "sim_ok w \<Longrightarrow> \<exists>w'. Step w c = Inr w' \<and> sim_ok w'" for w c
    using Step_ok [of w c] by (auto simp: sim_ok_iff)
  show "sim_ok w \<Longrightarrow> Unmarshal (Marshal w) = Inr w" for w
    using Unmarshal_Marshal_rest [of w "[]"] by (simp add: sim_ok_def)
qed

end
