(* ===== verification/Replay.thy ===== *)
theory Replay
  imports Simulation Wire
begin

text \<open>
  \<^verbatim>\<open>internal/replay\<close> and \<^verbatim>\<open>cmd/replay-play\<close>: the replay file format,
  its writer and reader, and playback with hash verification. A file is a byte list; the writer's
  \<^verbatim>\<open>io.Writer\<close> is a byte list that grows when a write succeeds.
\<close>

datatype replay_error = ErrTruncated | ErrBadMagic | ErrDesync

definition Magic :: "byte list" where "Magic = [0x52, 0x50, 0x4C, 0x59, 0x31, 0]"

record Header =
  hdProtoVersion :: u16
  hdSeed :: u64
  hdTickRate :: u16
  hdStartTS :: i64
  hdPlayerCount :: u8
  hdMapW :: i32
  hdMapH :: i32
  hdSnapshot :: "byte list"

record TickRecord =
  trTick :: u32
  trCmds :: "Cmd list"
  trHash :: u64

definition cmdRecordSize :: nat where "cmdRecordSize = 22"

lemma cmdRecordSize_simp [simp]: "cmdRecordSize = 22" by (simp add: cmdRecordSize_def)

section \<open>The header\<close>

definition MarshalHeader :: "Header \<Rightarrow> byte list" where
  "MarshalHeader h =
     Magic @ put_u16 (hdProtoVersion h) @ put_u64 (hdSeed h) @ put_u16 (hdTickRate h)
       @ put_u64 (hdStartTS h) @ [hdPlayerCount h] @ put_u32 (hdMapW h) @ put_u32 (hdMapH h)
       @ put_u32 (of_nat (length (hdSnapshot h))) @ hdSnapshot h"

text \<open>The six comparisons short-circuit from the left; an index past the end would panic.\<close>

fun magic_mismatch :: "byte list \<Rightarrow> byte list \<Rightarrow> nat \<Rightarrow> 'e fault + bool" where
  "magic_mismatch [] d i = Inr False"
| "magic_mismatch (m # ms) d i =
     and_then (byte_at d i) (\<lambda>b. if b \<noteq> m then Inr True else magic_mismatch ms d (i + 1))"

definition UnmarshalHeader :: "byte list \<Rightarrow> replay_error fault + Header \<times> nat" where
  "UnmarshalHeader d =
     (if length d < 39 then Inl (Err ErrTruncated)
      else and_then (magic_mismatch Magic d 0) (\<lambda>bad.
           if bad then Inl (Err ErrBadMagic)
           else and_then (u16_at d 6) (\<lambda>ver.
                and_then (u64_at d 8) (\<lambda>seed.
                and_then (u16_at d 16) (\<lambda>rate.
                and_then (u64_at d 18) (\<lambda>ts.
                and_then (byte_at d 26) (\<lambda>players.
                and_then (u32_at d 27) (\<lambda>mapW.
                and_then (u32_at d 31) (\<lambda>mapH.
                and_then (u32_at d 35) (\<lambda>n.
                  let snapLen = unat (n :: u32); total = 39 + snapLen
                  in if length d < total then Inl (Err ErrTruncated)
                     else and_then (subslice d 39 total) (\<lambda>snap.
                          Inr (\<lparr>hdProtoVersion = ver, hdSeed = seed, hdTickRate = rate,
                                hdStartTS = ts, hdPlayerCount = players, hdMapW = mapW,
                                hdMapH = mapH, hdSnapshot = snap\<rparr>, total)))))))))) ))"

section \<open>Ticks\<close>

definition marshalTickCmd :: "Cmd \<Rightarrow> byte list" where
  "marshalTickCmd c =
     [cmPlayer c] @ [cmOp c] @ put_u32 (cmUnitID c) @ put_u32 (cmTargetX c)
       @ put_u32 (cmTargetY c) @ put_u32 (cmTargetID c) @ put_u32 (cmTick c)"

definition MarshalTick :: "TickRecord \<Rightarrow> byte list" where
  "MarshalTick tr =
     put_u32 (trTick tr) @ put_u16 (of_nat (length (trCmds tr)))
       @ concat (map marshalTickCmd (trCmds tr)) @ put_u64 (trHash tr)"

definition unmarshalTickCmd :: "byte list \<Rightarrow> replay_error fault + Cmd" where
  "unmarshalTickCmd d =
     and_then (byte_at d 0) (\<lambda>player.
     and_then (byte_at d 1) (\<lambda>opr.
     and_then (u32_at d 2) (\<lambda>unit.
     and_then (u32_at d 6) (\<lambda>tx.
     and_then (u32_at d 10) (\<lambda>ty.
     and_then (u32_at d 14) (\<lambda>target.
     and_then (u32_at d 18) (\<lambda>tick.
     Inr \<lparr>cmTick = tick, cmPlayer = player, cmOp = opr, cmUnitID = unit, cmTargetX = tx,
          cmTargetY = ty, cmTargetID = target\<rparr>)))))))"

definition UnmarshalTick :: "byte list \<Rightarrow> replay_error fault + TickRecord \<times> nat" where
  "UnmarshalTick d =
     (if length d < 6 then Inl (Err ErrTruncated)
      else and_then (u32_at d 0) (\<lambda>tick.
           and_then (u16_at d 4) (\<lambda>n.
             let cmdCount = unat (n :: u16); needed = 4 + 2 + cmdCount * cmdRecordSize + 8
             in if length d < needed then Inl (Err ErrTruncated)
                else and_then (read_seq cmdRecordSize unmarshalTickCmd cmdCount (drop 6 d)) (\<lambda>cmds.
                     and_then (u64_at d (6 + cmdCount * cmdRecordSize)) (\<lambda>hash.
                     Inr (\<lparr>trTick = tick, trCmds = cmds, trHash = hash\<rparr>, needed))))))"

section \<open>Writer and reader\<close>

record Writer =
  wrOut :: "byte list"
  wrWritten :: bool

definition NewWriter :: "byte list \<Rightarrow> Writer" where
  "NewWriter out = \<lparr>wrOut = out, wrWritten = False\<rparr>"

definition WriteHeader :: "bool \<Rightarrow> Header \<Rightarrow> Writer \<Rightarrow> bool \<times> Writer" where
  "WriteHeader ok h w =
     (ok, if ok then w\<lparr>wrOut := wrOut w @ MarshalHeader h, wrWritten := True\<rparr> else w)"

definition WriteTick :: "bool \<Rightarrow> u32 \<Rightarrow> Cmd list \<Rightarrow> u64 \<Rightarrow> Writer \<Rightarrow> bool \<times> Writer" where
  "WriteTick ok tick cmds hash w =
     (let tr = \<lparr>trTick = tick, trCmds = cmds, trHash = hash\<rparr>
      in (ok, if ok then w\<lparr>wrOut := wrOut w @ MarshalTick tr\<rparr> else w))"

record Reader =
  rdData :: "byte list"
  rdOffset :: nat
  rdHeader :: Header

definition NewReader :: "byte list \<Rightarrow> replay_error fault + Reader" where
  "NewReader d =
     and_then (UnmarshalHeader d) (\<lambda>(h, n). Inr \<lparr>rdData = d, rdOffset = n, rdHeader = h\<rparr>)"

definition NextTick :: "Reader \<Rightarrow> replay_error fault + TickRecord option \<times> Reader" where
  "NextTick r =
     (if length (rdData r) \<le> rdOffset r then Inr (None, r)
      else and_then (UnmarshalTick (drop (rdOffset r) (rdData r))) (\<lambda>(tr, n).
           Inr (Some tr, r\<lparr>rdOffset := rdOffset r + n\<rparr>)))"

text \<open>\<^verbatim>\<open>ReadAll\<close> returns the ticks read so far with the error that stopped it.\<close>

lemma UnmarshalTick_size: "UnmarshalTick d = Inr (tr, n) \<Longrightarrow> 14 \<le> n \<and> n \<le> length d"
  by (auto simp: UnmarshalTick_def and_then_eq_Inr Let_def split: if_splits)

function ReadAll :: "Reader \<Rightarrow> TickRecord list \<times> replay_error fault option \<times> Reader" where
  "ReadAll r =
     (case NextTick r of
        Inl e \<Rightarrow> ([], Some e, r)
      | Inr (None, r') \<Rightarrow> ([], None, r')
      | Inr (Some tr, r') \<Rightarrow> (case ReadAll r' of (ts, e, r'') \<Rightarrow> (tr # ts, e, r'')))"
  by pat_completeness auto
termination
proof (relation "measure (\<lambda>r. length (rdData r) - rdOffset r)", simp)
  fix r x and y :: "TickRecord option" and r' :: Reader and tr
  assume n: "NextTick r = Inr x" "(y, r') = x" "y = Some tr"
  then obtain k where "UnmarshalTick (drop (rdOffset r) (rdData r)) = Inr (tr, k)"
    "r' = r\<lparr>rdOffset := rdOffset r + k\<rparr>" "rdOffset r < length (rdData r)"
    by (auto simp: NextTick_def and_then_eq_Inr split: if_splits)
  with UnmarshalTick_size show "(r', r) \<in> measure (\<lambda>r. length (rdData r) - rdOffset r)" by fastforce
qed

declare ReadAll.simps [simp del]

section \<open>Playback\<close>

definition wireCmdToSimCmd :: "Cmd \<Rightarrow> SimCmd" where
  "wireCmdToSimCmd c =
     \<lparr>cPlayer = cmPlayer c, cOp = cmOp c, cUnitID = cmUnitID c,
      cTargetPos = V (FromRaw (cmTargetX c)) (FromRaw (cmTargetY c)), cTargetID = cmTargetID c\<rparr>"

definition wireCmdsToSimCmds :: "Cmd list \<Rightarrow> SimCmd list" where
  "wireCmdsToSimCmds cmds = (if length cmds = 0 then [] else map wireCmdToSimCmd cmds)"

text \<open>The verification loop of \<^verbatim>\<open>main\<close>: it counts the ticks whose hash differs.\<close>

fun play :: "bool \<Rightarrow> TickRecord list \<Rightarrow> World \<Rightarrow> 'e fault + nat \<times> World" where
  "play verify [] w = Inr (0, w)"
| "play verify (tr # ts) w =
     and_then (Step w (wireCmdsToSimCmds (trCmds tr))) (\<lambda>w1.
       and_then (play verify ts w1) (\<lambda>(n, w2).
         Inr ((if verify \<and> Hash w1 \<noteq> trHash tr then n + 1 else n), w2)))"

datatype play_error = ReadHeader replay_error | UnmarshalSnapshot snapshot_error | ReadTicks replay_error

primrec wrap_fault :: "('e \<Rightarrow> 'f) \<Rightarrow> 'e fault \<Rightarrow> 'f fault" where
  "wrap_fault f Panic = Panic"
| "wrap_fault f (Err e) = Err (f e)"

definition wrap_error :: "('e \<Rightarrow> 'f) \<Rightarrow> 'e fault + 'a \<Rightarrow> 'f fault + 'a" where
  "wrap_error f r = (case r of Inl e \<Rightarrow> Inl (wrap_fault f e) | Inr x \<Rightarrow> Inr x)"

text \<open>The result of \<^verbatim>\<open>replay-play\<close>: the number of desyncs and of ticks.\<close>

definition replay_play :: "bool \<Rightarrow> byte list \<Rightarrow> play_error fault + nat \<times> nat" where
  "replay_play verify d =
     and_then (wrap_error ReadHeader (NewReader d)) (\<lambda>reader.
     and_then (wrap_error UnmarshalSnapshot (Unmarshal (hdSnapshot (rdHeader reader)))) (\<lambda>world.
       case ReadAll reader of (ticks, err, reader') \<Rightarrow>
         (case err of
            Some e \<Rightarrow> Inl (wrap_fault ReadTicks e)
          | None \<Rightarrow> and_then (play verify ticks world) (\<lambda>(n, w). Inr (n, length ticks)))))"

section \<open>Round trips\<close>

lemma take_22_tick_fields:
  assumes "22 \<le> length (d :: byte list)"
  shows "take 22 d = [d ! 0] @ [d ! 1] @ take 4 (drop 2 d) @ take 4 (drop 6 d) @ take 4 (drop 10 d)
    @ take 4 (drop 14 d) @ take 4 (drop 18 d)"
proof -
  have "take 22 d = take (Suc 0 + (Suc 0 + (4 + (4 + (4 + (4 + 4)))))) d" by simp
  also have "\<dots> = take (Suc 0) d @ take (Suc 0) (drop 1 d) @ take 4 (drop 2 d) @ take 4 (drop 6 d)
      @ take 4 (drop 10 d) @ take 4 (drop 14 d) @ take 4 (drop 18 d)"
    by (simp only: take_add drop_drop) (simp add: numeral_2_eq_2)
  finally show ?thesis using assms hd_drop_conv_nth [of 0 d] hd_drop_conv_nth [of 1 d]
    by (cases d; cases "tl d") simp_all
qed

interpretation tick_cmd: record_codec 22 marshalTickCmd unmarshalTickCmd
proof unfold_locales
  fix c rest and d :: "byte list"
  show "length (marshalTickCmd c) = 22" by (simp add: marshalTickCmd_def)
  show "unmarshalTickCmd (marshalTickCmd c @ rest) = Inr c"
    by (simp add: marshalTickCmd_def unmarshalTickCmd_def go_simps)
  assume d: "22 \<le> length d"
  then have "d \<noteq> []" by auto
  with d show "\<exists>c. unmarshalTickCmd d = Inr c \<and> marshalTickCmd c = take 22 d"
    by (simp add: unmarshalTickCmd_def marshalTickCmd_def read_ok le_bytes_word take_22_tick_fields)
qed

lemma length_MarshalTick: "length (MarshalTick tr) = 14 + length (trCmds tr) * 22"
  by (simp add: MarshalTick_def tick_cmd.length_concat_enc)

lemma UnmarshalTick_Marshal_rest:
  assumes "length (trCmds tr) < 65536"
  shows "UnmarshalTick (MarshalTick tr @ rest) = Inr (tr, length (MarshalTick tr))"
proof -
  have u: "unat (of_nat (length (trCmds tr)) :: u16) = length (trCmds tr)"
    using assms by (simp add: unat_of_nat)
  have l: "length (concat (map marshalTickCmd (trCmds tr))) = length (trCmds tr) * 22"
    by (rule tick_cmd.length_concat_enc)
  show ?thesis
    using tick_cmd.read_seq_enc [OF refl, of "trCmds tr" "put_u64 (trHash tr) @ rest"]
    by (simp add: UnmarshalTick_def length_MarshalTick Let_def)
      (simp add: MarshalTick_def u l go_simps)
qed

lemma magic_mismatch_self [simp]: "magic_mismatch Magic (Magic @ rest) 0 = Inr False"
  by (simp add: Magic_def byte_at_Cons)

lemma length_Magic [simp]: "length Magic = 6" by (simp add: Magic_def)

lemma length_MarshalHeader: "length (MarshalHeader h) = 39 + length (hdSnapshot h)"
  by (simp add: MarshalHeader_def)

lemma UnmarshalHeader_Marshal_rest:
  assumes "length (hdSnapshot h) < 2 ^ 32"
  shows "UnmarshalHeader (MarshalHeader h @ rest) = Inr (h, length (MarshalHeader h))"
proof -
  have u: "unat (of_nat (length (hdSnapshot h)) :: u32) = length (hdSnapshot h)"
    using assms by (simp add: unat_of_nat_32)
  show ?thesis
    by (simp add: UnmarshalHeader_def length_MarshalHeader Let_def)
      (simp add: MarshalHeader_def u go_simps)
qed

text \<open>Arbitrary bytes never make a decoder panic.\<close>

lemma magic_mismatch_ok: "i + length ms \<le> length d \<Longrightarrow> no_panic (magic_mismatch ms d i)"
  by (induction ms arbitrary: i) (auto intro!: no_panic_and_then)

lemma UnmarshalHeader_no_panic: "no_panic (UnmarshalHeader d)"
  by (auto simp: UnmarshalHeader_def Let_def intro!: no_panic_and_then magic_mismatch_ok)

lemma tick_cmds_no_panic: "n * 22 \<le> length d \<Longrightarrow> no_panic (read_seq 22 unmarshalTickCmd n d)"
  using tick_cmd.read_seq_total [of n d] by auto

lemma UnmarshalTick_no_panic: "no_panic (UnmarshalTick d)"
  by (auto simp: UnmarshalTick_def Let_def intro!: no_panic_and_then tick_cmds_no_panic)

lemma NextTick_no_panic: "no_panic (NextTick r)"
  by (auto simp: NextTick_def UnmarshalTick_no_panic intro!: no_panic_and_then)

lemma ReadAll_no_panic: "fst (snd (ReadAll r)) \<noteq> Some Panic"
proof (induction r rule: ReadAll.induct)
  case (1 r)
  show ?case
  proof (cases "NextTick r")
    case (Inl e)
    with NextTick_no_panic [of r] show ?thesis by (subst ReadAll.simps) (auto simp: no_panic_iff)
  next
    case (Inr x)
    obtain y r' where x: "x = (y, r')" by fastforce
    show ?thesis
    proof (cases y)
      case None
      with Inr x show ?thesis by (subst ReadAll.simps) simp
    next
      case (Some tr)
      from "1.IH" [OF Inr x [symmetric] Some] Inr x Some show ?thesis
        by (subst ReadAll.simps) (auto split: prod.split)
    qed
  qed
qed

section \<open>Reading a file back\<close>

definition tick_size_ok :: "TickRecord \<Rightarrow> bool" where
  "tick_size_ok tr \<longleftrightarrow> length (trCmds tr) < 65536"

lemma NextTick_at:
  assumes "rdData r = pre @ MarshalTick tr @ rest" and "rdOffset r = length pre" and "tick_size_ok tr"
  shows "NextTick r = Inr (Some tr, r\<lparr>rdOffset := length (pre @ MarshalTick tr)\<rparr>)"
  using assms UnmarshalTick_Marshal_rest [of tr rest]
  by (simp add: NextTick_def tick_size_ok_def length_MarshalTick)

lemma ReadAll_ticks:
  assumes "rdData r = pre @ concat (map MarshalTick ts) @ rest" and "rdOffset r = length pre"
    and "list_all tick_size_ok ts"
  shows "ReadAll r =
    (case ReadAll (r\<lparr>rdOffset := length (pre @ concat (map MarshalTick ts))\<rparr>) of (us, e, r') \<Rightarrow> (ts @ us, e, r'))"
  using assms
proof (induction ts arbitrary: pre r)
  case Nil
  have "r\<lparr>rdOffset := length pre\<rparr> = r" using Nil.prems(2) by (metis Reader.surjective Reader.update_convs(2))
  then show ?case by (simp split: prod.split)
next
  case (Cons tr ts)
  let ?r = "r\<lparr>rdOffset := length (pre @ MarshalTick tr)\<rparr>"
  have n: "NextTick r = Inr (Some tr, ?r)" using Cons.prems by (intro NextTick_at) simp_all
  have "ReadAll ?r = (case ReadAll (?r\<lparr>rdOffset := length ((pre @ MarshalTick tr) @ concat (map MarshalTick ts))\<rparr>) of
      (us, e, r') \<Rightarrow> (ts @ us, e, r'))"
    using Cons.prems by (intro Cons.IH) simp_all
  then show ?case by (subst ReadAll.simps) (simp add: n split: prod.split)
qed

lemma ReadAll_end:
  assumes "rdOffset r = length (rdData r)"
  shows "ReadAll r = ([], None, r)"
  using assms by (subst ReadAll.simps) (simp add: NextTick_def)

lemma UnmarshalTick_cut:
  assumes "tick_size_ok tr" and "m < length (MarshalTick tr)"
  shows "UnmarshalTick (take m (MarshalTick tr)) = Inl (Err ErrTruncated)"
proof (cases "m < 6")
  case True
  then show ?thesis by (simp add: UnmarshalTick_def length_MarshalTick)
next
  case False
  have t: "take m (MarshalTick tr) = put_u32 (trTick tr) @ put_u16 (of_nat (length (trCmds tr)))
      @ take (m - 6) (concat (map marshalTickCmd (trCmds tr)) @ put_u64 (trHash tr))"
    using False by (simp add: MarshalTick_def)
  have u: "unat (of_nat (length (trCmds tr)) :: u16) = length (trCmds tr)"
    using assms(1) by (simp add: unat_of_nat tick_size_ok_def)
  define body where "body = take (m - 6) (concat (map marshalTickCmd (trCmds tr)) @ put_u64 (trHash tr))"
  have "length (take m (MarshalTick tr)) = m" using assms(2) by simp
  then have "\<not> 8 + length (trCmds tr) * 22 \<le> length body" "length body + 6 = m"
    using assms(2) unfolding t body_def [symmetric] length_MarshalTick by simp_all
  then show ?thesis
    unfolding t body_def [symmetric] by (simp add: UnmarshalTick_def Let_def go_simps u)
qed

lemma ReadAll_cut:
  assumes "rdData r = pre @ take m (MarshalTick tr)" and "rdOffset r = length pre"
    and "tick_size_ok tr" and "0 < m" and "m < length (MarshalTick tr)"
  shows "ReadAll r = ([], Some (Err ErrTruncated), r)"
proof -
  have "NextTick r = Inl (Err ErrTruncated)"
    using assms UnmarshalTick_cut [OF assms(3,5)] by (simp add: NextTick_def length_MarshalTick)
  then show ?thesis by (subst ReadAll.simps) simp
qed

section \<open>A faithful recording verifies\<close>

text \<open>
  What a recorder that calls \<^verbatim>\<open>WriteTick\<close> with the commands and the hash after each
  step writes, as the replay test does.
\<close>

fun record_game :: "World \<Rightarrow> (u32 \<times> Cmd list) list \<Rightarrow> 'e fault + TickRecord list" where
  "record_game w [] = Inr []"
| "record_game w ((tick, cmds) # fs) =
     and_then (Step w (wireCmdsToSimCmds cmds)) (\<lambda>w1.
       and_then (record_game w1 fs) (\<lambda>trs.
         Inr (\<lparr>trTick = tick, trCmds = cmds, trHash = Hash w1\<rparr> # trs)))"

definition write_replay :: "Header \<Rightarrow> TickRecord list \<Rightarrow> Writer \<Rightarrow> Writer" where
  "write_replay h trs w =
     foldl (\<lambda>w tr. snd (WriteTick True (trTick tr) (trCmds tr) (trHash tr) w)) (snd (WriteHeader True h w)) trs"

lemma write_replay_out:
  "wrOut (write_replay h trs w) = wrOut w @ MarshalHeader h @ concat (map MarshalTick trs)"
proof -
  have "wrOut (foldl (\<lambda>w tr. snd (WriteTick True (trTick tr) (trCmds tr) (trHash tr) w)) w trs) =
      wrOut w @ concat (map MarshalTick trs)" for w :: Writer
  proof (induction trs arbitrary: w)
    case (Cons tr trs)
    have "MarshalTick \<lparr>trTick = trTick tr, trCmds = trCmds tr, trHash = trHash tr\<rparr> = MarshalTick tr"
      by (simp add: MarshalTick_def)
    with Cons show ?case by (simp add: WriteTick_def)
  qed simp
  then show ?thesis by (simp add: write_replay_def WriteHeader_def)
qed

lemma ReadAll_file:
  assumes "length (hdSnapshot h) < 2 ^ 32" and "list_all tick_size_ok trs"
  shows "\<exists>r r'. NewReader (MarshalHeader h @ concat (map MarshalTick trs)) = Inr r \<and>
    rdHeader r = h \<and> ReadAll r = (trs, None, r')"
proof -
  let ?d = "MarshalHeader h @ concat (map MarshalTick trs)"
  let ?r = "\<lparr>rdData = ?d, rdOffset = length (MarshalHeader h), rdHeader = h\<rparr>"
  have "NewReader ?d = Inr ?r"
    using UnmarshalHeader_Marshal_rest [OF assms(1)] by (simp add: NewReader_def)
  moreover have "ReadAll ?r = (trs, None, ?r\<lparr>rdOffset := length ?d\<rparr>)"
    using ReadAll_ticks [of ?r "MarshalHeader h" trs "[]"] assms(2) by (simp add: ReadAll_end)
  ultimately show ?thesis by auto
qed

lemma record_game_ticks:
  "record_game w fs = Inr trs \<Longrightarrow> map (\<lambda>tr. (trTick tr, trCmds tr)) trs = fs"
  by (induction fs arbitrary: w trs) (auto simp: and_then_eq_Inr)

lemma play_recorded:
  "record_game w fs = (Inr trs :: 'e fault + _) \<Longrightarrow> \<exists>w'. play verify trs w = (Inr (0, w') :: 'e fault + _)"
  by (induction fs arbitrary: w trs) (fastforce simp: and_then_eq_Inr)+

text \<open>A recorded hash that differs from the replayed one is counted.\<close>

lemma play_count:
  "play True trs w = (Inr (n, w') :: 'e fault + _) \<Longrightarrow>
    (n = 0 \<longleftrightarrow> record_game w (map (\<lambda>tr. (trTick tr, trCmds tr)) trs) = (Inr trs :: 'e fault + _))"
proof (induction trs arbitrary: w n)
  case Nil
  then show ?case by simp
next
  case (Cons tr trs)
  from Cons.prems obtain w1 k where s: "Step w (wireCmdsToSimCmds (trCmds tr)) = (Inr w1 :: 'e fault + _)"
    and p: "play True trs w1 = (Inr (k, w') :: 'e fault + _)" and n: "n = (if Hash w1 \<noteq> trHash tr then k + 1 else k)"
    by (auto simp: and_then_eq_Inr split: if_splits)
  have e: "\<lparr>trTick = trTick tr, trCmds = trCmds tr, trHash = Hash w1\<rparr> = tr \<longleftrightarrow> Hash w1 = trHash tr"
    by (cases tr) simp
  show ?case using Cons.IH [OF p] s n e by (auto simp: and_then_eq_Inr)
qed

section \<open>Properties\<close>

text \<open>C20: a recorded game verifies: the file that the writer produces from a header with the world's
  snapshot and from the ticks with the commands and the hash after each is read back, replayed and
  reported without a desync, and every tick is replayed.\<close>

theorem recorded_replay_verifies:
  assumes "world_ok w" and "record_game w fs = (Inr trs :: play_error fault + TickRecord list)"
    and "\<forall>f \<in> set fs. length (snd f) < 65536" and "hdSnapshot h = Marshal w" and "length (Marshal w) < 2 ^ 32"
  shows "replay_play verify (wrOut (write_replay h trs (NewWriter []))) = Inr (0, length fs)"
proof -
  let ?d = "MarshalHeader h @ concat (map MarshalTick trs)"
  have t: "map (\<lambda>tr. (trTick tr, trCmds tr)) trs = fs" by (rule record_game_ticks [OF assms(2)])
  then have "list_all tick_size_ok trs" using assms(3) by (auto simp: tick_size_ok_def list_all_iff)
  with ReadAll_file [of h trs] assms(4,5) obtain r r' where
    r: "NewReader ?d = Inr r" "rdHeader r = h" "ReadAll r = (trs, None, r')" by auto
  have u: "Unmarshal (Marshal w) = Inr w" using assms(1) by (intro sim.load_save) (simp add: sim_ok_iff)
  obtain w' where p: "play verify trs w = (Inr (0, w') :: play_error fault + _)"
    using play_recorded [OF assms(2)] by blast
  have "length trs = length fs" using t by (metis length_map)
  then show ?thesis
    by (simp add: replay_play_def write_replay_out NewWriter_def r assms(4) u p wrap_error_def)
qed

definition game :: "(u32 \<times> Cmd list) list" where
  "game = [(1, [\<lparr>cmTick = 1, cmPlayer = 0, cmOp = 1, cmUnitID = 1, cmTargetX = 1310720, cmTargetY = 655360, cmTargetID = 0\<rparr>]),
     (2, [])]"

definition game_header :: Header where
  "game_header = \<lparr>hdProtoVersion = 1, hdSeed = 42, hdTickRate = 20, hdStartTS = 0, hdPlayerCount = 2,
     hdMapW = 100, hdMapH = 100, hdSnapshot = Marshal duel\<rparr>"

lemma record_game_total:
  "world_ok w \<Longrightarrow> \<exists>trs. (record_game w fs :: 'e fault + TickRecord list) = Inr trs"
proof (induction fs arbitrary: w)
  case (Cons f fs)
  obtain tick cmds where f: "f = (tick, cmds)" by fastforce
  from Step_ok [OF Cons.prems, of "wireCmdsToSimCmds cmds"] obtain w1 where
    "(Step w (wireCmdsToSimCmds cmds) :: 'e fault + World) = Inr w1" "world_ok w1" by blast
  with Cons.IH [of w1] show ?case by (auto simp: f)
qed simp

lemma length_duel: "length (Marshal duel) < 2 ^ 32"
  by (simp add: length_Marshal duel_eq headerSize_def unitSize_def)

theorem recorded_replay_verifies_witness:
  "\<exists>trs. replay_play True (wrOut (write_replay game_header trs (NewWriter []))) = Inr (0, 2)"
proof -
  obtain trs where t: "(record_game duel game :: play_error fault + _) = Inr trs"
    using record_game_total [OF duel_ok] by blast
  have l: "length game = 2" "\<forall>f \<in> set game. length (snd f) < 65536" by (simp_all add: game_def)
  from recorded_replay_verifies [OF duel_ok t l(2) _ length_duel, of game_header True]
  have "replay_play True (wrOut (write_replay game_header trs (NewWriter []))) = Inr (0, 2)"
    unfolding l(1) by (simp add: game_header_def)
  then show ?thesis by (rule exI)
qed

text \<open>C21: the verification accepts nothing else: it counts no desync exactly when every recorded hash is
  the hash of replaying the recorded commands.\<close>

theorem verification_exact:
  assumes "play True trs w = (Inr (n, w') :: 'e fault + nat \<times> World)"
  shows "n = 0 \<longleftrightarrow>
    record_game w (map (\<lambda>tr. (trTick tr, trCmds tr)) trs) = (Inr trs :: 'e fault + TickRecord list)"
  by (rule play_count [OF assms])

lemma play_wrong_hash:
  "\<exists>n w'. play True [\<lparr>trTick = 1, trCmds = [], trHash = 0\<rparr>] duel = (Inr (n, w') :: unit fault + nat \<times> World)"
  using Step_ok [OF duel_ok, of "[]", where 'e = unit] by (auto simp: wireCmdsToSimCmds_def)

theorem verification_exact_witness:
  "\<exists>n w'. play True [\<lparr>trTick = 1, trCmds = [], trHash = 0\<rparr>] duel = (Inr (n, w') :: unit fault + nat \<times> World) \<and>
    (n = 0 \<longleftrightarrow> record_game duel [(1, [])] = (Inr [\<lparr>trTick = 1, trCmds = [], trHash = 0\<rparr>] :: unit fault + TickRecord list))"
proof -
  obtain n w' where p: "play True [\<lparr>trTick = 1, trCmds = [], trHash = 0\<rparr>] duel = (Inr (n, w') :: unit fault + nat \<times> World)"
    using play_wrong_hash by blast
  from verification_exact [OF p] p show ?thesis by auto
qed

text \<open>C22: a file cut inside a tick gives the complete ticks before it and the truncation error; no file
  makes the reader panic.\<close>

theorem truncated_replay:
  assumes "length (hdSnapshot h) < 2 ^ 32" and "\<forall>x \<in> set (tr # ts). length (trCmds x) < 65536"
    and "0 < m" and "m < length (MarshalTick tr)"
    and "NewReader (MarshalHeader h @ concat (map MarshalTick ts) @ take m (MarshalTick tr)) = Inr r"
  shows "\<exists>r'. ReadAll r = (ts, Some (Err ErrTruncated), r')"
proof -
  let ?pre = "MarshalHeader h @ concat (map MarshalTick ts)" and ?cut = "take m (MarshalTick tr)"
  have r: "r = \<lparr>rdData = ?pre @ ?cut, rdOffset = length (MarshalHeader h), rdHeader = h\<rparr>"
    using assms(5) UnmarshalHeader_Marshal_rest [OF assms(1), of "concat (map MarshalTick ts) @ ?cut"]
    by (simp add: NewReader_def)
  have ok: "list_all tick_size_ok ts" "tick_size_ok tr"
    using assms(2) by (simp_all add: list_all_iff tick_size_ok_def)
  have "ReadAll (r\<lparr>rdOffset := length ?pre\<rparr>) = ([], Some (Err ErrTruncated), r\<lparr>rdOffset := length ?pre\<rparr>)"
    using ok(2) assms(3,4) by (intro ReadAll_cut [of _ ?pre]) (simp_all add: r)
  then show ?thesis using ReadAll_ticks [OF _ _ ok(1), of r "MarshalHeader h" ?cut] by (simp add: r)
qed

theorem truncated_replay_witness:
  "\<exists>r r'. NewReader (MarshalHeader game_header @ concat (map MarshalTick [\<lparr>trTick = 1, trCmds = [], trHash = 5\<rparr>])
      @ take 13 (MarshalTick \<lparr>trTick = 2, trCmds = [], trHash = 6\<rparr>)) = Inr r \<and>
    ReadAll r = ([\<lparr>trTick = 1, trCmds = [], trHash = 5\<rparr>], Some (Err ErrTruncated), r')"
proof -
  let ?t = "\<lparr>trTick = 1, trCmds = [], trHash = 5\<rparr>" and ?c = "take 13 (MarshalTick \<lparr>trTick = 2, trCmds = [], trHash = 6\<rparr>)"
  have l: "length (hdSnapshot game_header) < 2 ^ 32" using length_duel by (simp add: game_header_def)
  obtain r where r: "NewReader (MarshalHeader game_header @ concat (map MarshalTick [?t]) @ ?c) = Inr r"
    using UnmarshalHeader_Marshal_rest [OF l, of "concat (map MarshalTick [?t]) @ ?c"] by (simp add: NewReader_def)
  show ?thesis using truncated_replay [OF l _ _ _ r] r by (auto simp: length_MarshalTick)
qed

end
