(* ===== verification/Room.thy ===== *)
theory Room
  imports InputBuf Adaptive HashAgg Replay
begin

text \<open>
  \<^verbatim>\<open>internal/lockstep/room.go\<close> and \<^verbatim>\<open>reconnect.go\<close>: the lockstep
  room. One goroutine owns it, so an operation is a function from the room to the room; what it
  sends is a list of connections (pointers) and payloads. The clock and the writer's error are
  arguments. The lemmas give the tick's exact effect, its invariant and the frame history.
\<close>

section \<open>The room\<close>

record RoomConfig =
  rcRoomID :: gostring
  rcSeed :: u64
  rcMapW :: i32
  rcMapH :: i32
  rcTickRate :: int
  rcInitialN :: u8
  rcMinN :: u8
  rcMaxN :: u8
  rcPlayerCount :: int

record PlayerSlot =
  psPlayerID :: u8
  psConn :: "nat option"
  psJoined :: bool

record limboSlot =
  lmPlayerID :: u8
  lmDisconnAt :: int
  lmResumeToken :: "byte list"

record RoomMsg =
  rgPlayerID :: u8
  rgType :: MsgType
  rgData :: WireMsg

record Room =
  rmCfg :: RoomConfig
  rmWorld :: World
  rmInputBuf :: InputBuf
  rmHashAgg :: HashAgg
  rmAdaptiveN :: AdaptiveN
  rmPlayers :: "PlayerSlot option list"
  rmTick :: u32
  rmTickInterval :: int
  rmInbox :: "RoomMsg list"
  rmFrameHistory :: "FrameBundle list"
  rmMaxHistory :: nat
  rmLimbo :: "limboSlot list"
  rmReplayWriter :: "Writer option"

text \<open>The division by the tick rate and a negative slice length panic.\<close>

definition NewRoom :: "RoomConfig \<Rightarrow> 'e fault + Room" where
  "NewRoom cfg =
     (if rcPlayerCount cfg < 0 then Inl Panic
      else and_then (go_div Second (rcTickRate cfg)) (\<lambda>interval.
        Inr \<lparr>rmCfg = cfg, rmWorld = NewWorld (rcSeed cfg) (rcMapW cfg) (rcMapH cfg),
             rmInputBuf = NewInputBuf, rmHashAgg = NewHashAgg 100 (rcPlayerCount cfg),
             rmAdaptiveN = NewAdaptiveN (rcInitialN cfg) (rcMinN cfg) (rcMaxN cfg) (rcTickRate cfg),
             rmPlayers = replicate (nat (rcPlayerCount cfg)) None, rmTick = 0,
             rmTickInterval = interval, rmInbox = [], rmFrameHistory = [], rmMaxHistory = 200,
             rmLimbo = [], rmReplayWriter = None\<rparr>))"

fun free_slot :: "PlayerSlot option list \<Rightarrow> nat option" where
  "free_slot [] = None"
| "free_slot (None # ps) = Some 0"
| "free_slot (Some p # ps) = map_option Suc (free_slot ps)"

definition AddPlayer :: "nat \<Rightarrow> Room \<Rightarrow> (u8 \<times> bool) \<times> Room" where
  "AddPlayer conn r =
     (case free_slot (rmPlayers r) of
        None \<Rightarrow> ((0, False), r)
      | Some i \<Rightarrow>
          ((of_nat i, True),
           r\<lparr>rmPlayers := (rmPlayers r)[i := Some \<lparr>psPlayerID = of_nat i, psConn = Some conn, psJoined = True\<rparr>]\<rparr>))"

text \<open>\<^verbatim>\<open>FromFloat64(0.5)\<close> is the raw value 32768.\<close>

definition spawn_one :: "World \<Rightarrow> nat \<times> nat \<Rightarrow> World" where
  "spawn_one w pi =
     (let (pid, i) = pi;
          x = FromInt (of_nat (10 + pid * 80)); y = FromInt (of_nat (10 + i * 3))
      in fst (SpawnUnit w (of_nat pid) (V x y) (FromInt 10) 32768))"

definition SpawnInitialUnits :: "nat \<Rightarrow> Room \<Rightarrow> Room" where
  "SpawnInitialUnits unitsPerPlayer r =
     r\<lparr>rmWorld := foldl spawn_one (rmWorld r)
         (concat (map (\<lambda>pid. map (\<lambda>i. (pid, i)) [0..<unitsPerPlayer]) [0..<nat (rcPlayerCount (rmCfg r))]))\<rparr>"

definition SetReplayWriter :: "Writer \<Rightarrow> Room \<Rightarrow> Room" where
  "SetReplayWriter rw r = r\<lparr>rmReplayWriter := Some rw\<rparr>"

section \<open>Messages\<close>

text \<open>The three compare-and-swaps; the middle of the result is the sample used.\<close>

definition swap_if :: "bool \<Rightarrow> 'a \<times> 'a \<Rightarrow> 'a \<times> 'a" where
  "swap_if b xy = (if b then (snd xy, fst xy) else xy)"

definition median3 :: "u16 \<times> u16 \<times> u16 \<Rightarrow> u16" where
  "median3 s =
     (let (s0, s1, s2) = s;
          (s0, s1) = swap_if (s0 > s1) (s0, s1);
          (s1, s2) = swap_if (s1 > s2) (s1, s2);
          (s0, s1) = swap_if (s0 > s1) (s0, s1)
      in s1)"

text \<open>A failed type assertion on \<^verbatim>\<open>msg.Data\<close> panics; the payload of a decoded message
  always has the type its tag names.\<close>

definition handleMsg :: "RoomMsg \<Rightarrow> Room \<Rightarrow> 'e fault + Room" where
  "handleMsg msg r =
     (if rgType msg = MsgCmd then
        (case rgData msg of MCmd cmd \<Rightarrow> Inr (r\<lparr>rmInputBuf := ibAdd cmd (rmInputBuf r)\<rparr>) | _ \<Rightarrow> Inl Panic)
      else if rgType msg = MsgHashAck then
        (case rgData msg of
           MHashAck ha \<Rightarrow> Inr (r\<lparr>rmHashAgg := snd (Report (hkTick ha) (rgPlayerID msg) (hkHash ha) (rmHashAgg r))\<rparr>)
         | _ \<Rightarrow> Inl Panic)
      else if rgType msg = MsgResume then
        (case rgData msg of MResume resume \<Rightarrow> Inr r | _ \<Rightarrow> Inl Panic)
      else if rgType msg = MsgRTTReport then
        (case rgData msg of
           MRTTReport rr \<Rightarrow>
             (let rtt = uint (median3 (rrSamples rr)) * 1000000
              in Inr (r\<lparr>rmAdaptiveN := ReportRTT (rgPlayerID msg) rtt (rmAdaptiveN r)\<rparr>))
         | _ \<Rightarrow> Inl Panic)
      else Inr r)"

fun handle_all :: "RoomMsg list \<Rightarrow> Room \<Rightarrow> 'e fault + Room" where
  "handle_all [] r = Inr r"
| "handle_all (m # ms) r = and_then (handleMsg m r) (handle_all ms)"

definition drainInbox :: "Room \<Rightarrow> 'e fault + Room" where
  "drainInbox r = handle_all (rmInbox r) (r\<lparr>rmInbox := []\<rparr>)"

section \<open>The tick\<close>

definition push_frame :: "FrameBundle \<Rightarrow> Room \<Rightarrow> Room" where
  "push_frame fb r =
     (let h = (if length (rmFrameHistory r) \<ge> rmMaxHistory r then drop 1 (rmFrameHistory r)
               else rmFrameHistory r)
      in r\<lparr>rmFrameHistory := h @ [fb]\<rparr>)"

definition recipients :: "Room \<Rightarrow> nat list" where
  "recipients r =
     concat (map (\<lambda>p. case p of None \<Rightarrow> []
        | Some s \<Rightarrow> if \<not> psJoined s then [] else (case psConn s of None \<Rightarrow> [] | Some c \<Rightarrow> [c])) (rmPlayers r))"

text \<open>\<^verbatim>\<open>data, _ := wire.Encode(...)\<close>: on an error the data is nil.\<close>

definition encode_or_nil :: "WireMsg \<Rightarrow> byte list" where
  "encode_or_nil m = (case Encode m of Inl e \<Rightarrow> [] | Inr d \<Rightarrow> d)"

definition broadcast :: "WireMsg \<Rightarrow> Room \<Rightarrow> (nat \<times> byte list) list" where
  "broadcast m r = map (\<lambda>c. (c, encode_or_nil m)) (recipients r)"

definition LimboTimeout :: int where "LimboTimeout = 30 * Second"

definition CleanupLimbo :: "int \<Rightarrow> Room \<Rightarrow> Room" where
  "CleanupLimbo now r = r\<lparr>rmLimbo := filter (\<lambda>l. now - lmDisconnAt l < LimboTimeout) (rmLimbo r)\<rparr>"

definition seal_frame :: "Room \<Rightarrow> FrameBundle \<times> Room" where
  "seal_frame r =
     (let r = r\<lparr>rmTick := rmTick r + 1\<rparr>;
          (cmds, ib) = ibSeal (rmTick r) (rmInputBuf r);
          r = r\<lparr>rmInputBuf := ib\<rparr>;
          fb = \<lparr>fbTick = rmTick r, fbNCurrent = anCurrent (rmAdaptiveN r), fbCmds = cmds\<rparr>;
          r = push_frame fb r;
          r = r\<lparr>rmHashAgg := CreateSlot (rmTick r) (rmHashAgg r)\<rparr>;
          r = r\<lparr>rmHashAgg := snd (CheckTimeouts (rmTick r) 60 (rmHashAgg r))\<rparr>
      in (fb, r))"

definition seal_periodic :: "int \<Rightarrow> Room \<Rightarrow> 'e fault + (nat \<times> byte list) list \<times> Room" where
  "seal_periodic now r =
     (if rmTick r mod 20 \<noteq> 0 then Inr ([], r)
      else let r = CleanupLimbo now r
           in and_then (Recalculate (rmAdaptiveN r)) (\<lambda>((newN, changed), a).
                let r = r\<lparr>rmAdaptiveN := a\<rparr>
                in if changed
                   then Inr (broadcast (MNPub \<lparr>npEffectiveFromTick = rmTick r + ucast newN * 2, npN = newN\<rparr>) r, r)
                   else Inr ([], r)))"

definition seal_record :: "bool \<Rightarrow> Cmd list \<Rightarrow> Room \<Rightarrow> Room" where
  "seal_record writeOk cmds r =
     (case rmReplayWriter r of
        None \<Rightarrow> r
      | Some rw \<Rightarrow>
          r\<lparr>rmReplayWriter := Some (snd (WriteTick writeOk (rmTick r) cmds (Hash (rmWorld r)) rw))\<rparr>)"

definition sealTick :: "int \<Rightarrow> bool \<Rightarrow> Room \<Rightarrow> 'e fault + (nat \<times> byte list) list \<times> Room" where
  "sealTick now writeOk r =
     (case seal_frame r of (fb, r) \<Rightarrow>
        and_then (seal_periodic now r) (\<lambda>(pubs, r').
        and_then (Step (rmWorld r') (wireCmdsToSimCmds (fbCmds fb))) (\<lambda>w.
        Inr (broadcast (MFrameBundle fb) r @ pubs, seal_record writeOk (fbCmds fb) (r'\<lparr>rmWorld := w\<rparr>)))))"

definition FrameHistory :: "u32 \<Rightarrow> Room \<Rightarrow> FrameBundle list" where
  "FrameHistory fromTick r = filter (\<lambda>fb. fbTick fb > fromTick) (rmFrameHistory r)"

section \<open>Disconnection and resume\<close>

definition MaxIncrementalFrames :: int where "MaxIncrementalFrames = 100"

fun player_slot :: "PlayerSlot option list \<Rightarrow> u8 \<Rightarrow> nat option" where
  "player_slot [] pid = None"
| "player_slot (p # ps) pid =
     (if (case p of None \<Rightarrow> False | Some s \<Rightarrow> psPlayerID s = pid) then Some 0
      else map_option Suc (player_slot ps pid))"

definition HandleDisconnect :: "int \<Rightarrow> u8 \<Rightarrow> Room \<Rightarrow> Room" where
  "HandleDisconnect now playerID r =
     (case player_slot (rmPlayers r) playerID of
        None \<Rightarrow> r
      | Some i \<Rightarrow>
          r\<lparr>rmPlayers := (rmPlayers r)[i := map_option (\<lambda>s. s\<lparr>psConn := None, psJoined := False\<rparr>) (rmPlayers r ! i)],
            rmLimbo := rmLimbo r @
              [\<lparr>lmPlayerID = playerID, lmDisconnAt = now, lmResumeToken = replicate 16 0\<rparr>]\<rparr>)"

fun limbo_index :: "limboSlot list \<Rightarrow> u8 \<Rightarrow> nat option" where
  "limbo_index [] pid = None"
| "limbo_index (l # ls) pid = (if lmPlayerID l = pid then Some 0 else map_option Suc (limbo_index ls pid))"

definition HandleResume :: "Resume \<Rightarrow> nat \<Rightarrow> Room \<Rightarrow> Resync option \<times> Room" where
  "HandleResume resume conn r =
     (case limbo_index (rmLimbo r) (ucast (rsConnID resume)) of
        None \<Rightarrow> (None, r)
      | Some limboIdx \<Rightarrow>
          (let ls = rmLimbo r ! limboIdx;
               r = r\<lparr>rmLimbo := take limboIdx (rmLimbo r) @ drop (limboIdx + 1) (rmLimbo r)\<rparr>;
               r = (case player_slot (rmPlayers r) (lmPlayerID ls) of
                      None \<Rightarrow> r
                    | Some i \<Rightarrow> r\<lparr>rmPlayers := (rmPlayers r)[i :=
                        map_option (\<lambda>s. s\<lparr>psConn := Some conn, psJoined := True\<rparr>) (rmPlayers r ! i)]\<rparr>);
               lastExec = rsLastExecutedTick resume;
               behind = uint (rmTick r - lastExec)
           in (Some (if behind > MaxIncrementalFrames \<or> behind < 0
                     then \<lparr>ryHasSnapshot = True, rySnapshot = Marshal (rmWorld r), ryFrames = []\<rparr>
                     else \<lparr>ryHasSnapshot = False, rySnapshot = [], ryFrames = FrameHistory lastExec r\<rparr>), r)))"

section \<open>The frame history is a bounded log\<close>

interpretation history: bounded_log rmMaxHistory rmFrameHistory push_frame
  "\<lambda>r. 0 < rmMaxHistory r \<and> length (rmFrameHistory r) \<le> rmMaxHistory r"
  by unfold_locales (auto simp: push_frame_def Let_def last_n_def)

section \<open>The invariant\<close>

definition history_ok :: "u32 \<Rightarrow> FrameBundle list \<Rightarrow> bool" where
  "history_ok tick h \<longleftrightarrow>
     (\<forall>i < length h. fbTick (h ! i) + of_nat (length h - 1 - i) = tick) \<and>
     (\<forall>fb \<in> set h. \<forall>c \<in> set (fbCmds fb). cmTick c = fbTick fb)"

definition room_ok :: "Room \<Rightarrow> bool" where
  "room_ok r \<longleftrightarrow>
     world_ok (rmWorld r) \<and> wTick (rmWorld r) = rmTick r \<and> ib_ok (rmInputBuf r) \<and>
     hagg_ok (rmHashAgg r) \<and> rate_ok (rmAdaptiveN r) \<and>
     0 < rmMaxHistory r \<and> length (rmFrameHistory r) \<le> rmMaxHistory r \<and>
     history_ok (rmTick r) (rmFrameHistory r)"

lemma history_ok_push:
  assumes "history_ok t h" and "fbTick fb = t + 1" and "\<forall>c \<in> set (fbCmds fb). cmTick c = t + 1"
  shows "history_ok (t + 1) (h @ [fb])"
proof -
  have "fbTick ((h @ [fb]) ! i) + of_nat (length (h @ [fb]) - 1 - i) = t + 1"
    if "i < length (h @ [fb])" for i
  proof (cases "i = length h")
    case True
    then show ?thesis by (simp add: assms(2))
  next
    case False
    with that have i: "i < length h" by simp
    then have n: "length (h @ [fb]) - 1 - i = Suc (length h - 1 - i)" by simp
    have "fbTick ((h @ [fb]) ! i) + of_nat (length (h @ [fb]) - 1 - i) =
        fbTick (h ! i) + of_nat (length h - 1 - i) + 1"
      unfolding n using i by (simp add: nth_append add.commute add.left_commute)
    with i assms(1) show ?thesis by (simp add: history_ok_def)
  qed
  moreover have "\<forall>x \<in> set (h @ [fb]). \<forall>c \<in> set (fbCmds x). cmTick c = fbTick x"
    using assms by (auto simp: history_ok_def)
  ultimately show ?thesis by (simp only: history_ok_def) blast
qed

lemma history_ok_drop: "history_ok t h \<Longrightarrow> history_ok t (drop 1 h)"
proof -
  assume h: "history_ok t h"
  have "fbTick (drop 1 h ! i) + of_nat (length (drop 1 h) - 1 - i) = t" if "i < length (drop 1 h)" for i
  proof -
    have "Suc i < length h" using that by simp
    then have "fbTick (h ! Suc i) + of_nat (length h - 1 - Suc i) = t" using h unfolding history_ok_def by blast
    moreover have "length (drop 1 h) - 1 - i = length h - 1 - Suc i" by simp
    moreover have "drop 1 h ! i = h ! Suc i" using that by simp
    ultimately show ?thesis by (simp only:)
  qed
  with h show ?thesis by (auto simp: history_ok_def dest: in_set_dropD)
qed

section \<open>The effect of a tick\<close>

lemma push_frame_frame [simp]:
  "rmCfg (push_frame fb r) = rmCfg r" "rmWorld (push_frame fb r) = rmWorld r"
  "rmInputBuf (push_frame fb r) = rmInputBuf r" "rmHashAgg (push_frame fb r) = rmHashAgg r"
  "rmAdaptiveN (push_frame fb r) = rmAdaptiveN r" "rmPlayers (push_frame fb r) = rmPlayers r"
  "rmTick (push_frame fb r) = rmTick r" "rmMaxHistory (push_frame fb r) = rmMaxHistory r"
  "rmLimbo (push_frame fb r) = rmLimbo r" "rmReplayWriter (push_frame fb r) = rmReplayWriter r"
  "rmInbox (push_frame fb r) = rmInbox r" "rmTickInterval (push_frame fb r) = rmTickInterval r"
  by (simp_all add: push_frame_def Let_def)

definition next_frame :: "Room \<Rightarrow> FrameBundle" where
  "next_frame r = \<lparr>fbTick = rmTick r + 1, fbNCurrent = anCurrent (rmAdaptiveN r),
     fbCmds = bucket (rmInputBuf r) (rmTick r + 1)\<rparr>"

lemma seal_frame_eq:
  "seal_frame r = (next_frame r, push_frame (next_frame r)
     (r\<lparr>rmTick := rmTick r + 1, rmInputBuf := snd (ibSeal (rmTick r + 1) (rmInputBuf r)),
        rmHashAgg := snd (CheckTimeouts (rmTick r + 1) 60 (CreateSlot (rmTick r + 1) (rmHashAgg r)))\<rparr>))"
  by (simp add: seal_frame_def next_frame_def Let_def ibSeal_def push_frame_def)

lemma next_frame_ticks:
  "ib_ok (rmInputBuf r) \<Longrightarrow> c \<in> set (fbCmds (next_frame r)) \<Longrightarrow> cmTick c = rmTick r + 1"
  by (auto simp: next_frame_def dest: bucket_ticks)

lemma room_ok_seal_frame:
  assumes "room_ok r"
  shows "room_ok ((snd (seal_frame r))\<lparr>rmWorld := w\<rparr>) \<longleftrightarrow> world_ok w \<and> wTick w = rmTick r + 1"
proof -
  let ?h = "if length (rmFrameHistory r) \<ge> rmMaxHistory r then drop 1 (rmFrameHistory r) else rmFrameHistory r"
  have "history_ok (rmTick r) ?h" using assms history_ok_drop by (auto simp: room_ok_def)
  then have "history_ok (rmTick r + 1) (?h @ [next_frame r])"
    using assms next_frame_ticks [of r]
    by (intro history_ok_push) (auto simp: room_ok_def next_frame_def)
  moreover have "hagg_ok (snd (CheckTimeouts (rmTick r + 1) 60 (CreateSlot (rmTick r + 1) (rmHashAgg r))))"
    using assms by (intro hagg_ok_CheckTimeouts hagg_ok_CreateSlot) (simp add: room_ok_def)
  moreover have "ib_ok (snd (ibSeal (rmTick r + 1) (rmInputBuf r)))"
    using assms by (intro ib_ok_Seal) (simp add: room_ok_def)
  ultimately show ?thesis
    using assms by (auto simp: seal_frame_eq room_ok_def push_frame_def Let_def)
qed

text \<open>What the periodic work may touch: the limbo list and the input delay.\<close>

lemma seal_periodic_ok:
  assumes "rate_ok (rmAdaptiveN r)"
  shows "\<exists>pubs l a. (seal_periodic now r :: 'e fault + _) = Inr (pubs, r\<lparr>rmLimbo := l, rmAdaptiveN := a\<rparr>) \<and>
    rate_ok a"
proof (cases "rmTick r mod 20 \<noteq> 0")
  case True
  then have "(seal_periodic now r :: 'e fault + _) =
      Inr ([], r\<lparr>rmLimbo := rmLimbo r, rmAdaptiveN := rmAdaptiveN r\<rparr>)" by (simp add: seal_periodic_def)
  with assms show ?thesis by blast
next
  case False
  let ?r = "CleanupLimbo now r"
  have "\<exists>n ch a. (Recalculate (rmAdaptiveN r) :: 'e fault + _) = Inr ((n, ch), a) \<and> rate_ok a"
    by (rule Recalculate_total [OF assms])
  then obtain n ch a where "(Recalculate (rmAdaptiveN r) :: 'e fault + _) = Inr ((n, ch), a)" "rate_ok a"
    by blast
  then show ?thesis using False by (auto simp: seal_periodic_def Let_def CleanupLimbo_def)
qed

lemma seal_record_frame [simp]:
  "rmCfg (seal_record ok cs r) = rmCfg r" "rmWorld (seal_record ok cs r) = rmWorld r"
  "rmInputBuf (seal_record ok cs r) = rmInputBuf r" "rmHashAgg (seal_record ok cs r) = rmHashAgg r"
  "rmAdaptiveN (seal_record ok cs r) = rmAdaptiveN r" "rmPlayers (seal_record ok cs r) = rmPlayers r"
  "rmTick (seal_record ok cs r) = rmTick r" "rmMaxHistory (seal_record ok cs r) = rmMaxHistory r"
  "rmLimbo (seal_record ok cs r) = rmLimbo r" "rmFrameHistory (seal_record ok cs r) = rmFrameHistory r"
  "rmInbox (seal_record ok cs r) = rmInbox r" "rmTickInterval (seal_record ok cs r) = rmTickInterval r"
  by (simp_all add: seal_record_def split: option.split)

lemma room_ok_cong:
  "rmWorld r' = rmWorld r \<Longrightarrow> rmTick r' = rmTick r \<Longrightarrow> rmInputBuf r' = rmInputBuf r \<Longrightarrow>
    rmHashAgg r' = rmHashAgg r \<Longrightarrow> rmMaxHistory r' = rmMaxHistory r \<Longrightarrow>
    rmFrameHistory r' = rmFrameHistory r \<Longrightarrow> rate_ok (rmAdaptiveN r') \<Longrightarrow> room_ok r \<Longrightarrow> room_ok r'"
  by (simp add: room_ok_def)

lemma sealTick_ok:
  assumes "room_ok r"
  shows "\<exists>pubs r' w. (sealTick now writeOk r :: 'e fault + _) =
      Inr (broadcast (MFrameBundle (next_frame r)) r @ pubs, r') \<and> room_ok r' \<and>
    (Step (rmWorld r) (wireCmdsToSimCmds (fbCmds (next_frame r))) :: 'e fault + _) = Inr w \<and>
    rmWorld r' = w \<and> rmTick r' = rmTick r + 1 \<and>
    rmFrameHistory r' = last_n (rmMaxHistory r) (rmFrameHistory r @ [next_frame r]) \<and>
    rmInputBuf r' = snd (ibSeal (rmTick r + 1) (rmInputBuf r)) \<and> rmPlayers r' = rmPlayers r \<and>
    rmMaxHistory r' = rmMaxHistory r"
proof -
  define r1 where "r1 = snd (seal_frame r)"
  have sf: "seal_frame r = (next_frame r, r1)" by (simp add: r1_def seal_frame_eq)
  have f: "rmAdaptiveN r1 = rmAdaptiveN r" "rmWorld r1 = rmWorld r" "rmPlayers r1 = rmPlayers r"
    "rmTick r1 = rmTick r + 1" "rmMaxHistory r1 = rmMaxHistory r"
    "rmInputBuf r1 = snd (ibSeal (rmTick r + 1) (rmInputBuf r))"
    "rmFrameHistory r1 = last_n (rmMaxHistory r) (rmFrameHistory r @ [next_frame r])"
    using assms
    by (auto simp: r1_def seal_frame_eq room_ok_def push_frame_def Let_def last_n_def)
  have "rate_ok (rmAdaptiveN r1)" using assms by (simp add: f room_ok_def)
  from seal_periodic_ok [OF this, of now] obtain pubs l a where
    p: "(seal_periodic now r1 :: 'e fault + _) = Inr (pubs, r1\<lparr>rmLimbo := l, rmAdaptiveN := a\<rparr>)" "rate_ok a"
    by blast
  from Step_ok [of "rmWorld r" "wireCmdsToSimCmds (fbCmds (next_frame r))"] assms obtain w where
    w: "(Step (rmWorld r) (wireCmdsToSimCmds (fbCmds (next_frame r))) :: 'e fault + _) = Inr w"
      "world_ok w" "wTick w = rmTick r + 1" by (auto simp: room_ok_def)
  let ?r2 = "seal_record writeOk (fbCmds (next_frame r)) (r1\<lparr>rmLimbo := l, rmAdaptiveN := a, rmWorld := w\<rparr>)"
  have "room_ok (r1\<lparr>rmWorld := w\<rparr>)" using room_ok_seal_frame [OF assms] w by (simp add: r1_def)
  then have "room_ok ?r2" by (rule room_ok_cong [rotated -1]) (simp_all add: p)
  moreover have "(sealTick now writeOk r :: 'e fault + _) =
      Inr (broadcast (MFrameBundle (next_frame r)) r @ pubs, ?r2)"
    using p w by (simp add: sealTick_def sf f broadcast_def recipients_def)
  ultimately show ?thesis using w f by (intro exI [of _ pubs] exI [of _ ?r2] exI [of _ w]) simp
qed

section \<open>Messages\<close>

definition msg_ok :: "RoomMsg \<Rightarrow> bool" where
  "msg_ok msg \<longleftrightarrow> rgType msg = msg_type (rgData msg)"

lemma handleMsg_ok:
  assumes "room_ok r" and "msg_ok m"
  shows "\<exists>r'. (handleMsg m r :: 'e fault + _) = Inr r' \<and> room_ok r' \<and>
    rmWorld r' = rmWorld r \<and> rmTick r' = rmTick r \<and> rmFrameHistory r' = rmFrameHistory r \<and>
    rmMaxHistory r' = rmMaxHistory r \<and> rmInbox r' = rmInbox r \<and> rmPlayers r' = rmPlayers r"
proof -
  have "rate_ok (ReportRTT p x (rmAdaptiveN r))" for p x
    using assms by (simp add: room_ok_def ReportRTT_def rate_ok_def)
  then show ?thesis
    using assms ib_ok_Add hagg_ok_Report
    by (cases "rgData m")
      (auto simp: handleMsg_def msg_ok_def msg_type_defs room_ok_def Let_def)
qed

lemma handle_all_ok:
  assumes "room_ok r" and "list_all msg_ok ms"
  shows "\<exists>r'. (handle_all ms r :: 'e fault + _) = Inr r' \<and> room_ok r' \<and>
    rmWorld r' = rmWorld r \<and> rmTick r' = rmTick r \<and> rmFrameHistory r' = rmFrameHistory r \<and>
    rmMaxHistory r' = rmMaxHistory r \<and> rmInbox r' = rmInbox r \<and> rmPlayers r' = rmPlayers r"
  using assms
proof (induction ms arbitrary: r)
  case (Cons m ms)
  from handleMsg_ok [OF Cons.prems(1), of m] Cons.prems(2) obtain r1 where
    r1: "(handleMsg m r :: 'e fault + _) = Inr r1" "room_ok r1"
      "rmWorld r1 = rmWorld r" "rmTick r1 = rmTick r" "rmFrameHistory r1 = rmFrameHistory r"
      "rmMaxHistory r1 = rmMaxHistory r" "rmInbox r1 = rmInbox r" "rmPlayers r1 = rmPlayers r" by auto
  with Cons.IH [OF r1(2)] Cons.prems(2) show ?case by auto
qed simp

definition room_live :: "Room \<Rightarrow> bool" where
  "room_live r \<longleftrightarrow> room_ok r \<and> list_all msg_ok (rmInbox r)"

lemma drainInbox_ok:
  assumes "room_live r"
  shows "\<exists>r'. (drainInbox r :: 'e fault + _) = Inr r' \<and> room_live r' \<and>
    rmWorld r' = rmWorld r \<and> rmTick r' = rmTick r \<and> rmFrameHistory r' = rmFrameHistory r \<and>
    rmMaxHistory r' = rmMaxHistory r \<and> rmInbox r' = [] \<and> rmPlayers r' = rmPlayers r"
proof -
  have "room_ok (r\<lparr>rmInbox := []\<rparr>)" using assms by (simp add: room_live_def room_ok_def)
  from handle_all_ok [OF this, of "rmInbox r"] assms show ?thesis
    by (fastforce simp: room_live_def drainInbox_def)
qed

section \<open>The actor\<close>

text \<open>
  One step of the system around the room: a connection's goroutine enqueues a decoded message (the
  channel holds 1024), the loop handles a message that wakes it, the loop seals a tick, and the
  calls that other goroutines make. The middle argument is the list of frames sealed.
\<close>

inductive room_step :: "Room \<Rightarrow> FrameBundle list \<Rightarrow> Room \<Rightarrow> bool" where
  enqueue: "length (rmInbox r) < 1024 \<Longrightarrow> Decode d = Inr (t, m) \<Longrightarrow>
    room_step r [] (r\<lparr>rmInbox := rmInbox r @ [\<lparr>rgPlayerID = pid, rgType = t, rgData = m\<rparr>]\<rparr>)"
| wake: "rmInbox r = msg # ms \<Longrightarrow> handleMsg msg (r\<lparr>rmInbox := ms\<rparr>) = (Inr r1 :: unit fault + Room) \<Longrightarrow>
    drainInbox r1 = (Inr r2 :: unit fault + Room) \<Longrightarrow> room_step r [] r2"
| tick: "drainInbox r = (Inr r1 :: unit fault + Room) \<Longrightarrow>
    sealTick now writeOk r1 = (Inr (out, r2) :: unit fault + _) \<Longrightarrow> room_step r [next_frame r1] r2"
| join: "room_step r [] (snd (AddPlayer conn r))"
| leave: "room_step r [] (HandleDisconnect now pid r)"
| resume: "room_step r [] (snd (HandleResume msg conn r))"

inductive room_run :: "Room \<Rightarrow> FrameBundle list \<Rightarrow> Room \<Rightarrow> bool" for r where
  none: "room_run r [] r"
| more: "room_run r fs r' \<Longrightarrow> room_step r' gs r'' \<Longrightarrow> room_run r (fs @ gs) r''"

inductive_cases room_stepE: "room_step r fs r'"

definition frame_cmds :: "FrameBundle \<Rightarrow> SimCmd list" where
  "frame_cmds fb = wireCmdsToSimCmds (fbCmds fb)"

lemma roster_frame:
  "room_ok (snd (AddPlayer c r)) = room_ok r" "room_ok (HandleDisconnect now p r) = room_ok r"
  "room_ok (snd (HandleResume m c r)) = room_ok r"
  "rmInbox (snd (AddPlayer c r)) = rmInbox r" "rmInbox (HandleDisconnect now p r) = rmInbox r"
  "rmInbox (snd (HandleResume m c r)) = rmInbox r"
  "rmWorld (snd (AddPlayer c r)) = rmWorld r" "rmWorld (HandleDisconnect now p r) = rmWorld r"
  "rmWorld (snd (HandleResume m c r)) = rmWorld r"
  "rmTick (snd (AddPlayer c r)) = rmTick r" "rmTick (HandleDisconnect now p r) = rmTick r"
  "rmTick (snd (HandleResume m c r)) = rmTick r"
  "rmFrameHistory (snd (AddPlayer c r)) = rmFrameHistory r"
  "rmFrameHistory (HandleDisconnect now p r) = rmFrameHistory r"
  "rmFrameHistory (snd (HandleResume m c r)) = rmFrameHistory r"
  "rmMaxHistory (snd (AddPlayer c r)) = rmMaxHistory r"
  "rmMaxHistory (HandleDisconnect now p r) = rmMaxHistory r"
  "rmMaxHistory (snd (HandleResume m c r)) = rmMaxHistory r"
  by (simp_all add: AddPlayer_def HandleDisconnect_def HandleResume_def Let_def room_ok_def split: option.split)

text \<open>What one step does to the world, the tick and the history, by the frames it seals.\<close>

definition sealed_by :: "Room \<Rightarrow> FrameBundle list \<Rightarrow> Room \<Rightarrow> bool" where
  "sealed_by r fs r' \<longleftrightarrow>
     sim.run (rmWorld r) (map frame_cmds fs) = (Inr (rmWorld r') :: unit fault + World) \<and>
     map fbTick fs = map (\<lambda>i. rmTick r + 1 + of_nat i) [0..<length fs] \<and>
     rmTick r' = rmTick r + of_nat (length fs) \<and> rmMaxHistory r' = rmMaxHistory r \<and>
     rmFrameHistory r' = last_n (rmMaxHistory r) (rmFrameHistory r @ fs)"

lemma sealed_by_none:
  assumes "room_ok r" and "rmWorld r' = rmWorld r" and "rmTick r' = rmTick r"
    and "rmMaxHistory r' = rmMaxHistory r" and "rmFrameHistory r' = rmFrameHistory r"
  shows "sealed_by r [] r'"
  using assms by (simp add: sealed_by_def room_ok_def last_n_short)

lemma room_step_sealed:
  assumes "room_step r fs r'" and "room_live r"
  shows "room_live r' \<and> sealed_by r fs r'"
  using assms
proof (cases rule: room_step.cases)
  case (enqueue d t m pid)
  with assms(2) show ?thesis
    by (auto simp: room_live_def msg_ok_def Decode_msg_type room_ok_def intro!: sealed_by_none)
next
  case (wake msg ms r1)
  let ?r = "r\<lparr>rmInbox := ms\<rparr>"
  have ok: "room_ok ?r" "msg_ok msg" "list_all msg_ok ms" using assms(2) wake by (simp_all add: room_live_def room_ok_def)
  from handleMsg_ok [OF ok(1,2), where 'e = unit] wake(3) have
    r1: "room_ok r1" "rmWorld r1 = rmWorld r" "rmTick r1 = rmTick r" "rmFrameHistory r1 = rmFrameHistory r"
      "rmMaxHistory r1 = rmMaxHistory r" "rmInbox r1 = ms" by auto
  then have "room_live r1" using ok by (simp add: room_live_def)
  from drainInbox_ok [OF this, where 'e = unit] wake(4) r1 assms(2) show ?thesis
    unfolding wake(1) by (fastforce simp: room_live_def intro!: sealed_by_none)
next
  case (tick r1 now writeOk out)
  from drainInbox_ok [OF assms(2), where 'e = unit] tick(2) have
    r1: "room_live r1" "rmWorld r1 = rmWorld r" "rmTick r1 = rmTick r" "rmFrameHistory r1 = rmFrameHistory r"
      "rmMaxHistory r1 = rmMaxHistory r" "rmInbox r1 = []" by auto
  have inb: "rmInbox r' = rmInbox r1"
    using tick(3) by (auto simp: sealTick_def seal_frame_eq and_then_eq_Inr seal_periodic_def CleanupLimbo_def Let_def split: if_splits)
  from sealTick_ok [of r1 now writeOk, where 'e = unit] r1(1) tick(3) have
    s: "room_ok r'" "Step (rmWorld r1) (wireCmdsToSimCmds (fbCmds (next_frame r1))) = (Inr (rmWorld r') :: unit fault + _)"
      "rmTick r' = rmTick r1 + 1" "rmFrameHistory r' = last_n (rmMaxHistory r1) (rmFrameHistory r1 @ [next_frame r1])"
      "rmMaxHistory r' = rmMaxHistory r1" unfolding room_live_def by auto
  have "fbTick (next_frame r1) = rmTick r1 + 1" by (simp add: next_frame_def)
  with s r1 inb show ?thesis
    unfolding tick(1) by (simp add: room_live_def sealed_by_def frame_cmds_def)
qed (auto simp: room_live_def roster_frame intro!: sealed_by_none)

lemma sealed_by_trans:
  assumes "sealed_by r fs r'" and "sealed_by r' gs r''"
  shows "sealed_by r (fs @ gs) r''"
proof -
  have "map fbTick (fs @ gs) = map (\<lambda>i. rmTick r + 1 + of_nat i) [0..<length fs] @
      map (\<lambda>i. rmTick r + 1 + of_nat (length fs) + of_nat i) [0..<length gs]"
    using assms by (simp add: sealed_by_def add.commute add.left_commute)
  also have "\<dots> = map (\<lambda>i. rmTick r + 1 + of_nat i) [0..<length (fs @ gs)]"
    using map_upt_append [of "\<lambda>x. x" "rmTick r + 1" "length fs" "length gs"] by simp
  finally show ?thesis
    using assms by (simp add: sealed_by_def sim.run_append last_n_append add.assoc)
qed

lemma room_run_sealed: "room_run r fs r' \<Longrightarrow> room_live r \<Longrightarrow> room_live r' \<and> sealed_by r fs r'"
proof (induction rule: room_run.induct)
  case none
  then show ?case by (auto simp: room_live_def intro!: sealed_by_none)
next
  case (more fs r' gs r'')
  then show ?case using room_step_sealed sealed_by_trans by blast
qed

section \<open>Resume\<close>

text \<open>The frames a client that has executed \<open>k\<close> of them is sent.\<close>

lemma filter_later:
  assumes "k \<le> length fs" and "length fs < 2 ^ 32"
    and "map fbTick fs = map (\<lambda>i. 1 + of_nat i) [0..<length fs]"
  shows "filter (\<lambda>fb. fbTick fb > of_nat k) fs = drop k fs"
proof -
  have t: "fbTick (fs ! i) > of_nat k \<longleftrightarrow> k \<le> i" if "i < length fs" for i
  proof -
    have "fbTick (fs ! i) = map fbTick fs ! i" using that by simp
    also have "\<dots> = of_nat (Suc i)" unfolding assms(3) using that by simp
    finally have f: "fbTick (fs ! i) = of_nat (Suc i)" .
    have "unat (of_nat (Suc i) :: u32) = Suc i" "unat (of_nat k :: u32) = k"
      using that assms by (intro unat_of_nat_small; simp)+
    then show ?thesis unfolding f word_less_nat_alt by auto
  qed
  have "filter (\<lambda>fb. fbTick fb > of_nat k) (take k fs @ drop k fs) = [] @ drop k fs"
    unfolding filter_append
  proof (intro arg_cong2 [where f = "(@)"])
    show "filter (\<lambda>fb. fbTick fb > of_nat k) (take k fs) = []"
      using t assms(1) by (auto simp: filter_empty_conv in_set_conv_nth)
    show "filter (\<lambda>fb. fbTick fb > of_nat k) (drop k fs) = drop k fs"
      using t by (auto simp: filter_id_conv in_set_conv_nth)
  qed
  then show ?thesis by simp
qed

lemma filter_last_n:
  assumes "\<forall>x \<in> set (take (length fs - n) fs). \<not> P x"
  shows "filter P (last_n n fs) = filter P fs"
proof -
  have "filter P fs = filter P (take (length fs - n) fs) @ filter P (last_n n fs)"
    by (metis append_take_drop_id filter_append last_n_def)
  with assms show ?thesis by (simp add: filter_empty_conv)
qed

lemma FrameHistory_later:
  assumes "rmFrameHistory r = last_n n fs" and "length fs < 2 ^ 32" and "k \<le> length fs"
    and "length fs - k \<le> n" and "map fbTick fs = map (\<lambda>i. 1 + of_nat i) [0..<length fs]"
  shows "FrameHistory (of_nat k) r = drop k fs"
proof -
  have "filter (\<lambda>fb. fbTick fb > of_nat k) fs = drop k fs" using assms by (intro filter_later)
  moreover have "\<forall>x \<in> set (take (length fs - n) fs). \<not> fbTick x > of_nat k"
  proof
    fix x assume "x \<in> set (take (length fs - n) fs)"
    then obtain i where i: "i < length fs - n" "x = fs ! i" by (auto simp: in_set_conv_nth)
    then have "x \<in> set (take k fs)" using assms(4) by (auto simp: in_set_conv_nth intro!: exI [of _ i])
    show "\<not> fbTick x > of_nat k"
    proof
      assume "fbTick x > of_nat k"
      have "fbTick x = map fbTick fs ! i" using i by simp
      also have "\<dots> = of_nat (Suc i)" unfolding assms(5) using i(1) by (subst nth_map) simp_all
      finally have f: "fbTick x = of_nat (Suc i)" .
      have "unat (of_nat (Suc i) :: u32) = Suc i" "unat (of_nat k :: u32) = k"
        using i assms by (intro unat_of_nat_small; simp)+
      with \<open>fbTick x > of_nat k\<close> i assms(4) show False unfolding f word_less_nat_alt by auto
    qed
  qed
  ultimately show ?thesis unfolding FrameHistory_def assms(1) by (simp add: filter_last_n)
qed

lemma limbo_index_Some: "limbo_index ls p = Some i \<Longrightarrow> i < length ls \<and> lmPlayerID (ls ! i) = p"
  by (induction ls arbitrary: i) (auto split: if_splits)

lemma limbo_index_found: "limbo_index ls p \<noteq> None \<longleftrightarrow> (\<exists>l \<in> set ls. lmPlayerID l = p)"
  by (induction ls) auto

lemma player_slot_Some:
  "player_slot ps p = Some i \<Longrightarrow> i < length ps \<and> (\<exists>s. ps ! i = Some s \<and> psPlayerID s = p)"
  by (induction ps arbitrary: i) (auto split: if_splits option.splits)

text \<open>A player in limbo is answered, leaves limbo and has its seat back; the room is otherwise as it was.\<close>

definition reseat :: "u8 \<Rightarrow> nat \<Rightarrow> Room \<Rightarrow> PlayerSlot option list" where
  "reseat p conn r = (case player_slot (rmPlayers r) p of None \<Rightarrow> rmPlayers r
     | Some i \<Rightarrow> (rmPlayers r)[i := map_option (\<lambda>s. s\<lparr>psConn := Some conn, psJoined := True\<rparr>) (rmPlayers r ! i)])"

lemma HandleResume_some:
  assumes "limbo_index (rmLimbo r) (ucast (rsConnID msg)) = Some i"
  shows "HandleResume msg conn r =
    (Some (if 100 < uint (rmTick r - rsLastExecutedTick msg)
       then \<lparr>ryHasSnapshot = True, rySnapshot = Marshal (rmWorld r), ryFrames = []\<rparr>
       else \<lparr>ryHasSnapshot = False, rySnapshot = [], ryFrames = FrameHistory (rsLastExecutedTick msg) r\<rparr>),
     r\<lparr>rmLimbo := take i (rmLimbo r) @ drop (i + 1) (rmLimbo r), rmPlayers := reseat (ucast (rsConnID msg)) conn r\<rparr>)"
proof -
  have "\<not> uint (rmTick r - rsLastExecutedTick msg) < 0" by (simp add: not_less)
  with assms limbo_index_Some [OF assms] show ?thesis
    by (simp add: HandleResume_def Let_def MaxIncrementalFrames_def FrameHistory_def reseat_def split: option.split)
qed

lemma HandleResume_none:
  "limbo_index (rmLimbo r) (ucast (rsConnID msg)) = None \<Longrightarrow> HandleResume msg conn r = (None, r)"
  by (simp add: HandleResume_def)

text \<open>How far behind a player is that has executed the first \<open>k\<close> frames, and what it is sent.\<close>

lemma resume_answer:
  assumes run: "room_run r0 fs r" and live: "room_live r0" and new: "rmTick r0 = 0" "rmFrameHistory r0 = []"
    and h: "100 \<le> rmMaxHistory r0" and len: "length fs < 2 ^ 32"
    and k: "k \<le> length fs" "rsLastExecutedTick msg = of_nat k"
    and limbo: "\<exists>l \<in> set (rmLimbo r). lmPlayerID l = ucast (rsConnID msg)"
  shows "\<exists>rs r'. HandleResume msg conn r = (Some rs, r') \<and>
    (if 100 < length fs - k then ryHasSnapshot rs \<and> Unmarshal (rySnapshot rs) = Inr (rmWorld r)
     else \<not> ryHasSnapshot rs \<and> ryFrames rs = drop k fs) \<and>
    rmPlayers r' = reseat (ucast (rsConnID msg)) conn r \<and> length (rmLimbo r') < length (rmLimbo r) \<and>
    rmWorld r' = rmWorld r \<and> rmTick r' = rmTick r"
proof -
  from room_run_sealed [OF run live] have live': "room_live r" and s: "sealed_by r0 fs r" by auto
  have b: "100 < uint (rmTick r - rsLastExecutedTick msg) \<longleftrightarrow> 100 < length fs - k"
  proof -
    have "rmTick r - rsLastExecutedTick msg = of_nat (length fs - k)"
      using s k new(1) by (simp add: sealed_by_def of_nat_diff)
    moreover have "unat (of_nat (length fs - k) :: u32) = length fs - k"
      using len by (intro unat_of_nat_small) simp
    ultimately have "uint (rmTick r - rsLastExecutedTick msg) = int (length fs - k)" by (metis uint_nat)
    then show ?thesis by (simp only:) linarith
  qed
  from limbo obtain i where i: "limbo_index (rmLimbo r) (ucast (rsConnID msg)) = Some i"
    using limbo_index_found by blast
  have "sim_ok (rmWorld r)" using live' by (simp add: sim_ok_iff room_live_def room_ok_def)
  then have "Unmarshal (Marshal (rmWorld r)) = Inr (rmWorld r)" by (rule sim.load_save)
  moreover have "FrameHistory (of_nat k) r = drop k fs" if "\<not> 100 < length fs - k"
    using s new h that len k(1)
    by (intro FrameHistory_later [of r "rmMaxHistory r0"]) (simp_all add: sealed_by_def)
  ultimately show ?thesis
    using limbo_index_Some [OF i] unfolding HandleResume_some [OF i, unfolded b] by (auto simp: k(2))
qed

lemma missing_frames_suffice:
  assumes "room_run r0 fs r" and "room_live r0"
    and "sim.run (rmWorld r0) (map frame_cmds (take k fs)) = (Inr w :: unit fault + World)"
  shows "sim.run w (map frame_cmds (drop k fs)) = (Inr (rmWorld r) :: unit fault + World)"
proof -
  from room_run_sealed [OF assms(1,2)] have "sealed_by r0 fs r" by blast
  then have "sim.run (rmWorld r0) (map frame_cmds (take k fs) @ map frame_cmds (drop k fs)) =
      (Inr (rmWorld r) :: unit fault + World)"
    by (simp add: sealed_by_def flip: map_append)
  with assms(3) show ?thesis unfolding sim.run_append by simp
qed

end
