(* ===== verification/Client.thy ===== *)
theory Client
  imports Conn Room
begin

text \<open>
  \<^verbatim>\<open>pkg/rtsclient/client.go\<close> and the frame handler that
  \<^verbatim>\<open>cmd/fake-client\<close> and \<^verbatim>\<open>cmd/load-test\<close> install. The socket is what
  it yields: a read is a datagram with its arrival time, or nothing when the deadline passes; a
  write succeeds or fails.
\<close>

section \<open>The session\<close>

record Client =
  clConn :: Conn
  clPlayerID :: u8
  clRoomID :: gostring
  clSeed :: u64
  clMapW :: i32
  clMapH :: i32
  clJoined :: bool
  clConnID :: u16

datatype client_error =
    SendSYN | SynAckTimeout | SynAckMalformed packet_error | ExpectedSynAck | SendHello
  | HelloAckTimeout | HelloAckMalformed wire_error | HelloAckRejected | SendJoinRoom
  | JoinAckTimeout | JoinAckMalformed wire_error | JoinAckRejected

definition NewClient :: "addr \<Rightarrow> bool \<Rightarrow> int \<Rightarrow> Client" where
  "NewClient serverAddr chaos now =
     \<lparr>clConn = NewConn 0 serverAddr chaos 512 now, clPlayerID = 0, clRoomID = [], clSeed = 0,
      clMapW = 0, clMapH = 0, clJoined = False, clConnID = 0\<rparr>"

text \<open>
  \<^verbatim>\<open>readInboxWithTimeout\<close>: datagrams are fed to the connection until one leaves
  something in the inbox. A malformed datagram is skipped. The result holds the datagrams unread.
\<close>

fun readInbox :: "(int \<times> byte list) list \<Rightarrow> Conn \<Rightarrow> byte list option \<times> (int \<times> byte list) list \<times> Conn" where
  "readInbox [] c = (None, [], c)"
| "readInbox ((now, d) # ds) c =
     (case DecodePacket (take readBufferSize d) of
        Inl e \<Rightarrow> readInbox ds c
      | Inr pkt \<Rightarrow>
          (case take_inbox (HandleReceive now pkt c) of
             (Some p, c') \<Rightarrow> (Some p, ds, c')
           | (None, c') \<Rightarrow> readInbox ds c'))"

record connect_env =
  ceSynOk :: bool
  ceSynAck :: "byte list option"
  ceHello :: send_env
  ceHelloReads :: "(int \<times> byte list) list"
  ceJoin :: send_env
  ceJoinReads :: "(int \<times> byte list) list"

text \<open>\<^verbatim>\<open>Connect\<close> stops at the first failure; what was sent until then stays sent.\<close>

definition conn_wait ::
  "(int \<times> byte list) list \<Rightarrow> client_error \<Rightarrow> (wire_error \<Rightarrow> client_error) \<Rightarrow> Conn \<Rightarrow>
    client_error fault + WireMsg \<times> Conn" where
  "conn_wait reads timeout malformed c =
     (case readInbox reads c of
        (None, r) \<Rightarrow> Inl (Err timeout)
      | (Some d, rest, c) \<Rightarrow>
          (case Decode d of
             Inl Panic \<Rightarrow> Inl Panic
           | Inl (Err e) \<Rightarrow> Inl (Err (malformed e))
           | Inr (t, m) \<Rightarrow> Inr (m, c)))"

definition conn_send ::
  "send_env \<Rightarrow> WireMsg \<Rightarrow> client_error \<Rightarrow> Conn \<Rightarrow> client_error fault + datagram list \<times> Conn" where
  "conn_send env m failed c =
     (case Send env (encode_or_nil m) c of (ok, ds, c) \<Rightarrow> if ok then Inr (ds, c) else Inl (Err failed))"

definition Connect ::
  "connect_env \<Rightarrow> gostring \<Rightarrow> gostring \<Rightarrow> Client \<Rightarrow> client_error fault + datagram list \<times> Client" where
  "Connect env playerName roomID c =
     (if \<not> ceSynOk env then Inl (Err SendSYN)
      else case ceSynAck env of
        None \<Rightarrow> Inl (Err SynAckTimeout)
      | Some d \<Rightarrow>
          (case DecodePacket (take readBufferSize d) of
             Inl Panic \<Rightarrow> Inl Panic
           | Inl (Err e) \<Rightarrow> Inl (Err (SynAckMalformed e))
           | Inr synAck \<Rightarrow>
               if \<not> IsSYN synAck \<or> \<not> IsACK synAck then Inl (Err ExpectedSynAck)
               else let conn = (clConn c)\<lparr>cnConnID := pkConnID synAck, cnState := StateEstablished\<rparr>
                    in and_then (conn_send (ceHello env)
                         (MHello \<lparr>heProtocolVersion = ProtocolVersion, hePlayerName = playerName\<rparr>) SendHello conn) (\<lambda>(d1, conn).
                       and_then (conn_wait (ceHelloReads env) HelloAckTimeout HelloAckMalformed conn) (\<lambda>(m1, conn).
                       case m1 of
                         MHelloAck ha \<Rightarrow>
                           if \<not> haAccepted ha then Inl (Err HelloAckRejected)
                           else and_then (conn_send (ceJoin env) (MJoinRoom \<lparr>jrRoomID = roomID\<rparr>) SendJoinRoom conn) (\<lambda>(d2, conn).
                                and_then (conn_wait (ceJoinReads env) JoinAckTimeout JoinAckMalformed conn) (\<lambda>(m2, conn).
                                case m2 of
                                  MJoinAck ja \<Rightarrow>
                                    if \<not> jaAccepted ja then Inl (Err JoinAckRejected)
                                    else Inr (d1 @ d2, c\<lparr>clConn := conn, clConnID := pkConnID synAck,
                                      clPlayerID := jaPlayerID ja, clRoomID := jaRoomID ja, clSeed := jaSeed ja,
                                      clMapW := jaMapW ja, clMapH := jaMapH ja, clJoined := True\<rparr>)
                                | _ \<Rightarrow> Inl (Err JoinAckRejected)))
                       | _ \<Rightarrow> Inl (Err HelloAckRejected)))))"

definition SendCmd :: "send_env \<Rightarrow> Cmd \<Rightarrow> Client \<Rightarrow> bool \<times> datagram list \<times> Client" where
  "SendCmd env cmd c =
     (case Send env (encode_or_nil (MCmd cmd)) (clConn c) of (ok, ds, cn) \<Rightarrow> (ok, ds, c\<lparr>clConn := cn\<rparr>))"

definition SendHashAck :: "send_env \<Rightarrow> u32 \<Rightarrow> u64 \<Rightarrow> Client \<Rightarrow> bool \<times> datagram list \<times> Client" where
  "SendHashAck env tick hash c =
     (case Send env (encode_or_nil (MHashAck \<lparr>hkTick = tick, hkHash = hash\<rparr>)) (clConn c) of
        (ok, ds, cn) \<Rightarrow> (ok, ds, c\<lparr>clConn := cn\<rparr>))"

definition SendRTTReport :: "bool \<Rightarrow> u16 \<times> u16 \<times> u16 \<Rightarrow> Client \<Rightarrow> bool \<times> datagram list \<times> Client" where
  "SendRTTReport writeOk samples c =
     (case SendUnreliable writeOk (encode_or_nil (MRTTReport \<lparr>rrSamples = samples\<rparr>)) (clConn c) of
        (ok, ds, cn) \<Rightarrow> (ok, ds, c\<lparr>clConn := cn\<rparr>))"

text \<open>\<^verbatim>\<open>dispatch\<close>: which callback runs, on what. A failed assertion would panic.\<close>

datatype callback = OnFrame FrameBundle | OnNPub NPub | OnHint FeedbackHint

definition dispatch :: "byte list \<Rightarrow> wire_error fault + callback option" where
  "dispatch data =
     (case Decode data of
        Inl Panic \<Rightarrow> Inl Panic
      | Inl (Err e) \<Rightarrow> Inr None
      | Inr (t, m) \<Rightarrow>
          if t = MsgFrameBundle then (case m of MFrameBundle fb \<Rightarrow> Inr (Some (OnFrame fb)) | _ \<Rightarrow> Inl Panic)
          else if t = MsgNPub then (case m of MNPub np \<Rightarrow> Inr (Some (OnNPub np)) | _ \<Rightarrow> Inl Panic)
          else if t = MsgFeedbackHint then
            (case m of MFeedbackHint fh \<Rightarrow> Inr (Some (OnHint fh)) | _ \<Rightarrow> Inl Panic)
          else Inr None)"

section \<open>The loops\<close>

text \<open>
  The three goroutines over one connection, each as what a run of it does with what it meets: the
  reads of the socket (a datagram, or nothing by the deadline), the payloads taken from the inbox,
  and the ticks of the retransmission timer. A run ends when the client is closed, where its input
  ends. Callbacks that are not installed are as if they did nothing.
\<close>

fun RunReadLoop :: "(int \<times> byte list option) list \<Rightarrow> Conn \<Rightarrow> Conn" where
  "RunReadLoop [] c = c"
| "RunReadLoop ((now, None) # rs) c = RunReadLoop rs c"
| "RunReadLoop ((now, Some d) # rs) c =
     (case DecodePacket (take readBufferSize d) of
        Inl e \<Rightarrow> RunReadLoop rs c
      | Inr pkt \<Rightarrow> RunReadLoop rs (HandleReceive now pkt c))"

fun RunDispatchLoop :: "byte list list \<Rightarrow> wire_error fault + callback list" where
  "RunDispatchLoop [] = Inr []"
| "RunDispatchLoop (d # ds) =
     and_then (dispatch d) (\<lambda>cb.
       and_then (RunDispatchLoop ds) (\<lambda>cbs. Inr (case cb of None \<Rightarrow> cbs | Some x \<Rightarrow> x # cbs)))"

fun RunRetxLoop :: "int list \<Rightarrow> Conn \<Rightarrow> datagram list \<times> Conn" where
  "RunRetxLoop [] c = ([], c)"
| "RunRetxLoop (now # ts) c =
     (case conn_Tick now c of (r, ds, c) \<Rightarrow> (case RunRetxLoop ts c of (es, c) \<Rightarrow> (ds @ es, c)))"

lemma RunReadLoop_ok: "conn_ok c \<Longrightarrow> conn_ok (RunReadLoop rs c)"
  by (induction rs c rule: RunReadLoop.induct) (auto intro: conn_ok_HandleReceive split: sum.split)

lemma RunRetxLoop_ok: "conn_ok c \<Longrightarrow> conn_ok (snd (RunRetxLoop ts c))"
proof (induction ts c rule: RunRetxLoop.induct)
  case (2 now ts c)
  obtain r ds c1 where t: "conn_Tick now c = (r, ds, c1)" by (metis prod.exhaust)
  have "conn_ok c1" using conn_ok_Tick [OF "2.prems", of now] by (simp add: t)
  from "2.IH" [OF t [symmetric] refl this] t show ?case by (cases "RunRetxLoop ts c1") simp
qed simp

section \<open>The lockstep handler\<close>

record Player =
  plWorld :: World
  plLastTick :: u32

text \<open>
  \<^verbatim>\<open>for lastTick < fb.Tick\<close>: the missing ticks are stepped without commands, the last
  with the frame's.
\<close>

function catch_up :: "FrameBundle \<Rightarrow> u32 \<Rightarrow> World \<Rightarrow> 'e fault + World" where
  "catch_up fb lastTick w =
     (if lastTick < fbTick fb then
        (let lastTick' = lastTick + 1;
             cmds = (if lastTick' = fbTick fb then frame_cmds fb else [])
         in and_then (Step w cmds) (\<lambda>w. catch_up fb lastTick' w))
      else Inr w)"
  by pat_completeness auto
termination
proof (relation "measure (\<lambda>(fb, t, w). unat (fbTick fb - t))", simp)
  fix fb :: FrameBundle and t t' w w' cmds
  assume "t < fbTick fb" "t' = t + 1"
  then have "fbTick fb - t' = (fbTick fb - t) - 1" "fbTick fb - t \<noteq> 0" by auto
  then have "unat (fbTick fb - t') < unat (fbTick fb - t)" by (metis unat_minus_one unat_gt_0 diff_less zero_less_one)
  then show "((fb, t', w'), (fb, t, w)) \<in> measure (\<lambda>(fb, t, w). unat (fbTick fb - t))" by simp
qed

declare catch_up.simps [simp del]

definition on_frame :: "FrameBundle \<Rightarrow> Player \<Rightarrow> 'e fault + (u32 \<times> u64) \<times> Player" where
  "on_frame fb p =
     and_then (catch_up fb (plLastTick p) (plWorld p)) (\<lambda>w.
       Inr ((fbTick fb, Hash w),
            \<lparr>plWorld = w, plLastTick = (if plLastTick p < fbTick fb then fbTick fb else plLastTick p)\<rparr>))"

fun on_frames :: "FrameBundle list \<Rightarrow> Player \<Rightarrow> 'e fault + (u32 \<times> u64) list \<times> Player" where
  "on_frames [] p = Inr ([], p)"
| "on_frames (fb # fs) p =
     and_then (on_frame fb p) (\<lambda>(h, p). and_then (on_frames fs p) (\<lambda>(hs, p). Inr (h # hs, p)))"

text \<open>The world a client builds after joining, with the players and units the server spawns.\<close>

definition client_world :: "u64 \<Rightarrow> i32 \<Rightarrow> i32 \<Rightarrow> nat \<Rightarrow> nat \<Rightarrow> World" where
  "client_world seed mapW mapH playerCount unitsPerPlayer =
     foldl spawn_one (NewWorld seed mapW mapH)
       (concat (map (\<lambda>pid. map (\<lambda>i. (pid, i)) [0..<unitsPerPlayer]) [0..<playerCount]))"

section \<open>Consecutive frames\<close>

lemma catch_up_next:
  assumes "fbTick fb = t + 1" and "t \<noteq> - 1"
  shows "(catch_up fb t w :: 'e fault + World) = Step w (frame_cmds fb)"
proof -
  have "t < t + 1" using assms(2) by (rule less_plus_one)
  moreover have "(catch_up fb (fbTick fb) w' :: 'e fault + World) = Inr w'" for w' by (simp add: catch_up.simps [of fb "fbTick fb"])
  ultimately show ?thesis using assms(1)
    by (subst catch_up.simps)
      (cases "Step w (frame_cmds fb) :: 'e fault + World", simp_all add: Let_def)
qed

lemma catch_up_stale: "\<not> t < fbTick fb \<Longrightarrow> catch_up fb t w = Inr w"
  by (simp add: catch_up.simps [of fb t])

lemma on_frame_next:
  assumes "fbTick fb = plLastTick p + 1" and "plLastTick p \<noteq> - 1"
  shows "on_frame fb p = and_then (Step (plWorld p) (frame_cmds fb)) (\<lambda>w.
    Inr ((fbTick fb, Hash w), \<lparr>plWorld = w, plLastTick = fbTick fb\<rparr>))"
proof -
  have "plLastTick p < fbTick fb" unfolding assms(1) using assms(2) by (rule less_plus_one)
  then show ?thesis by (simp add: on_frame_def catch_up_next [OF assms])
qed

text \<open>A client that receives the frames of consecutive ticks is the simulation run on them.\<close>

lemma on_frames_run:
  assumes "sim_ok (plWorld p)" and "map fbTick fs = map (\<lambda>i. plLastTick p + 1 + of_nat i) [0..<length fs]"
    and "unat (plLastTick p) + length fs < 2 ^ 32"
  shows "\<exists>hs w. (sim.run (plWorld p) (map frame_cmds fs) :: 'e fault + _) = Inr w \<and>
    (sim.trace (plWorld p) (map frame_cmds fs) :: 'e fault + _) = Inr hs \<and>
    (on_frames fs p :: 'e fault + _) =
      Inr (zip (map fbTick fs) hs, \<lparr>plWorld = w, plLastTick = plLastTick p + of_nat (length fs)\<rparr>)"
  using assms
proof (induction fs arbitrary: p)
  case Nil
  then show ?case by simp
next
  case (Cons fb fs)
  have t: "fbTick fb = plLastTick p + 1"
    and ts: "map fbTick fs = map (\<lambda>i. plLastTick p + 1 + 1 + of_nat i) [0..<length fs]"
    using Cons.prems(2) by (simp_all add: map_upt_Suc add.assoc del: upt_Suc)
  have n: "plLastTick p \<noteq> - 1" using Cons.prems(3) by (intro not_minus_one) simp
  have u: "unat (fbTick fb) = Suc (unat (plLastTick p))" unfolding t by (rule unat_plus_one [OF n])
  from sim.step_total [OF Cons.prems(1), of "frame_cmds fb"] obtain w1 where
    w1: "(Step (plWorld p) (frame_cmds fb) :: 'e fault + _) = Inr w1" "sim_ok w1" by blast
  let ?p = "\<lparr>plWorld = w1, plLastTick = fbTick fb\<rparr>"
  have o: "(on_frame fb p :: 'e fault + _) = Inr ((fbTick fb, Hash w1), ?p)"
    by (simp add: on_frame_next [OF t n] w1)
  from Cons.IH [of ?p] w1(2) ts u Cons.prems(3) t obtain hs w where
    "(sim.run w1 (map frame_cmds fs) :: 'e fault + _) = Inr w"
    "(sim.trace w1 (map frame_cmds fs) :: 'e fault + _) = Inr hs"
    "(on_frames fs ?p :: 'e fault + _) =
      Inr (zip (map fbTick fs) hs, \<lparr>plWorld = w, plLastTick = fbTick fb + of_nat (length fs)\<rparr>)" by auto
  then show ?case using o w1 t by (simp add: add.assoc)
qed

text \<open>Frames that were missed are replaced by empty ones.\<close>

lemma catch_up_gap:
  assumes "sim_ok w" and "unat (fbTick fb) = unat t + Suc n"
  shows "(catch_up fb t w :: 'e fault + World) = sim.run w (replicate n [] @ [frame_cmds fb])"
  using assms
proof (induction n arbitrary: t w)
  case 0
  have t: "t \<noteq> - 1"
    using 0 unsigned_less [of "fbTick fb", where ?'a = nat] by (intro not_minus_one) simp
  moreover have "fbTick fb = t + 1"
  proof -
    have "unat (fbTick fb) = unat (t + 1)" unfolding unat_plus_one [OF t] using 0 by simp
    then show ?thesis by (simp only: word_unat_eq_iff)
  qed
  moreover obtain w1 where "(Step w (frame_cmds fb) :: 'e fault + World) = Inr w1"
    using sim.step_total [OF 0(1), of "frame_cmds fb"] by blast
  ultimately show ?case by (simp add: catch_up_next)
next
  case (Suc n)
  have "t \<noteq> - 1"
    using Suc.prems(2) unsigned_less [of "fbTick fb", where ?'a = nat] by (intro not_minus_one) simp
  then have u: "unat (t + 1) = Suc (unat t)" by (rule unat_plus_one)
  from sim.step_total [OF Suc.prems(1), of "[]"] obtain w1 where
    w1: "(Step w [] :: 'e fault + World) = Inr w1" "sim_ok w1" by blast
  have "t < fbTick fb" "t + 1 \<noteq> fbTick fb"
    using Suc.prems(2) u unfolding word_less_nat_alt by auto
  then have "(catch_up fb t w :: 'e fault + World) = catch_up fb (t + 1) w1"
    using w1 by (subst catch_up.simps) (simp add: Let_def)
  also have "\<dots> = sim.run w1 (replicate n [] @ [frame_cmds fb])"
    using Suc.IH [OF w1(2), of "t + 1"] u Suc.prems(2) by simp
  finally show ?case using w1 by simp
qed

text \<open>No packet makes the client panic.\<close>

lemma dispatch_no_panic: "no_panic (dispatch data)"
proof (cases "Decode data")
  case (Inl e)
  with Decode_never_panics [of data] show ?thesis by (cases e) (auto simp: dispatch_def no_panic_iff)
next
  case (Inr x)
  obtain t m where x: "x = (t, m)" by fastforce
  with Inr Decode_msg_type have "t = msg_type m" by blast
  with Inr x show ?thesis by (cases m) (simp_all add: dispatch_def msg_type_defs)
qed

section \<open>What arrives is handled\<close>

text \<open>The frames among messages and among callbacks.\<close>

definition frames_of :: "WireMsg list \<Rightarrow> FrameBundle list" where
  "frames_of ms = concat (map (\<lambda>m. case m of MFrameBundle fb \<Rightarrow> [fb] | _ \<Rightarrow> []) ms)"

definition on_frame_calls :: "callback list \<Rightarrow> FrameBundle list" where
  "on_frame_calls cbs = concat (map (\<lambda>cb. case cb of OnFrame fb \<Rightarrow> [fb] | _ \<Rightarrow> []) cbs)"

lemma Decode_Encode_or_nil: "wire_ok m \<Longrightarrow> Decode (encode_or_nil m) = Inr (msg_type m, m)"
  using Decode_Encode_rest [of m "[]"] by (auto simp: encode_or_nil_def)

lemma RunDispatchLoop_total: "\<exists>cbs. RunDispatchLoop ds = Inr cbs"
proof (induction ds)
  case (Cons d ds)
  have "\<exists>cb. dispatch d = Inr cb"
  proof (cases "dispatch d")
    case (Inl e)
    with dispatch_no_panic [of d] show ?thesis
      by (auto simp: dispatch_def no_panic_iff split: sum.splits fault.splits if_splits WireMsg.splits)
  qed simp
  with Cons show ?case by auto
qed simp

lemma dispatch_message:
  assumes "wire_ok m"
  shows "\<exists>cb. dispatch (encode_or_nil m) = Inr cb \<and>
    (case cb of Some (OnFrame fb) \<Rightarrow> m = MFrameBundle fb | _ \<Rightarrow> (\<forall>fb. m \<noteq> MFrameBundle fb))"
  using Decode_Encode_or_nil [OF assms] by (cases m) (simp_all add: dispatch_def msg_type_defs)

lemma RunDispatchLoop_frames:
  assumes "list_all wire_ok ms"
  shows "\<exists>cbs. RunDispatchLoop (map encode_or_nil ms) = Inr cbs \<and> on_frame_calls cbs = frames_of ms"
  using assms
proof (induction ms)
  case (Cons m ms)
  then obtain cbs where "RunDispatchLoop (map encode_or_nil ms) = Inr cbs" "on_frame_calls cbs = frames_of ms" by auto
  with dispatch_message [of m] Cons.prems show ?case
    by (fastforce simp: on_frame_calls_def frames_of_def split: option.splits callback.splits WireMsg.splits)
qed (simp add: on_frame_calls_def frames_of_def)

section \<open>Properties\<close>

text \<open>A client that misses frames does not notice: the ticks in between are stepped with no commands
  at all, whatever commands they had on the server.\<close>

theorem missed_frames_become_empty:
  assumes "world_ok (plWorld p)" and "unat (fbTick fb) = unat (plLastTick p) + Suc n"
  shows "\<exists>w. sim.run (plWorld p) (replicate n [] @ [frame_cmds fb]) = (Inr w :: 'e fault + World) \<and>
    (on_frame fb p :: 'e fault + _) = Inr ((fbTick fb, Hash w), \<lparr>plWorld = w, plLastTick = fbTick fb\<rparr>)"
proof -
  have ok: "sim_ok (plWorld p)" using assms(1) by (simp add: sim_ok_iff)
  from sim.run_total [OF ok, of "replicate n [] @ [frame_cmds fb]"] obtain w where
    w: "sim.run (plWorld p) (replicate n [] @ [frame_cmds fb]) = (Inr w :: 'e fault + World)" by blast
  have "plLastTick p < fbTick fb" unfolding word_less_nat_alt assms(2) by simp
  with w show ?thesis by (simp add: on_frame_def catch_up_gap [OF ok assms(2)])
qed

theorem missed_frames_become_empty_witness:
  "\<exists>w. sim.run duel (replicate 2 [] @ [frame_cmds \<lparr>fbTick = 3, fbNCurrent = 3, fbCmds = []\<rparr>]) = (Inr w :: unit fault + World) \<and>
    (on_frame \<lparr>fbTick = 3, fbNCurrent = 3, fbCmds = []\<rparr> \<lparr>plWorld = duel, plLastTick = 0\<rparr> :: unit fault + _) =
      Inr ((3, Hash w), \<lparr>plWorld = w, plLastTick = 3\<rparr>)"
  using missed_frames_become_empty [of "\<lparr>plWorld = duel, plLastTick = 0\<rparr>" "\<lparr>fbTick = 3, fbNCurrent = 3, fbCmds = []\<rparr>" 2, where 'e = unit]
    duel_ok by simp

lemma length_encodeFrameBundle: "length (encodeFrameBundle fb) = 8 + 22 * length (fbCmds fb)"
  by (simp add: encodeFrameBundle_def wire_cmd.length_concat_enc)

text \<open>C38: a frame with 92 commands or more does not fit the buffers that datagrams are read into: every
  copy of it is rejected, so no receiver gets it, nor anything the stream carries after it.\<close>

theorem large_frame_unreadable:
  assumes "pkPayload pkt = encode_or_nil (MFrameBundle fb)" and "92 \<le> length (fbCmds fb)"
    and "length (fbCmds fb) \<le> 2978"
  shows "DecodePacket (take readBufferSize (encodePacket pkt)) = Inl (Err PayloadLengthExceedsPacket)"
proof (rule DecodePacket_oversize)
  have "length (pkPayload pkt) = 8 + 22 * length (fbCmds fb)"
    by (simp add: assms(1) encode_or_nil_def length_encodeFrameBundle)
  then show "2029 < length (pkPayload pkt)" "length (pkPayload pkt) < 65536" using assms(2,3) by simp_all
qed

theorem large_frame_unreadable_witness:
  "DecodePacket (take readBufferSize (encodePacket (data_at 1 (encode_or_nil (MFrameBundle
      \<lparr>fbTick = 1, fbNCurrent = 3, fbCmds = replicate 92 \<lparr>cmTick = 1, cmPlayer = 0, cmOp = 1, cmUnitID = 1,
        cmTargetX = 0, cmTargetY = 0, cmTargetID = 0\<rparr>\<rparr>))))) = Inl (Err PayloadLengthExceedsPacket)"
  by (rule large_frame_unreadable [OF data_at_simps(2)]) simp_all

end
