(* ===== verification/Chaos.thy ===== *)
theory Chaos
  imports Client
begin

text \<open>
  \<^verbatim>\<open>internal/transport/chaos.go\<close>, the hook that drops, delays and repeats
  datagrams in tests, and \<^verbatim>\<open>cmd/chaos-shim\<close>, the proxy that does so between two
  sockets. What \<^verbatim>\<open>math/rand\<close> returns is an argument: a float64, of any linearly
  ordered type, or the 63-bit number that \<^verbatim>\<open>Int63n\<close> reduces. Durations are 64-bit
  nanoseconds.
\<close>

section \<open>The hook\<close>

record 'f ChaosConfig =
  ccDropRate :: 'f
  ccMinDelay :: i64
  ccMaxDelay :: i64
  ccDuplicateRate :: 'f

definition ShouldDrop :: "'f::linorder ChaosConfig \<Rightarrow> 'f \<Rightarrow> bool" where
  "ShouldDrop cfg draw \<longleftrightarrow> draw < ccDropRate cfg"

definition ShouldDuplicate :: "'f::linorder ChaosConfig \<Rightarrow> 'f \<Rightarrow> bool" where
  "ShouldDuplicate cfg draw \<longleftrightarrow> draw < ccDuplicateRate cfg"

text \<open>The bounded draws of \<^verbatim>\<open>math/rand\<close>, which panic when the bound is not positive.\<close>

definition rand_below :: "i64 \<Rightarrow> i64 \<Rightarrow> 'e fault + i64" where
  "rand_below raw n = (if n \<le>s 0 then Inl Panic else Inr (word_of_int (sint raw mod sint n)))"

definition Delay :: "'f ChaosConfig \<Rightarrow> i64 \<Rightarrow> 'e fault + i64" where
  "Delay cfg raw =
     (if ccMaxDelay cfg \<le>s ccMinDelay cfg then Inr (ccMinDelay cfg)
      else and_then (rand_below raw (ccMaxDelay cfg - ccMinDelay cfg)) (\<lambda>jitter.
        Inr (ccMinDelay cfg + jitter)))"

lemma rand_below_range:
  assumes "rand_below raw n = Inr x"
  shows "0 \<le> sint x" and "sint x < sint n"
proof -
  from assms have n: "0 < sint n" and x: "x = word_of_int (sint raw mod sint n)"
    by (auto simp: rand_below_def word_sle_eq split: if_splits)
  have m: "0 \<le> sint raw mod sint n" "sint raw mod sint n < sint n" using n by simp_all
  then have "sint raw mod sint n < 2 ^ 63" using sint_lt [of n] by simp
  then have "sint x = sint raw mod sint n" using m int_word_sint [of "sint raw mod sint n", where 'a = 64] by (simp add: x)
  with m show "0 \<le> sint x" "sint x < sint n" by simp_all
qed

lemma sint_plus_no_wrap:
  fixes a b :: i64
  assumes "- (2 ^ 63) \<le> sint a + sint b" and "sint a + sint b < 2 ^ 63"
  shows "sint (a + b) = sint a + sint b"
  using assms by (simp add: sint_word_ariths signed_take_bit_int_eq_self)

lemma sint_diff_no_wrap:
  fixes a b :: i64
  assumes "- (2 ^ 63) \<le> sint a - sint b" and "sint a - sint b < 2 ^ 63"
  shows "sint (a - b) = sint a - sint b"
  using assms by (simp add: sint_word_ariths signed_take_bit_int_eq_self)

section \<open>The proxy\<close>

record 'f shim_flags =
  sfDropPct :: 'f
  sfDelayMs :: i64
  sfJitterMs :: i64
  sfServer :: addr

record shim =
  shClients :: "(addr \<times> addr) list"
  shDropped :: u64
  shForwarded :: u64

definition new_shim :: shim where
  "new_shim = \<lparr>shClients = [], shDropped = 0, shForwarded = 0\<rparr>"

definition Millis :: i64 where "Millis = 1000000"

definition shim_delay :: "'f shim_flags \<Rightarrow> i64 \<Rightarrow> 'e fault + i64" where
  "shim_delay fl raw =
     (let delay = sfDelayMs fl * Millis
      in if 0 <s sfJitterMs fl
         then and_then (rand_below raw (sfJitterMs fl * 2)) (\<lambda>r.
           let delay = delay + (r - sfJitterMs fl) * Millis
           in Inr (if delay <s 0 then 0 else delay))
         else Inr delay)"

text \<open>A datagram on its way: how long it waits, its bytes and where it goes.\<close>

type_synonym relayed = "i64 \<times> byte list \<times> addr"

definition chaosForward ::
  "'f::linorder shim_flags \<Rightarrow> 'f \<times> i64 \<Rightarrow> byte list \<Rightarrow> addr \<Rightarrow> shim \<Rightarrow> 'e fault + relayed list \<times> shim" where
  "chaosForward fl draw data dst sh =
     (if fst draw < sfDropPct fl then Inr ([], sh\<lparr>shDropped := shDropped sh + 1\<rparr>)
      else and_then (shim_delay fl (snd draw)) (\<lambda>delay.
        Inr ([(if 0 <s delay then delay else 0, data, dst)], sh\<lparr>shForwarded := shForwarded sh + 1\<rparr>)))"

fun forward_each ::
  "'f::linorder shim_flags \<Rightarrow> (nat \<Rightarrow> 'f \<times> i64) \<Rightarrow> byte list \<Rightarrow> addr list \<Rightarrow> shim \<Rightarrow> 'e fault + relayed list \<times> shim" where
  "forward_each fl draws data [] sh = Inr ([], sh)"
| "forward_each fl draws data (a # as) sh =
     and_then (chaosForward fl (draws (length as)) data a sh) (\<lambda>(out, sh).
       and_then (forward_each fl draws data as sh) (\<lambda>(outs, sh). Inr (out @ outs, sh)))"

text \<open>
  One turn of the read loop. A read error is skipped. An answer of the server goes to every client
  known, in the order of Go's map iteration: here the list's.
\<close>

definition shim_read ::
  "'f::linorder shim_flags \<Rightarrow> (nat \<Rightarrow> 'f \<times> i64) \<Rightarrow> (byte list \<times> addr) option \<Rightarrow> shim \<Rightarrow> 'e fault + relayed list \<times> shim" where
  "shim_read fl draws rd sh =
     (case rd of
        None \<Rightarrow> Inr ([], sh)
      | Some (d, remote) \<Rightarrow>
          (let data = take readBufferSize d
           in if remote = sfServer fl then forward_each fl draws data (map snd (shClients sh)) sh
              else chaosForward fl (draws 0) data (sfServer fl)
                     (sh\<lparr>shClients := AList.update remote remote (shClients sh)\<rparr>)))"

definition shim_ok :: "'f shim_flags \<Rightarrow> shim \<Rightarrow> bool" where
  "shim_ok fl sh \<longleftrightarrow> distinct (map fst (shClients sh)) \<and> list_all (\<lambda>(k, a). k = a \<and> a \<noteq> sfServer fl) (shClients sh)"

definition flags_ok :: "'f shim_flags \<Rightarrow> bool" where
  "flags_ok fl \<longleftrightarrow> 0 \<le> sint (sfDelayMs fl) \<and> sint (sfDelayMs fl) < 2 ^ 40 \<and>
     0 \<le> sint (sfJitterMs fl) \<and> sint (sfJitterMs fl) < 2 ^ 40"

lemma sint_times_no_wrap:
  fixes a b :: i64
  assumes "- (2 ^ 63) \<le> sint a * sint b" and "sint a * sint b < 2 ^ 63"
  shows "sint (a * b) = sint a * sint b"
  using assms by (simp add: sint_word_ariths signed_take_bit_int_eq_self)

text \<open>With sensible flags the delay is found, is not negative, and exceeds the nominal one by less than
  the jitter.\<close>

lemma shim_delay_range:
  assumes "flags_ok fl"
  shows "\<exists>d. (shim_delay fl raw :: 'e fault + _) = Inr d \<and> 0 \<le> sint d \<and>
    sint d \<le> (sint (sfDelayMs fl) + sint (sfJitterMs fl)) * 1000000"
proof -
  let ?d = "sfDelayMs fl" and ?j = "sfJitterMs fl"
  have m: "sint Millis = 1000000" by (simp add: Millis_def)
  have b: "0 \<le> sint ?d" "sint ?d < 2 ^ 40" "0 \<le> sint ?j" "sint ?j < 2 ^ 40" using assms by (simp_all add: flags_ok_def)
  have d: "sint (?d * Millis) = sint ?d * 1000000"
    using b by (subst sint_times_no_wrap) (simp_all add: m)
  show ?thesis
  proof (cases "0 <s ?j")
    case True
    then have j: "0 < sint ?j" by (simp add: word_sless_alt)
    have j2: "sint (?j * 2) = sint ?j * 2" using b by (subst sint_times_no_wrap) simp_all
    then obtain r where r: "(rand_below raw (?j * 2) :: 'e fault + _) = Inr r" using j by (simp add: rand_below_def word_sle_eq)
    from rand_below_range [OF this] j2 have rr: "0 \<le> sint r" "sint r < sint ?j * 2" by simp_all
    have s: "sint (r - ?j) = sint r - sint ?j" using b rr by (intro sint_diff_no_wrap) simp_all
    have t: "sint ((r - ?j) * Millis) = (sint r - sint ?j) * 1000000"
      using b rr by (subst sint_times_no_wrap) (simp_all add: m s)
    have u: "sint (?d * Millis + (r - ?j) * Millis) = sint ?d * 1000000 + (sint r - sint ?j) * 1000000"
      using b rr by (subst sint_plus_no_wrap) (simp_all add: d t)
    show ?thesis using True r u b rr
      by (auto simp: shim_delay_def Let_def word_sless_alt)
  next
    case False
    then show ?thesis using d b by (simp add: shim_delay_def Let_def)
  qed
qed

lemma chaosForward_out:
  assumes "flags_ok fl"
  shows "\<exists>out sh'. (chaosForward fl draw data a sh :: 'e fault + _) = Inr (out, sh') \<and>
    (\<forall>x \<in> set out. fst (snd x) = data \<and> snd (snd x) = a \<and> 0 \<le> sint (fst x) \<and>
       sint (fst x) \<le> (sint (sfDelayMs fl) + sint (sfJitterMs fl)) * 1000000) \<and>
    length out = (if fst draw < sfDropPct fl then 0 else 1) \<and> shClients sh' = shClients sh \<and>
    shForwarded sh' = shForwarded sh + of_nat (length out) \<and>
    shDropped sh' + shForwarded sh' = shDropped sh + shForwarded sh + 1"
proof (cases "fst draw < sfDropPct fl")
  case False
  from shim_delay_range [OF assms, of "snd draw", where 'e = 'e] obtain d where
    "(shim_delay fl (snd draw) :: 'e fault + _) = Inr d" "0 \<le> sint d"
    "sint d \<le> (sint (sfDelayMs fl) + sint (sfJitterMs fl)) * 1000000" by blast
  with False show ?thesis by (auto simp: chaosForward_def add.assoc)
qed (simp add: chaosForward_def)

lemma forward_each_out:
  assumes "flags_ok fl"
  shows "\<exists>out sh'. (forward_each fl draws data as sh :: 'e fault + _) = Inr (out, sh') \<and>
    (\<forall>x \<in> set out. fst (snd x) = data \<and> 0 \<le> sint (fst x) \<and>
       sint (fst x) \<le> (sint (sfDelayMs fl) + sint (sfJitterMs fl)) * 1000000) \<and>
    subseq (map (snd \<circ> snd) out) as \<and> shClients sh' = shClients sh \<and>
    shForwarded sh' = shForwarded sh + of_nat (length out) \<and>
    shDropped sh' + shForwarded sh' = shDropped sh + shForwarded sh + of_nat (length as) \<and>
    ((\<forall>i. \<not> fst (draws i) < sfDropPct fl) \<longrightarrow> map (snd \<circ> snd) out = as)"
proof (induction "as" arbitrary: sh)
  case (Cons a as)
  from chaosForward_out [OF assms, of "draws (length as)" data a sh, where 'e = 'e] obtain out1 sh1 where
    1: "(chaosForward fl (draws (length as)) data a sh :: 'e fault + _) = Inr (out1, sh1)"
      "\<forall>x \<in> set out1. fst (snd x) = data \<and> snd (snd x) = a \<and> 0 \<le> sint (fst x) \<and>
       sint (fst x) \<le> (sint (sfDelayMs fl) + sint (sfJitterMs fl)) * 1000000"
      "length out1 = (if fst (draws (length as)) < sfDropPct fl then 0 else 1)" "shClients sh1 = shClients sh"
      "shForwarded sh1 = shForwarded sh + of_nat (length out1)"
      "shDropped sh1 + shForwarded sh1 = shDropped sh + shForwarded sh + 1" by blast
  from Cons.IH [of sh1] obtain out sh' where
    2: "(forward_each fl draws data as sh1 :: 'e fault + _) = Inr (out, sh')"
      "\<forall>x \<in> set out. fst (snd x) = data \<and> 0 \<le> sint (fst x) \<and>
       sint (fst x) \<le> (sint (sfDelayMs fl) + sint (sfJitterMs fl)) * 1000000"
      "subseq (map (snd \<circ> snd) out) as" "shClients sh' = shClients sh1"
      "shForwarded sh' = shForwarded sh1 + of_nat (length out)"
      "shDropped sh' + shForwarded sh' = shDropped sh1 + shForwarded sh1 + of_nat (length as)"
      "(\<forall>i. \<not> fst (draws i) < sfDropPct fl) \<longrightarrow> map (snd \<circ> snd) out = as" by blast
  have m: "map (snd \<circ> snd) out1 = (if fst (draws (length as)) < sfDropPct fl then [] else [a])"
    using 1(2,3) by (cases out1) (auto split: if_splits)
  then have "subseq (map (snd \<circ> snd) (out1 @ out)) (a # as)" using 2(3) by (simp add: list_emb_Cons)
  moreover have "(\<forall>i. \<not> fst (draws i) < sfDropPct fl) \<longrightarrow> map (snd \<circ> snd) (out1 @ out) = a # as"
    using m 2(7) by simp
  moreover have "shForwarded sh' = shForwarded sh + of_nat (length (out1 @ out))" using 1(5) 2(5) by simp
  moreover have "shDropped sh' + shForwarded sh' = shDropped sh + shForwarded sh + of_nat (length (a # as))"
    using 1(6) 2(6) by simp
  ultimately show ?case using 1(1,2,4) 2(1,2,4) unfolding comp_def
    by (intro exI [of _ "out1 @ out"] exI [of _ sh']) auto
qed simp

section \<open>Properties\<close>

text \<open>The hook's delay is the minimum when the maximum does not exceed it and lies between them
  otherwise; when their difference overflows 64 bits the draw panics.\<close>

theorem chaos_delay_range:
  "(if ccMaxDelay cfg \<le>s ccMinDelay cfg then (Delay cfg raw :: 'e fault + _) = Inr (ccMinDelay cfg)
    else if sint (ccMaxDelay cfg) - sint (ccMinDelay cfg) < 2 ^ 63
    then \<exists>d. (Delay cfg raw :: 'e fault + _) = Inr d \<and> sint (ccMinDelay cfg) \<le> sint d \<and> sint d < sint (ccMaxDelay cfg)
    else (Delay cfg raw :: 'e fault + _) = Inl Panic)"
proof -
  let ?a = "ccMinDelay cfg" and ?b = "ccMaxDelay cfg"
  have bnd: "- (2 ^ 63) \<le> sint ?a" "sint ?a < 2 ^ 63" "- (2 ^ 63) \<le> sint ?b" "sint ?b < 2 ^ 63"
    using sint_lt [of ?a] sint_ge [of ?a] sint_lt [of ?b] sint_ge [of ?b] by simp_all
  have "\<exists>d. (Delay cfg raw :: 'e fault + _) = Inr d \<and> sint ?a \<le> sint d \<and> sint d < sint ?b"
    if lt: "\<not> ?b \<le>s ?a" and small: "sint ?b - sint ?a < 2 ^ 63"
  proof -
    have ab: "sint ?a < sint ?b" using lt by (simp add: word_sle_eq)
    then have d: "sint (?b - ?a) = sint ?b - sint ?a" using small by (intro sint_diff_no_wrap) simp_all
    with ab obtain r where r: "(rand_below raw (?b - ?a) :: 'e fault + _) = Inr r" by (simp add: rand_below_def word_sle_eq)
    from rand_below_range [OF this] d have "0 \<le> sint r" "sint r < sint ?b - sint ?a" by simp_all
    moreover from this have "sint (?a + r) = sint ?a + sint r" using bnd by (intro sint_plus_no_wrap) simp_all
    ultimately show ?thesis using lt r by (simp add: Delay_def)
  qed
  moreover have "(Delay cfg raw :: 'e fault + _) = Inl Panic" if lt: "\<not> ?b \<le>s ?a" and big: "\<not> sint ?b - sint ?a < 2 ^ 63"
  proof -
    have "sint (?b - ?a) = sint ?b - sint ?a - 2 ^ 64"
    proof -
      have "sint (?b - ?a) = signed_take_bit 63 (sint ?b - sint ?a - 2 ^ 64)"
        using signed_take_bit_int_eq_self_iff by (simp add: sint_word_ariths signed_take_bit_eq_iff_take_bit_eq take_bit_eq_mod)
      also have "\<dots> = sint ?b - sint ?a - 2 ^ 64" using big bnd by (intro signed_take_bit_int_eq_self) simp_all
      finally show ?thesis .
    qed
    then have "?b - ?a \<le>s 0" using bnd by (simp add: word_sle_eq)
    with lt show ?thesis by (simp add: Delay_def rand_below_def)
  qed
  moreover have "(Delay cfg raw :: 'e fault + _) = Inr ?a" if "?b \<le>s ?a" using that by (simp add: Delay_def)
  ultimately show ?thesis by simp
qed

text \<open>The client never compares a packet's connection id: what it does with a datagram meant for another
  client is what it would do with its own.\<close>

lemma HandleReceive_any_id: "HandleReceive now (pkt\<lparr>pkConnID := i\<rparr>) c = HandleReceive now pkt c"
  by (simp add: HandleReceive_def recv_acks_def recv_reliable_def recv_unreliable_def IsACK_def IsReliable_def IsPING_def split_beta Let_def)

text \<open>C40: the proxy relays. With delay and jitter below 2 to the 40 milliseconds no datagram panics it. It
  sends each one, unchanged up to 2048 bytes, to the server when it came from a client, and to all
  the clients when it came from the server, save those that the dice drop; each copy waits a time between
  0 and delay plus jitter; the two counters account for every copy.\<close>

theorem shim_relays:
  fixes fl :: "'f::linorder shim_flags" and a :: addr
  assumes "shim_ok fl sh" and "flags_ok fl"
  defines "targets \<equiv> if a = sfServer fl then map snd (shClients sh) else [sfServer fl]"
  shows "\<exists>out sh'. (shim_read fl draws (Some (d, a)) sh :: 'e fault + _) = Inr (out, sh') \<and> shim_ok fl sh' \<and>
    (\<forall>x \<in> set out. fst (snd x) = take readBufferSize d \<and> 0 \<le> sint (fst x) \<and>
       sint (fst x) \<le> (sint (sfDelayMs fl) + sint (sfJitterMs fl)) * 1000000) \<and>
    subseq (map (snd \<circ> snd) out) targets \<and>
    ((\<forall>i. \<not> fst (draws i) < sfDropPct fl) \<longrightarrow> map (snd \<circ> snd) out = targets) \<and>
    shForwarded sh' = shForwarded sh + of_nat (length out) \<and>
    shDropped sh' + shForwarded sh' = shDropped sh + shForwarded sh + of_nat (length targets)"
proof (cases "a = sfServer fl")
  case True
  with forward_each_out [OF assms(2), of draws "take readBufferSize d" "map snd (shClients sh)" sh, where 'e = 'e] assms(1)
  show ?thesis by (auto simp: shim_read_def targets_def shim_ok_def)
next
  case False
  let ?sh = "sh\<lparr>shClients := AList.update a a (shClients sh)\<rparr>"
  have ok: "shim_ok fl ?sh"
    using assms(1) False set_update [of a a "shClients sh"]
    by (auto simp: shim_ok_def list_all_iff AList.distinct_update)
  have "forward_each fl draws (take readBufferSize d) [sfServer fl] ?sh = (shim_read fl draws (Some (d, a)) sh :: 'e fault + _)"
    using False by (cases "chaosForward fl (draws 0) (take readBufferSize d) (sfServer fl) ?sh :: 'e fault + _")
      (auto simp: shim_read_def)
  with forward_each_out [OF assms(2), of draws "take readBufferSize d" "[sfServer fl]" ?sh, where 'e = 'e] ok False
  show ?thesis by (auto simp: targets_def shim_ok_def)
qed

theorem shim_relays_witness:
  "\<exists>out sh'. (shim_read \<lparr>sfDropPct = (0 :: int), sfDelayMs = 50, sfJitterMs = 20, sfServer = ''s''\<rparr> (\<lambda>i. (0, 7))
      (Some ([1, 2], ''s'')) \<lparr>shClients = [(''a'', ''a''), (''b'', ''b'')], shDropped = 0, shForwarded = 0\<rparr> :: unit fault + _) =
      Inr (out, sh') \<and> map (snd \<circ> snd) out = [''a'', ''b''] \<and> shForwarded sh' = 2"
proof -
  have f: "flags_ok \<lparr>sfDropPct = (0 :: int), sfDelayMs = 50, sfJitterMs = 20, sfServer = ''s''\<rparr>"
    "shim_ok \<lparr>sfDropPct = (0 :: int), sfDelayMs = 50, sfJitterMs = 20, sfServer = ''s''\<rparr>
      \<lparr>shClients = [(''a'', ''a''), (''b'', ''b'')], shDropped = 0, shForwarded = 0\<rparr>"
    by (simp_all add: flags_ok_def shim_ok_def)
  from shim_relays [OF f(2,1), of "\<lambda>i. (0, 7)" "[1, 2]" "''s''", where 'e = unit] show ?thesis
    by (auto simp: map_eq_Cons_conv)
qed

end
