(* ===== verification/Listener.thy ===== *)
theory Listener
  imports Conn
begin

text \<open>
  \<^verbatim>\<open>internal/transport/listener.go\<close>: the table of connections behind one UDP socket
  and the routing of datagrams. Connections are shared by two maps through pointers, so they live in
  a heap (a list, the pointer being the index); the maps hold pointers.
\<close>

record Listener =
  lsHeap :: "Conn list"
  lsConns :: "(u16 \<times> nat) list"
  lsByAddr :: "(addr \<times> nat) list"
  lsNextID :: u16
  lsChaos :: bool

definition Listen :: "bool \<Rightarrow> Listener" where
  "Listen chaos = \<lparr>lsHeap = [], lsConns = [], lsByAddr = [], lsNextID = 1, lsChaos = chaos\<rparr>"

definition GetConn :: "Listener \<Rightarrow> u16 \<Rightarrow> nat option" where
  "GetConn l i = map_of (lsConns l) i"

definition Conns :: "Listener \<Rightarrow> nat list" where
  "Conns l = map snd (lsConns l)"

definition synack :: "Conn \<Rightarrow> datagram" where
  "synack c = (encodePacket \<lparr>pkFlags = FlagSYN OR FlagACK, pkConnID = cnConnID c, pkSeq = 0,
     pkAck = 0, pkAckBitmask = 0, pkPayload = []\<rparr>, cnRemoteAddr c)"

text \<open>A handler returns the new table, what it wrote to the socket and the connection it
  announced through \<^verbatim>\<open>OnNewConn\<close>.\<close>

definition handleSYN :: "int \<Rightarrow> addr \<Rightarrow> Listener \<Rightarrow> Listener \<times> datagram list \<times> nat option" where
  "handleSYN now addr l =
     (case map_of (lsByAddr l) addr of
        Some existing \<Rightarrow> (l, [synack (lsHeap l ! existing)], None)
      | None \<Rightarrow>
          (let i = lsNextID l;
               c = (NewConn i addr (lsChaos l) 0 now)\<lparr>cnState := StateEstablished\<rparr>;
               r = length (lsHeap l)
           in (l\<lparr>lsHeap := lsHeap l @ [c], lsNextID := i + 1,
                 lsConns := AList.update i r (lsConns l),
                 lsByAddr := AList.update addr r (lsByAddr l)\<rparr>,
               [synack c], Some r)))"

definition route :: "Listener \<Rightarrow> Packet \<Rightarrow> nat option" where
  "route l pkt = (if pkConnID pkt \<noteq> 0 then GetConn l (pkConnID pkt) else None)"

definition handlePacket ::
  "int \<Rightarrow> byte list \<Rightarrow> addr \<Rightarrow> Listener \<Rightarrow> Listener \<times> datagram list \<times> nat option" where
  "handlePacket now data addr l =
     (case DecodePacket data of
        Inl e \<Rightarrow> (l, [], None)
      | Inr pkt \<Rightarrow>
          (case route l pkt of
             Some r \<Rightarrow>
               (l\<lparr>lsHeap := (lsHeap l)[r := HandleReceive now pkt ((lsHeap l ! r)\<lparr>cnRemoteAddr := addr\<rparr>)]\<rparr>, [], None)
           | None \<Rightarrow> if IsSYN pkt then handleSYN now addr l else (l, [], None)))"

definition RemoveConn :: "u16 \<Rightarrow> Listener \<Rightarrow> Listener" where
  "RemoveConn i l =
     (case map_of (lsConns l) i of
        None \<Rightarrow> l
      | Some r \<Rightarrow> l\<lparr>lsConns := AList.delete i (lsConns l),
                    lsByAddr := AList.delete (cnRemoteAddr (lsHeap l ! r)) (lsByAddr l)\<rparr>)"

section \<open>Runs\<close>

text \<open>
  The reader's loop and the server's calls. A connection's owner calls its methods at any time:
  \<open>own\<close> is any such call, which leaves identifier and address alone.
\<close>

inductive listener_step :: "Listener \<Rightarrow> Listener \<Rightarrow> bool" where
  packet: "fst (handlePacket now data addr l) = l' \<Longrightarrow> listener_step l l'"
| remove: "listener_step l (RemoveConn i l)"
| own: "r < length (lsHeap l) \<Longrightarrow> conn_ok c \<Longrightarrow> cnConnID c = cnConnID (lsHeap l ! r) \<Longrightarrow>
    cnRemoteAddr c = cnRemoteAddr (lsHeap l ! r) \<Longrightarrow> cnState c = cnState (lsHeap l ! r) \<Longrightarrow>
    listener_step l (l\<lparr>lsHeap := (lsHeap l)[r := c]\<rparr>)"

inductive_cases listener_stepE: "listener_step l l'"

definition conn_entry :: "Listener \<Rightarrow> u16 \<times> nat \<Rightarrow> bool" where
  "conn_entry l ir \<longleftrightarrow> snd ir < length (lsHeap l) \<and> cnConnID (lsHeap l ! snd ir) = fst ir"

definition listener_ok :: "Listener \<Rightarrow> bool" where
  "listener_ok l \<longleftrightarrow>
     distinct (map fst (lsConns l)) \<and> distinct (map fst (lsByAddr l)) \<and>
     list_all (conn_entry l) (lsConns l) \<and>
     list_all (\<lambda>ar. snd ar < length (lsHeap l)) (lsByAddr l) \<and>
     list_all (\<lambda>c. conn_ok c \<and> cnState c = StateEstablished) (lsHeap l) \<and>
     lsNextID l = 1 + of_nat (length (lsHeap l)) \<and>
     (\<forall>r < length (lsHeap l). cnConnID (lsHeap l ! r) = 1 + of_nat r)"

lemma listener_ok_Listen: "listener_ok (Listen ch)"
  by (simp add: listener_ok_def Listen_def)

lemma HandleReceive_ids [simp]:
  "cnConnID (HandleReceive now pkt c) = cnConnID c"
  "cnRemoteAddr (HandleReceive now pkt c) = cnRemoteAddr c"
  "cnState (HandleReceive now pkt c) = cnState c"
  by (simp_all add: HandleReceive_def Let_def recv_unreliable_def recv_reliable_eq)

lemma conn_ok_addr: "conn_ok c \<Longrightarrow> conn_ok (c\<lparr>cnRemoteAddr := a\<rparr>)"
  by (simp add: conn_ok_def)

lemma conn_ok_state: "conn_ok c \<Longrightarrow> conn_ok (c\<lparr>cnState := s\<rparr>)"
  by (simp add: conn_ok_def)

lemma NewConn_ids [simp]: "cnConnID (NewConn i a ch n t) = i" "cnRemoteAddr (NewConn i a ch n t) = a"
  by (simp_all add: NewConn_def Let_def)

lemma listener_ok_set:
  assumes "listener_ok l" and "r < length (lsHeap l)" and "conn_ok c"
    and "cnConnID c = cnConnID (lsHeap l ! r)" and "cnState c = cnState (lsHeap l ! r)"
  shows "listener_ok (l\<lparr>lsHeap := (lsHeap l)[r := c]\<rparr>)"
  using assms
  by (auto simp: listener_ok_def list_all_length conn_entry_def nth_list_update)

lemma set_update_cases: "x \<in> set (AList.update k v q) \<Longrightarrow> x = (k, v) \<or> x \<in> set q"
  using set_update by fastforce

lemma listener_ok_SYN:
  assumes "listener_ok l"
  shows "listener_ok (fst (handleSYN now a l))"
proof (cases "map_of (lsByAddr l) a")
  case None
  let ?c = "(NewConn (lsNextID l) a (lsChaos l) 0 now)\<lparr>cnState := StateEstablished\<rparr>"
  have new: "conn_ok ?c" by (intro conn_ok_state conn_ok_new)
  have e: "conn_entry l ir \<Longrightarrow> conn_entry (l\<lparr>lsHeap := lsHeap l @ [c], lsNextID := n, lsConns := x, lsByAddr := y\<rparr>) ir"
    for ir c n x y by (simp add: conn_entry_def nth_append)
  show ?thesis
    using assms None new
    unfolding listener_ok_def handleSYN_def Let_def
    by (auto simp: list_all_iff AList.distinct_update nth_append less_Suc_eq conn_entry_def
        dest!: set_update_cases)
next
  case (Some r)
  with assms show ?thesis by (simp add: handleSYN_def)
qed

lemma route_bound: "listener_ok l \<Longrightarrow> route l pkt = Some r \<Longrightarrow> r < length (lsHeap l) \<and> cnConnID (lsHeap l ! r) = pkConnID pkt"
  by (auto simp: route_def GetConn_def listener_ok_def list_all_iff conn_entry_def split: if_splits
      dest!: map_of_SomeD)

lemma listener_ok_packet: "listener_ok l \<Longrightarrow> listener_ok (fst (handlePacket now data a l))"
proof (cases "DecodePacket data")
  case (Inr pkt)
  assume ok: "listener_ok l"
  show ?thesis
  proof (cases "route l pkt")
    case None
    with ok Inr show ?thesis by (simp add: handlePacket_def listener_ok_SYN)
  next
    case (Some r)
    from route_bound [OF ok this] have r: "r < length (lsHeap l)" by simp
    then have "conn_ok (lsHeap l ! r)" using ok by (auto simp: listener_ok_def list_all_length)
    with ok r Some Inr show ?thesis
      by (auto simp: handlePacket_def intro!: listener_ok_set conn_ok_HandleReceive conn_ok_addr)
  qed
qed (simp add: handlePacket_def)

lemma listener_ok_remove: "listener_ok l \<Longrightarrow> listener_ok (RemoveConn i l)"
  by (auto simp: RemoveConn_def listener_ok_def list_all_iff delete_filter distinct_map_filter conn_entry_def
      split: option.split)

lemma listener_ok_step: "listener_step l l' \<Longrightarrow> listener_ok l \<Longrightarrow> listener_ok l'"
  by (auto elim!: listener_stepE intro: listener_ok_packet listener_ok_remove listener_ok_set)

lemma listener_ok_run: "listener_step\<^sup>*\<^sup>* l l' \<Longrightarrow> listener_ok l \<Longrightarrow> listener_ok l'"
  by (induction rule: rtranclp_induct) (auto intro: listener_ok_step)

text \<open>Before the counter wraps, a new connection's identifier is unused and not 0.\<close>

lemma nextID_fresh:
  assumes "listener_ok l" and "length (lsHeap l) < 65535"
  shows "lsNextID l \<noteq> 0" and "map_of (lsConns l) (lsNextID l) = None"
proof -
  have u: "unat (of_nat (Suc k) :: u16) = Suc k" if "k < 65535" for k
    using that by (simp only: unat_of_nat_mod_16) simp
  have n: "lsNextID l = of_nat (Suc (length (lsHeap l)))" using assms(1) by (simp add: listener_ok_def)
  then show "lsNextID l \<noteq> 0" using u [OF assms(2)] by (metis Zero_not_Suc unat_0)
  show "map_of (lsConns l) (lsNextID l) = None"
  proof (rule ccontr)
    assume "map_of (lsConns l) (lsNextID l) \<noteq> None"
    then obtain r where "(lsNextID l, r) \<in> set (lsConns l)" by (auto dest: map_of_SomeD)
    then have r: "r < length (lsHeap l)" "1 + of_nat r = lsNextID l"
      using assms(1) by (auto simp: listener_ok_def list_all_iff conn_entry_def)
    then have "(of_nat (Suc r) :: u16) = of_nat (Suc (length (lsHeap l)))" using n by (metis of_nat_Suc)
    then show False using u [of r] u [OF assms(2)] r(1) assms(2) by (metis Suc_inject less_irrefl less_trans)
  qed
qed

section \<open>The read loop\<close>

text \<open>
  \<^verbatim>\<open>Serve\<close>: each read fills a buffer of 2048 bytes, and UDP drops what does not fit. A
  read error is skipped. The result collects what is sent and the connections announced.
\<close>

fun Serve :: "(int \<times> (byte list \<times> addr) option) list \<Rightarrow> Listener \<Rightarrow> Listener \<times> datagram list \<times> nat list" where
  "Serve [] l = (l, [], [])"
| "Serve ((now, None) # rs) l = Serve rs l"
| "Serve ((now, Some (d, a)) # rs) l =
     (case handlePacket now (take readBufferSize d) a l of (l, out, new) \<Rightarrow>
        (case Serve rs l of (l, outs, news) \<Rightarrow>
           (l, out @ outs, (case new of None \<Rightarrow> news | Some r \<Rightarrow> r # news))))"

lemma Serve_ok: "listener_ok l \<Longrightarrow> listener_ok (fst (Serve rs l))"
proof (induction rs l rule: Serve.induct)
  case (3 now d a rs l)
  then show ?case
    using listener_ok_packet [OF "3.prems", of now "take readBufferSize d" a]
    by (auto split: prod.split)
qed simp_all

section \<open>Properties\<close>

text \<open>C27: from \<open>Listen\<close> on, through any packets, removals and calls on connections: every
  connection is established and well-formed, a packet is routed only to the connection whose id it
  names, and until 65535 connections have been made the next id is not 0 and not in use.\<close>

theorem listener_invariant:
  assumes "listener_step\<^sup>*\<^sup>* (Listen chaos) l"
  shows "list_all (\<lambda>c. conn_ok c \<and> cnState c = StateEstablished) (lsHeap l) \<and>
    (\<forall>pkt r. route l pkt = Some r \<longrightarrow> r < length (lsHeap l) \<and> cnConnID (lsHeap l ! r) = pkConnID pkt) \<and>
    (length (lsHeap l) < 65535 \<longrightarrow> lsNextID l \<noteq> 0 \<and> map_of (lsConns l) (lsNextID l) = None)"
proof -
  have ok: "listener_ok l" by (rule listener_ok_run [OF assms listener_ok_Listen])
  then have "list_all (\<lambda>c. conn_ok c \<and> cnState c = StateEstablished) (lsHeap l)" by (simp add: listener_ok_def)
  with route_bound [OF ok] nextID_fresh [OF ok] show ?thesis by blast
qed

text \<open>Two peers connect, the first moves to another address.\<close>

definition syn :: "byte list" where
  "syn = encodePacket \<lparr>pkFlags = FlagSYN, pkConnID = 0, pkSeq = 0, pkAck = 0, pkAckBitmask = 0, pkPayload = []\<rparr>"

definition ping :: "u16 \<Rightarrow> byte list" where
  "ping i = encodePacket \<lparr>pkFlags = FlagPING, pkConnID = i, pkSeq = 0, pkAck = 0, pkAckBitmask = 0, pkPayload = []\<rparr>"

definition connected :: Listener where
  "connected = fst (handlePacket 0 syn ''b'' (fst (handlePacket 0 syn ''a'' (Listen False))))"

definition migrated :: Listener where
  "migrated = fst (handlePacket 1 (ping 1) ''c'' connected)"

lemma connected_reachable: "listener_step\<^sup>*\<^sup>* (Listen False) connected"
  unfolding connected_def by (meson listener_step.packet r_into_rtranclp rtranclp.rtrancl_into_rtrancl)

lemma connected_facts: "length (lsHeap connected) = 2" "lsConns connected = [(1, 0), (2, 1)]"
  "lsByAddr connected = [(''a'', 0), (''b'', 1)]" "lsNextID connected = 3"
  by code_simp+

theorem listener_invariant_witness:
  "list_all (\<lambda>c. conn_ok c \<and> cnState c = StateEstablished) (lsHeap connected) \<and>
    cnConnID (lsHeap connected ! 1) = 2 \<and> lsNextID connected \<noteq> 0 \<and> map_of (lsConns connected) (lsNextID connected) = None"
proof -
  have "route connected ((data_at 2 [])\<lparr>pkConnID := 2\<rparr>) = Some 1" by (simp add: route_def GetConn_def connected_facts)
  with listener_invariant [OF connected_reachable] show ?thesis unfolding connected_facts(1) by fastforce
qed

text \<open>C28: a datagram concerns one connection. When it names one, that connection handles the packet
  and is bound to the address the datagram came from, whatever that address is; every other
  connection, and every connection when it names none, is left as it was.\<close>

theorem packet_isolation:
  assumes "DecodePacket d = Inr pkt" and "k < length (lsHeap l)"
  shows "lsHeap (fst (handlePacket now d a l)) ! k =
    (if route l pkt = Some k then HandleReceive now pkt ((lsHeap l ! k)\<lparr>cnRemoteAddr := a\<rparr>) else lsHeap l ! k)"
  using assms by (auto simp: handlePacket_def handleSYN_def Let_def nth_append split: option.splits)

lemma DecodePacket_ping: "DecodePacket (ping i) = Inr \<lparr>pkFlags = FlagPING, pkConnID = i, pkSeq = 0,
    pkAck = 0, pkAckBitmask = 0, pkPayload = []\<rparr>"
  using DecodePacket_encode_rest [of _ "[]"] by (simp add: ping_def)

theorem packet_isolation_witness:
  "lsHeap migrated ! 1 = lsHeap connected ! 1 \<and> cnRemoteAddr (lsHeap migrated ! 0) = ''c''"
  using packet_isolation [OF DecodePacket_ping, of 1 connected 1 1 "''c''"]
    packet_isolation [OF DecodePacket_ping, of 0 connected 1 1 "''c''"]
  by (simp add: migrated_def connected_facts route_def GetConn_def)

text \<open>C29: the table by address is not updated when a connection moves. In any reachable state, let a connection
  that is known at address \<open>a\<close> send a packet from another address, and let it then be removed: the first address stays
  bound to it, a SYN from there is answered with the removed connection's id and makes no new
  connection, and packets that name this id are dropped.\<close>

theorem stale_address_after_removal:
  fixes now :: int
  assumes "listener_step\<^sup>*\<^sup>* (Listen chaos) l" and "map_of (lsByAddr l) a = Some r"
    and "DecodePacket d = Inr p" and "route l p = Some r" and "a' \<noteq> a"
  defines "l' \<equiv> RemoveConn (pkConnID p) (fst (handlePacket now d a' l))"
  shows "GetConn l' (pkConnID p) = None \<and> map_of (lsByAddr l') a = Some r \<and> cnConnID (lsHeap l' ! r) = pkConnID p \<and>
    (DecodePacket e = Inr q \<and> route l' q = None \<and> IsSYN q \<longrightarrow>
      handlePacket later e a l' = (l', [synack (lsHeap l' ! r)], None)) \<and>
    (DecodePacket e = Inr q \<and> pkConnID q = pkConnID p \<and> \<not> IsSYN q \<longrightarrow> handlePacket later e b l' = (l', [], None))"
proof -
  have ok: "listener_ok l" by (rule listener_ok_run [OF assms(1) listener_ok_Listen])
  have r: "map_of (lsConns l) (pkConnID p) = Some r" using assms(4) by (simp add: route_def GetConn_def split: if_splits)
  from route_bound [OF ok assms(4)] have b: "r < length (lsHeap l)" "cnConnID (lsHeap l ! r) = pkConnID p" by auto
  let ?c = "HandleReceive now p ((lsHeap l ! r)\<lparr>cnRemoteAddr := a'\<rparr>)"
  have l': "l' = l\<lparr>lsHeap := (lsHeap l)[r := ?c], lsConns := AList.delete (pkConnID p) (lsConns l),
      lsByAddr := AList.delete a' (lsByAddr l)\<rparr>"
    using b by (simp add: l'_def handlePacket_def assms(3,4) RemoveConn_def r)
  have "GetConn l' (pkConnID p) = None" by (simp add: l' GetConn_def AList.delete_conv')
  moreover have "map_of (lsByAddr l') a = Some r" using assms(2,5) by (simp add: l' AList.delete_conv')
  moreover have "cnConnID (lsHeap l' ! r) = pkConnID p" using b by (simp add: l')
  ultimately show ?thesis by (auto simp: handlePacket_def handleSYN_def route_def)
qed

lemma DecodePacket_syn: "DecodePacket syn = Inr \<lparr>pkFlags = FlagSYN, pkConnID = 0, pkSeq = 0, pkAck = 0,
    pkAckBitmask = 0, pkPayload = []\<rparr>"
  using DecodePacket_encode_rest [of _ "[]"] by (simp add: syn_def)

theorem stale_address_after_removal_witness:
  "let l = RemoveConn 1 (fst (handlePacket 1 (ping 1) ''c'' connected))
   in GetConn l 1 = None \<and> map_of (lsByAddr l) ''a'' = Some 0 \<and>
      handlePacket 9 syn ''a'' l = (l, [synack (lsHeap l ! 0)], None) \<and> cnConnID (lsHeap l ! 0) = 1"
proof -
  have a: "map_of (lsByAddr connected) ''a'' = Some 0" and r: "route connected \<lparr>pkFlags = FlagPING, pkConnID = 1, pkSeq = 0,
      pkAck = 0, pkAckBitmask = 0, pkPayload = []\<rparr> = Some 0" by (simp_all add: connected_facts route_def GetConn_def)
  have q: "IsSYN \<lparr>pkFlags = FlagSYN, pkConnID = 0, pkSeq = 0, pkAck = 0, pkAckBitmask = 0, pkPayload = []\<rparr>"
    and n: "route l \<lparr>pkFlags = FlagSYN, pkConnID = 0, pkSeq = 0, pkAck = 0, pkAckBitmask = 0, pkPayload = []\<rparr> = None" for l
    by (simp_all add: IsSYN_def flag_defs route_def)
  from stale_address_after_removal [OF connected_reachable a DecodePacket_ping r, of "''c''" 1 syn
      "\<lparr>pkFlags = FlagSYN, pkConnID = 0, pkSeq = 0, pkAck = 0, pkAckBitmask = 0, pkPayload = []\<rparr>" 9]
  show ?thesis by (simp only: DecodePacket_syn q n Let_def) simp
qed

end
