(* ===== verification/Registry.thy ===== *)
theory Registry
  imports Room
begin

text \<open>
  \<^verbatim>\<open>internal/room/registry.go\<close>: the rooms by id. A room is shared with its goroutine
  through a pointer, so rooms live in a heap; cancelling a room's context stops its goroutine. The
  room that the registry starts satisfies the room invariant, under the conditions on the defaults
  that the lemma states.
\<close>

record Registry =
  rrHeap :: "Room list"
  rrRunning :: "bool list"
  rrRooms :: "(gostring \<times> nat) list"
  rrDefaults :: RoomConfig

definition NewRegistry :: "RoomConfig \<Rightarrow> Registry" where
  "NewRegistry defaults = \<lparr>rrHeap = [], rrRunning = [], rrRooms = [], rrDefaults = defaults\<rparr>"

definition GetOrCreate :: "gostring \<Rightarrow> Registry \<Rightarrow> 'e fault + nat \<times> Registry" where
  "GetOrCreate roomID reg =
     (case map_of (rrRooms reg) roomID of
        Some r \<Rightarrow> Inr (r, reg)
      | None \<Rightarrow>
          (let cfg = (rrDefaults reg)\<lparr>rcRoomID := roomID\<rparr>
           in and_then (NewRoom cfg) (\<lambda>room.
                let room = SpawnInitialUnits 5 room; r = length (rrHeap reg)
                in Inr (r, reg\<lparr>rrHeap := rrHeap reg @ [room], rrRunning := rrRunning reg @ [True],
                                rrRooms := AList.update roomID r (rrRooms reg)\<rparr>))))"

definition GetRoom :: "gostring \<Rightarrow> Registry \<Rightarrow> nat option" where
  "GetRoom roomID reg = map_of (rrRooms reg) roomID"

definition RemoveRoom :: "gostring \<Rightarrow> Registry \<Rightarrow> Registry" where
  "RemoveRoom roomID reg =
     (case map_of (rrRooms reg) roomID of
        None \<Rightarrow> reg
      | Some r \<Rightarrow> reg\<lparr>rrRunning := (rrRunning reg)[r := False],
                      rrRooms := AList.delete roomID (rrRooms reg)\<rparr>)"

definition RoomCount :: "Registry \<Rightarrow> nat" where
  "RoomCount reg = length (rrRooms reg)"

section \<open>The room it starts\<close>

text \<open>Every player's units must lie on the map and the tick rate must be usable.\<close>

definition cfg_ok :: "RoomConfig \<Rightarrow> bool" where
  "cfg_ok cfg \<longleftrightarrow>
     0 < rcTickRate cfg \<and> rcTickRate cfg \<le> Second \<and> 0 < rcPlayerCount cfg \<and>
     10 + 80 * (rcPlayerCount cfg - 1) \<le> sint (rcMapW cfg) \<and> sint (rcMapW cfg) < 32768 \<and>
     22 \<le> sint (rcMapH cfg) \<and> sint (rcMapH cfg) < 32768"

lemma world_ok_SpawnUnit:
  assumes "world_ok w" and "in_range (wMapSizeX w) (vX p)" and "in_range (wMapSizeY w) (vY p)"
    and "0 < sint hp" and "speed_ok sp" and "unat (wNextID w) + 1 < 2 ^ 32"
  shows "world_ok (fst (SpawnUnit w ow p hp sp))"
proof -
  have n: "wNextID w < wNextID w + 1"
    using assms(6) by (simp add: word_less_nat_alt unat_word_ariths)
  then have "list_all (\<lambda>u. uID u < wNextID w + 1) (wUnits w)"
    using assms(1) by (auto simp: world_ok_def list_all_iff intro: less_trans)
  moreover have "wNextID w \<notin> uID ` set (wUnits w)"
    using assms(1) by (auto simp: world_ok_def list_all_iff)
  ultimately show ?thesis
    using assms n by (auto simp: SpawnUnit_def Let_def world_ok_def unit_ok_def)
qed

lemma SpawnUnit_frame [simp]:
  "wMapSizeX (fst (SpawnUnit w ow p hp sp)) = wMapSizeX w"
  "wMapSizeY (fst (SpawnUnit w ow p hp sp)) = wMapSizeY w"
  "wNextID (fst (SpawnUnit w ow p hp sp)) = wNextID w + 1"
  "wTick (fst (SpawnUnit w ow p hp sp)) = wTick w"
  by (simp_all add: SpawnUnit_def Let_def)

lemma sint_FromInt_nat:
  assumes "n < 32768"
  shows "sint (FromInt (of_nat n)) = int n * 65536"
proof -
  have "sint (of_nat n :: i32) = int n" using assms int_word_sint [of "int n", where 'a = 32] by simp
  with sint_FromInt [of "of_nat n :: i32"] assms show ?thesis by simp
qed

lemma spawn_one_ok:
  assumes "world_ok w" and "unat (wNextID w) + 1 < 2 ^ 32"
    and "int (10 + pid * 80) * 65536 \<le> sint (wMapSizeX w)" and "int (10 + i * 3) * 65536 \<le> sint (wMapSizeY w)"
  shows "world_ok (spawn_one w (pid, i))"
proof -
  have b: "sint (wMapSizeX w) < 2 ^ 31" "sint (wMapSizeY w) < 2 ^ 31"
    using sint_lt [of "wMapSizeX w"] sint_lt [of "wMapSizeY w"] by simp_all
  then have "10 + pid * 80 < 32768" "10 + i * 3 < 32768" using assms(3,4) by simp_all
  then have "sint (FromInt (of_nat (10 + pid * 80))) = int (10 + pid * 80) * 65536"
    "sint (FromInt (of_nat (10 + i * 3))) = int (10 + i * 3) * 65536" by (intro sint_FromInt_nat; simp)+
  then have "in_range (wMapSizeX w) (FromInt (of_nat (10 + pid * 80)))"
    "in_range (wMapSizeY w) (FromInt (of_nat (10 + i * 3)))" using assms(3,4) by (simp_all add: in_range_def)
  moreover have "speed_ok 32768" "0 < sint (FromInt 10)" by (simp_all add: speed_ok_def FromInt_def Shift_def)
  ultimately show ?thesis
    using assms(1,2) unfolding spawn_one_def Let_def prod.case by (intro world_ok_SpawnUnit) (simp_all add: V_def)
qed

lemma spawn_one_frame [simp]:
  "wMapSizeX (spawn_one w pi) = wMapSizeX w" "wMapSizeY (spawn_one w pi) = wMapSizeY w"
  "wNextID (spawn_one w pi) = wNextID w + 1" "wTick (spawn_one w pi) = wTick w"
  by (simp_all add: spawn_one_def split: prod.split)

lemma spawn_all_ok:
  assumes "world_ok w" and "unat (wNextID w) + length ps < 2 ^ 32"
    and "\<forall>(pid, i) \<in> set ps. int (10 + pid * 80) * 65536 \<le> sint (wMapSizeX w) \<and>
      int (10 + i * 3) * 65536 \<le> sint (wMapSizeY w)"
  shows "world_ok (foldl spawn_one w ps) \<and> wTick (foldl spawn_one w ps) = wTick w"
  using assms
proof (induction ps arbitrary: w)
  case (Cons p ps)
  obtain pid i where p: "p = (pid, i)" by fastforce
  have "world_ok (spawn_one w p)" unfolding p using Cons.prems by (intro spawn_one_ok) (auto simp: p)
  moreover have "unat (wNextID w + 1) = unat (wNextID w) + 1"
    using Cons.prems(2) by (simp add: unat_word_ariths)
  ultimately show ?case using Cons.IH [of "spawn_one w p"] Cons.prems by simp
qed simp

lemma NewRoom_ok:
  assumes "0 < rcTickRate cfg" and "0 \<le> rcPlayerCount cfg"
  shows "\<exists>t. (NewRoom cfg :: 'e fault + Room) = Inr
      \<lparr>rmCfg = cfg, rmWorld = NewWorld (rcSeed cfg) (rcMapW cfg) (rcMapH cfg),
       rmInputBuf = NewInputBuf, rmHashAgg = NewHashAgg 100 (rcPlayerCount cfg),
       rmAdaptiveN = NewAdaptiveN (rcInitialN cfg) (rcMinN cfg) (rcMaxN cfg) (rcTickRate cfg),
       rmPlayers = replicate (nat (rcPlayerCount cfg)) None, rmTick = 0,
       rmTickInterval = t, rmInbox = [], rmFrameHistory = [], rmMaxHistory = 200,
       rmLimbo = [], rmReplayWriter = None\<rparr>"
  using assms by (simp add: NewRoom_def go_div_def)

text \<open>The room that the registry starts, with five units per player.\<close>

lemma started_room_live:
  assumes "cfg_ok cfg" and "rcPlayerCount cfg \<le> 65536" and "(NewRoom cfg :: 'e fault + Room) = Inr r"
  shows "room_live (SpawnInitialUnits 5 r) \<and> rmTick (SpawnInitialUnits 5 r) = 0 \<and>
    rmFrameHistory (SpawnInitialUnits 5 r) = [] \<and> rmMaxHistory (SpawnInitialUnits 5 r) = 200"
proof -
  let ?n = "nat (rcPlayerCount cfg)"
  let ?ps = "concat (map (\<lambda>pid. map (\<lambda>i. (pid, i)) [0..<5]) [0..<?n])"
  let ?w = "NewWorld (rcSeed cfg) (rcMapW cfg) (rcMapH cfg)"
  from NewRoom_ok [of cfg, where 'e = 'e] assms obtain t where
    r: "r = \<lparr>rmCfg = cfg, rmWorld = ?w,
       rmInputBuf = NewInputBuf, rmHashAgg = NewHashAgg 100 (rcPlayerCount cfg),
       rmAdaptiveN = NewAdaptiveN (rcInitialN cfg) (rcMinN cfg) (rcMaxN cfg) (rcTickRate cfg),
       rmPlayers = replicate ?n None, rmTick = 0,
       rmTickInterval = t, rmInbox = [], rmFrameHistory = [], rmMaxHistory = 200,
       rmLimbo = [], rmReplayWriter = None\<rparr>" by (auto simp: cfg_ok_def)
  have m: "sint (wMapSizeX ?w) = sint (rcMapW cfg) * 65536" "sint (wMapSizeY ?w) = sint (rcMapH cfg) * 65536"
    using assms(1) sint_FromInt [of "rcMapW cfg"] sint_FromInt [of "rcMapH cfg"]
    by (simp_all add: NewWorld_def cfg_ok_def)
  have "world_ok ?w" using m assms(1) by (simp add: world_ok_def NewWorld_def cfg_ok_def)
  moreover have "unat (wNextID ?w) + length ?ps < 2 ^ 32"
    using assms(2) by (simp add: NewWorld_def length_concat comp_def sum_list_triv)
  moreover have "\<forall>(pid, i) \<in> set ?ps. int (10 + pid * 80) * 65536 \<le> sint (wMapSizeX ?w) \<and>
      int (10 + i * 3) * 65536 \<le> sint (wMapSizeY ?w)"
    unfolding m using assms(1) by (auto simp: cfg_ok_def)
  ultimately have w: "world_ok (foldl spawn_one ?w ?ps) \<and> wTick (foldl spawn_one ?w ?ps) = wTick ?w"
    by (rule spawn_all_ok)
  have rw: "rmWorld (SpawnInitialUnits 5 r) = foldl spawn_one ?w ?ps"
    by (simp only: SpawnInitialUnits_def r Room.simps)
  have t0: "wTick ?w = 0" by (simp add: NewWorld_def)
  have "rate_ok (rmAdaptiveN r)" using assms(1) by (simp add: r rate_ok_def NewAdaptiveN_def cfg_ok_def)
  then have "room_ok (SpawnInitialUnits 5 r)"
    unfolding room_ok_def rw using w t0
    by (simp add: SpawnInitialUnits_def r ib_ok_new hagg_ok_new history_ok_def)
  then show ?thesis by (simp add: room_live_def SpawnInitialUnits_def r)
qed

section \<open>The registry's invariant\<close>

definition registry_ok :: "Registry \<Rightarrow> bool" where
  "registry_ok reg \<longleftrightarrow>
     distinct (map fst (rrRooms reg)) \<and> distinct (map snd (rrRooms reg)) \<and>
     length (rrRunning reg) = length (rrHeap reg) \<and>
     list_all (\<lambda>ir. snd ir < length (rrHeap reg) \<and> rcRoomID (rmCfg (rrHeap reg ! snd ir)) = fst ir) (rrRooms reg) \<and>
     (\<forall>r < length (rrHeap reg). rrRunning reg ! r \<longleftrightarrow> r \<in> snd ` set (rrRooms reg))"

lemma registry_ok_new: "registry_ok (NewRegistry d)"
  by (simp add: registry_ok_def NewRegistry_def)

lemma registry_ok_lookup:
  "registry_ok reg \<Longrightarrow> map_of (rrRooms reg) i = Some r \<Longrightarrow>
    r < length (rrHeap reg) \<and> rcRoomID (rmCfg (rrHeap reg ! r)) = i \<and> rrRunning reg ! r"
  by (fastforce simp: registry_ok_def list_all_iff dest: map_of_SomeD intro: rev_image_eqI)

lemma update_new: "k \<notin> fst ` set q \<Longrightarrow> AList.update k v q = q @ [(k, v)]"
  by (induction q) auto

lemma registry_ok_create:
  assumes "registry_ok reg" and "GetOrCreate i reg = (Inr (r, reg') :: 'e fault + _)"
  shows "registry_ok reg' \<and> map_of (rrRooms reg') i = Some r \<and>
    (\<forall>j. j \<noteq> i \<longrightarrow> map_of (rrRooms reg') j = map_of (rrRooms reg) j)"
proof (cases "map_of (rrRooms reg) i")
  case (Some x)
  with assms show ?thesis by (simp add: GetOrCreate_def)
next
  case None
  then have new: "i \<notin> fst ` set (rrRooms reg)" by (simp add: map_of_eq_None_iff)
  let ?cfg = "(rrDefaults reg)\<lparr>rcRoomID := i\<rparr>"
  from assms(2) None obtain room where
    room: "(NewRoom ?cfg :: 'e fault + Room) = Inr room" and
    r: "r = length (rrHeap reg)" and
    reg': "reg' = reg\<lparr>rrHeap := rrHeap reg @ [SpawnInitialUnits 5 room], rrRunning := rrRunning reg @ [True],
      rrRooms := rrRooms reg @ [(i, r)]\<rparr>"
    by (auto simp: GetOrCreate_def Let_def and_then_eq_Inr update_new [OF new])
  have "rmCfg room = ?cfg" using room by (auto simp: NewRoom_def and_then_eq_Inr split: if_splits)
  then have c: "rcRoomID (rmCfg (SpawnInitialUnits 5 room)) = i" by (simp add: SpawnInitialUnits_def)
  have lt: "x < length (rrHeap reg)" if "x \<in> snd ` set (rrRooms reg)" for x
    using assms(1) that by (auto simp: registry_ok_def list_all_iff)
  have "registry_ok reg'"
    using assms(1) new c lt unfolding registry_ok_def reg' r
    by (auto simp: list_all_iff nth_append less_Suc_eq)
  then show ?thesis using None by (auto simp: reg' map_add_def split: option.split)
qed

lemma registry_ok_remove:
  assumes "registry_ok reg"
  shows "registry_ok (RemoveRoom i reg)"
proof (cases "map_of (rrRooms reg) i")
  case None
  with assms show ?thesis by (simp add: RemoveRoom_def)
next
  case (Some r)
  have mem: "(i, r) \<in> set (rrRooms reg)" using Some by (rule map_of_SomeD)
  have d: "distinct (map snd (rrRooms reg))" and df: "distinct (map fst (rrRooms reg))"
    using assms unfolding registry_ok_def by blast+
  have one: "j = i" if "(j, r) \<in> set (rrRooms reg)" for j
  proof -
    have "inj_on snd (set (rrRooms reg))" using d by (simp only: distinct_map)
    from inj_onD [OF this _ that mem] show ?thesis by simp
  qed
  have two: "x = r" if "(i, x) \<in> set (rrRooms reg)" for x
    using map_of_is_SomeI [OF df that] Some by simp
  let ?q = "AList.delete i (rrRooms reg)"
  have im: "snd ` set ?q = snd ` set (rrRooms reg) - {r}"
  proof (rule set_eqI)
    fix x
    have "x \<in> snd ` set ?q \<longleftrightarrow> (\<exists>j. (j, x) \<in> set (rrRooms reg) \<and> j \<noteq> i)"
      unfolding delete_filter by force
    moreover have "x \<in> snd ` set (rrRooms reg) \<longleftrightarrow> (\<exists>j. (j, x) \<in> set (rrRooms reg))" by force
    ultimately show "x \<in> snd ` set ?q \<longleftrightarrow> x \<in> snd ` set (rrRooms reg) - {r}"
      using one two mem by blast
  qed
  have reg': "RemoveRoom i reg = reg\<lparr>rrRunning := (rrRunning reg)[r := False], rrRooms := ?q\<rparr>"
    using Some by (simp add: RemoveRoom_def)
  have "distinct (map fst ?q)" "distinct (map snd ?q)"
    using d df by (simp_all add: delete_filter distinct_map_filter)
  moreover have "set ?q \<subseteq> set (rrRooms reg)" by (auto simp: delete_filter)
  moreover have "(rrRunning reg)[r := False] ! x \<longleftrightarrow> x \<in> snd ` set ?q" if "x < length (rrHeap reg)" for x
  proof -
    from assms that have "rrRunning reg ! x \<longleftrightarrow> x \<in> snd ` set (rrRooms reg)"
      "x < length (rrRunning reg)" unfolding registry_ok_def by simp_all
    then show ?thesis unfolding im by (cases "x = r") simp_all
  qed
  ultimately show ?thesis
    using assms unfolding reg' registry_ok_def list_all_iff by (simp add: subset_iff) fast
qed

section \<open>A room in use\<close>

text \<open>The server's default configuration, and the room it starts.\<close>

definition two_players :: RoomConfig where
  "two_players = \<lparr>rcRoomID = [97, 114], rcSeed = 42, rcMapW = 100, rcMapH = 100, rcTickRate = 20,
     rcInitialN = 3, rcMinN = 2, rcMaxN = 6, rcPlayerCount = 2\<rparr>"

lemma two_players_ok: "cfg_ok two_players" "rcPlayerCount two_players \<le> 65536"
  by (simp_all add: cfg_ok_def two_players_def Second_def)

definition arena :: Room where
  "arena = (case (NewRoom two_players :: unit fault + Room) of Inr r \<Rightarrow> SpawnInitialUnits 5 r)"

lemma arena_live: "room_live arena" "rmTick arena = 0" "rmFrameHistory arena = []" "rmMaxHistory arena = 200"
proof -
  obtain r where r: "(NewRoom two_players :: unit fault + Room) = Inr r"
    using NewRoom_ok [of two_players, where 'e = unit] two_players_ok by (auto simp: cfg_ok_def)
  from started_room_live [OF two_players_ok r] r
  show "room_live arena" "rmTick arena = 0" "rmFrameHistory arena = []" "rmMaxHistory arena = 200"
    by (simp_all add: arena_def)
qed

lemma arena_eq:
  "\<exists>r0. (NewRoom two_players :: unit fault + Room) = Inr r0 \<and> arena = SpawnInitialUnits 5 r0"
  using NewRoom_ok [of two_players, where 'e = unit] two_players_ok by (auto simp: arena_def cfg_ok_def)

text \<open>A live room can always seal its next tick.\<close>

lemma room_can_tick:
  assumes "room_live r"
  shows "\<exists>fb r'. room_step r [fb] r' \<and> rmPlayers r' = rmPlayers r"
proof -
  from drainInbox_ok [OF assms, where 'e = unit] obtain r1 where
    r1: "drainInbox r = (Inr r1 :: unit fault + Room)" "room_live r1" "rmPlayers r1 = rmPlayers r" by blast
  from sealTick_ok [of r1 0 True, where 'e = unit] r1(2) obtain out r2 where
    r2: "sealTick 0 True r1 = (Inr (out, r2) :: unit fault + _)" "rmPlayers r2 = rmPlayers r1"
    by (auto simp: room_live_def)
  from room_step.tick [OF r1(1) r2(1)] r1(3) r2(2) show ?thesis by metis
qed

lemma room_can_run:
  assumes "room_live r"
  shows "\<exists>fs r'. room_run r fs r' \<and> length fs = n \<and> rmPlayers r' = rmPlayers r"
proof (induction n)
  case 0
  show ?case using room_run.none by blast
next
  case (Suc n)
  then obtain fs r' where r': "room_run r fs r'" "length fs = n" "rmPlayers r' = rmPlayers r" by blast
  with room_run_sealed [OF r'(1) assms] room_can_tick [of r'] obtain fb r'' where
    r'': "room_step r' [fb] r''" "rmPlayers r'' = rmPlayers r'" by blast
  from room_run.more [OF r'(1) r''(1)] r'(2,3) r''(2) show ?case by (intro exI [of _ "fs @ [fb]"]) auto
qed

section \<open>Properties\<close>

text \<open>C12: sealing a tick always succeeds. It sends the frame with the sealed commands and the current
  delay first and to every joined player, steps the world by exactly these commands, appends the
  frame to the bounded history, removes the commands from the buffer and keeps the room's
  invariant.\<close>

theorem sealTick_effect:
  assumes "room_ok r"
  shows "\<exists>pubs r' w. (sealTick now writeOk r :: 'e fault + _) =
      Inr (broadcast (MFrameBundle (next_frame r)) r @ pubs, r') \<and> room_ok r' \<and>
    (Step (rmWorld r) (wireCmdsToSimCmds (fbCmds (next_frame r))) :: 'e fault + _) = Inr w \<and>
    rmWorld r' = w \<and> rmTick r' = rmTick r + 1 \<and>
    rmFrameHistory r' = last_n (rmMaxHistory r) (rmFrameHistory r @ [next_frame r]) \<and>
    rmInputBuf r' = snd (ibSeal (rmTick r + 1) (rmInputBuf r)) \<and> rmPlayers r' = rmPlayers r"
  using sealTick_ok [OF assms, of now writeOk, where 'e = 'e] by blast

theorem sealTick_effect_witness:
  "\<exists>out r'. (sealTick 5 True arena :: unit fault + _) = Inr (out, r') \<and> room_ok r' \<and> rmTick r' = 1"
proof -
  have "room_ok arena" using arena_live(1) by (simp add: room_live_def)
  from sealTick_effect [OF this, of 5 True, where 'e = unit] show ?thesis using arena_live(2) by auto
qed

text \<open>C11: the room refines the bare simulation. Whatever messages, joins, disconnections and resumes
  happen in between, the world of a live room after the frames \<open>fs\<close> is the simulation run on
  their commands, the frames have consecutive ticks, and the history is the last 200 of them.\<close>

theorem room_refines_simulation:
  assumes "room_live r" and "room_run r fs r'"
  shows "sim.run (rmWorld r) (map frame_cmds fs) = (Inr (rmWorld r') :: unit fault + World) \<and>
    map fbTick fs = map (\<lambda>i. rmTick r + 1 + of_nat i) [0..<length fs] \<and>
    rmTick r' = rmTick r + of_nat (length fs) \<and> wTick (rmWorld r') = rmTick r' \<and>
    rmFrameHistory r' = last_n (rmMaxHistory r) (rmFrameHistory r @ fs) \<and> room_live r'"
proof -
  from room_run_sealed [OF assms(2,1)] have l: "room_live r'" and s: "sealed_by r fs r'" by auto
  from l have "wTick (rmWorld r') = rmTick r'" by (simp add: room_live_def room_ok_def)
  with l s show ?thesis unfolding sealed_by_def by blast
qed

theorem room_refines_simulation_witness:
  "\<exists>fs r'. length fs = 3 \<and> room_run arena fs r' \<and>
    sim.run (rmWorld arena) (map frame_cmds fs) = (Inr (rmWorld r') :: unit fault + World) \<and>
    rmFrameHistory r' = last_n 200 fs"
proof -
  obtain fs r' where r: "room_run arena fs r'" "length fs = 3" using room_can_run [OF arena_live(1)] by blast
  from room_refines_simulation [OF arena_live(1) r(1)] r show ?thesis using arena_live by auto
qed

text \<open>A live room is never stuck: from every state it reaches it can seal any number of further
  ticks.\<close>

theorem room_never_stuck:
  assumes "room_live r" and "room_run r fs r'"
  shows "\<exists>gs r''. room_run r' gs r'' \<and> length gs = n \<and> rmTick r'' = rmTick r' + of_nat n"
proof -
  have l: "room_live r'" using room_run_sealed [OF assms(2,1)] by blast
  from room_can_run [OF l] obtain gs r'' where g: "room_run r' gs r''" "length gs = n" by blast
  with room_run_sealed [OF g(1) l] show ?thesis by (auto simp: sealed_by_def)
qed

theorem room_never_stuck_witness:
  "\<exists>gs r''. room_run arena gs r'' \<and> length gs = 7 \<and> rmTick r'' = rmTick arena + of_nat 7"
  by (rule room_never_stuck [OF arena_live(1) room_run.none])

text \<open>The owner that a command names is taken from the message, not from the connection it came
  on: a command that player \<open>p\<close> sends for the next tick in another player's name is in the
  next frame.\<close>

theorem command_owner_unchecked:
  assumes "handleMsg \<lparr>rgPlayerID = p, rgType = MsgCmd, rgData = MCmd cmd\<rparr> r = (Inr r' :: 'e fault + Room)"
    and "cmTick cmd = rmTick r + 1"
  shows "cmd \<in> set (fbCmds (next_frame r')) \<and> cPlayer (wireCmdToSimCmd cmd) = cmPlayer cmd"
  using assms by (auto simp: handleMsg_def next_frame_def bucket_Add wireCmdToSimCmd_def)

theorem command_owner_unchecked_witness:
  "let cmd = \<lparr>cmTick = 1, cmPlayer = 0, cmOp = CmdMove, cmUnitID = 1, cmTargetX = 0, cmTargetY = 0, cmTargetID = 0\<rparr>
   in cmd \<in> set (fbCmds (next_frame (arena\<lparr>rmInputBuf := ibAdd cmd (rmInputBuf arena)\<rparr>))) \<and>
      cPlayer (wireCmdToSimCmd cmd) = 0"
  using command_owner_unchecked [of 1 "\<lparr>cmTick = 1, cmPlayer = 0, cmOp = CmdMove, cmUnitID = 1,
      cmTargetX = 0, cmTargetY = 0, cmTargetID = 0\<rparr>" arena _, where 'e = unit] arena_live(2)
  by (simp add: handleMsg_def Let_def)

text \<open>The registry gives one running room per id. Under a usable configuration the room it creates
  is live at tick 0, other rooms are untouched, and removing a room keeps the tables consistent.\<close>

theorem registry_rooms:
  assumes "registry_ok reg" and "cfg_ok (rrDefaults reg)" and "rcPlayerCount (rrDefaults reg) \<le> 65536"
    and "(GetOrCreate i reg :: 'e fault + _) = Inr (k, reg')"
  shows "registry_ok reg' \<and> GetRoom i reg' = Some k \<and> rrRunning reg' ! k \<and>
    (\<forall>j. j \<noteq> i \<longrightarrow> GetRoom j reg' = GetRoom j reg) \<and>
    (GetRoom i reg = None \<longrightarrow> room_live (rrHeap reg' ! k) \<and> rmTick (rrHeap reg' ! k) = 0) \<and>
    registry_ok (RemoveRoom j reg')"
proof -
  note c = registry_ok_create [OF assms(1,4)]
  moreover have "room_live (rrHeap reg' ! k) \<and> rmTick (rrHeap reg' ! k) = 0" if "GetRoom i reg = None"
  proof -
    let ?cfg = "(rrDefaults reg)\<lparr>rcRoomID := i\<rparr>"
    from assms(4) that obtain room where room: "(NewRoom ?cfg :: 'e fault + Room) = Inr room"
      and k: "k = length (rrHeap reg)" and h: "rrHeap reg' = rrHeap reg @ [SpawnInitialUnits 5 room]"
      by (auto simp: GetOrCreate_def GetRoom_def Let_def and_then_eq_Inr)
    have "cfg_ok ?cfg" "rcPlayerCount ?cfg \<le> 65536" using assms(2,3) by (simp_all add: cfg_ok_def)
    from started_room_live [OF this room] show ?thesis by (simp add: k h)
  qed
  ultimately show ?thesis using registry_ok_lookup registry_ok_remove by (auto simp: GetRoom_def)
qed

theorem registry_rooms_witness:
  "\<exists>k reg'. (GetOrCreate [97, 114] (NewRegistry two_players) :: unit fault + _) = Inr (k, reg') \<and>
    registry_ok reg' \<and> GetRoom [97, 114] reg' = Some k \<and> room_live (rrHeap reg' ! k)"
proof -
  obtain room where "(NewRoom two_players :: unit fault + Room) = Inr room"
    using NewRoom_ok [of two_players, where 'e = unit] two_players_ok by (auto simp: cfg_ok_def)
  moreover have "two_players\<lparr>rcRoomID := [97, 114]\<rparr> = two_players" by (simp add: two_players_def)
  ultimately obtain k reg' where
    g: "(GetOrCreate [97, 114] (NewRegistry two_players) :: unit fault + _) = Inr (k, reg')"
    by (simp add: GetOrCreate_def NewRegistry_def Let_def)
  from registry_rooms [OF registry_ok_new _ _ g] g two_players_ok show ?thesis
    by (auto simp: NewRegistry_def GetRoom_def)
qed

end
