(* ===== verification/Server.thy ===== *)
theory Server
  imports Registry Conn
begin

text \<open>
  \<^verbatim>\<open>handleConnection\<close> of \<^verbatim>\<open>cmd/server/main.go\<close>: the goroutine that takes a
  connection from its first message to a place in a room and then forwards what it decodes. Each
  receive from the connection's inbox, or its timeout, is one step of the session; the registry is
  shared. The name made for a room without one comes from the clock and is an argument.
\<close>

datatype phase = WaitHello | WaitJoin | Forwarding nat u8 | Done

record Session =
  ssConn :: nat
  ssPhase :: phase

text \<open>The bytes handed to \<^verbatim>\<open>conn.Send\<close>, and the message to put in a room's inbox.\<close>

datatype action = Reply "byte list" | Forward nat RoomMsg

definition helloAck :: "RoomConfig \<Rightarrow> Hello \<Rightarrow> HelloAck" where
  "helloAck defaults hello =
     \<lparr>haProtocolVersion = ProtocolVersion, haServerTickRate = word_of_int (rcTickRate defaults),
      haAccepted = (heProtocolVersion hello = ProtocolVersion)\<rparr>"

definition on_hello ::
  "RoomConfig \<Rightarrow> byte list option \<Rightarrow> Session \<Rightarrow> wire_error fault + action list \<times> Session" where
  "on_hello defaults data s =
     (case data of
        None \<Rightarrow> Inr ([], s\<lparr>ssPhase := Done\<rparr>)
      | Some d \<Rightarrow>
          (case Decode d of
             Inl Panic \<Rightarrow> Inl Panic
           | Inl (Err e) \<Rightarrow> Inr ([], s\<lparr>ssPhase := Done\<rparr>)
           | Inr (t, m) \<Rightarrow>
               if t \<noteq> MsgHello then Inr ([], s\<lparr>ssPhase := Done\<rparr>)
               else (case m of
                   MHello hello \<Rightarrow>
                     (let ack = helloAck defaults hello
                      in Inr ([Reply (encode_or_nil (MHelloAck ack))],
                           s\<lparr>ssPhase := (if \<not> haAccepted ack then Done else WaitJoin)\<rparr>))
                 | _ \<Rightarrow> Inl Panic)))"

definition on_join ::
  "RoomConfig \<Rightarrow> gostring \<Rightarrow> byte list option \<Rightarrow> Registry \<Rightarrow> Session \<Rightarrow>
    wire_error fault + action list \<times> Registry \<times> Session" where
  "on_join defaults genID data reg s =
     (case data of
        None \<Rightarrow> Inr ([], reg, s\<lparr>ssPhase := Done\<rparr>)
      | Some d \<Rightarrow>
          (case Decode d of
             Inl Panic \<Rightarrow> Inl Panic
           | Inl (Err e) \<Rightarrow> Inr ([], reg, s\<lparr>ssPhase := Done\<rparr>)
           | Inr (t, m) \<Rightarrow>
               if t \<noteq> MsgJoinRoom then Inr ([], reg, s\<lparr>ssPhase := Done\<rparr>)
               else (case m of
                   MJoinRoom join \<Rightarrow>
                     (let roomID = (if jrRoomID join = [] then genID else jrRoomID join)
                      in and_then (GetOrCreate roomID reg) (\<lambda>(rm, reg).
                           case AddPlayer (ssConn s) (rrHeap reg ! rm) of ((playerID, ok), room) \<Rightarrow>
                             if \<not> ok then
                               Inr ([Reply (encode_or_nil (MJoinAck
                                       \<lparr>jaRoomID = roomID, jaPlayerID = 0, jaSeed = 0, jaMapW = 0,
                                        jaMapH = 0, jaAccepted = False\<rparr>))],
                                    reg, s\<lparr>ssPhase := Done\<rparr>)
                             else
                               Inr ([Reply (encode_or_nil (MJoinAck
                                       \<lparr>jaRoomID = roomID, jaPlayerID = playerID,
                                        jaSeed = rcSeed defaults, jaMapW = rcMapW defaults,
                                        jaMapH = rcMapH defaults, jaAccepted = True\<rparr>))],
                                    reg\<lparr>rrHeap := (rrHeap reg)[rm := room]\<rparr>,
                                    s\<lparr>ssPhase := Forwarding rm playerID\<rparr>)))
                 | _ \<Rightarrow> Inl Panic)))"

definition on_data :: "byte list \<Rightarrow> nat \<Rightarrow> u8 \<Rightarrow> wire_error fault + action list" where
  "on_data d rm playerID =
     (case Decode d of
        Inl Panic \<Rightarrow> Inl Panic
      | Inl (Err e) \<Rightarrow> Inr []
      | Inr (t, m) \<Rightarrow> Inr [Forward rm \<lparr>rgPlayerID = playerID, rgType = t, rgData = m\<rparr>])"

definition session_step ::
  "RoomConfig \<Rightarrow> gostring \<Rightarrow> byte list option \<Rightarrow> Registry \<Rightarrow> Session \<Rightarrow>
    wire_error fault + action list \<times> Registry \<times> Session" where
  "session_step defaults genID data reg s =
     (case ssPhase s of
        WaitHello \<Rightarrow> and_then (on_hello defaults data s) (\<lambda>(as, s). Inr (as, reg, s))
      | WaitJoin \<Rightarrow> on_join defaults genID data reg s
      | Forwarding rm playerID \<Rightarrow>
          (case data of
             None \<Rightarrow> Inr ([], reg, s)
           | Some d \<Rightarrow> and_then (on_data d rm playerID) (\<lambda>as. Inr (as, reg, s)))
      | Done \<Rightarrow> Inr ([], reg, s))"

fun session_run ::
  "RoomConfig \<Rightarrow> gostring \<Rightarrow> byte list option list \<Rightarrow> Registry \<Rightarrow> Session \<Rightarrow>
    wire_error fault + action list \<times> Registry \<times> Session" where
  "session_run defaults genID [] reg s = Inr ([], reg, s)"
| "session_run defaults genID (d # ds) reg s =
     and_then (session_step defaults genID d reg s) (\<lambda>(as, reg, s).
       and_then (session_run defaults genID ds reg s) (\<lambda>(bs, reg, s). Inr (as @ bs, reg, s)))"

definition new_session :: "nat \<Rightarrow> Session" where
  "new_session conn = \<lparr>ssConn = conn, ssPhase = WaitHello\<rparr>"

section \<open>The handshake\<close>

lemma Decode_Encode_nil: "wire_ok m \<Longrightarrow> Decode (encode_or_nil m) = Inr (msg_type m, m)"
  using Decode_Encode_rest [of m "[]"] by (auto simp: encode_or_nil_def)

lemma on_hello_reply:
  assumes "length (hePlayerName h) \<le> 32"
  shows "on_hello defaults (Some (encode_or_nil (MHello h))) s =
    Inr ([Reply (encode_or_nil (MHelloAck (helloAck defaults h)))],
      s\<lparr>ssPhase := (if heProtocolVersion h = ProtocolVersion then WaitJoin else Done)\<rparr>)"
  using assms Decode_Encode_nil [of "MHello h"]
  by (auto simp: on_hello_def Let_def helloAck_def)

lemma free_slot_Some:
  "free_slot ps = Some i \<Longrightarrow> i < length ps \<and> ps ! i = None \<and> (\<forall>j < i. ps ! j \<noteq> None)"
proof (induction ps arbitrary: i rule: free_slot.induct)
  case (3 p ps)
  then obtain k where k: "i = Suc k" "free_slot ps = Some k" by auto
  with "3.IH" have "k < length ps \<and> ps ! k = None \<and> (\<forall>j < k. ps ! j \<noteq> None)" by blast
  with k show ?case by (auto simp: less_Suc_eq_0_disj)
qed auto

lemma free_slot_None: "free_slot ps = None \<longleftrightarrow> None \<notin> set ps"
  by (induction ps rule: free_slot.induct) auto

text \<open>The slots taken carry their own number and are never given twice.\<close>

definition slots_ok :: "PlayerSlot option list \<Rightarrow> bool" where
  "slots_ok ps \<longleftrightarrow> (\<forall>i < length ps. \<forall>s. ps ! i = Some s \<longrightarrow> psPlayerID s = of_nat i)"

lemma AddPlayer_slots:
  assumes "slots_ok (rmPlayers r)" and "AddPlayer c r = ((p, ok), r')"
  shows "slots_ok (rmPlayers r') \<and> (ok \<longrightarrow> (\<exists>i < length (rmPlayers r). p = of_nat i \<and>
      rmPlayers r ! i = None \<and> rmPlayers r' ! i = Some \<lparr>psPlayerID = p, psConn = Some c, psJoined = True\<rparr>)) \<and>
    (\<not> ok \<longrightarrow> r' = r \<and> None \<notin> set (rmPlayers r))"
proof (cases "free_slot (rmPlayers r)")
  case None
  with assms show ?thesis by (simp add: AddPlayer_def free_slot_None)
next
  case (Some i)
  from free_slot_Some [OF Some] have i: "i < length (rmPlayers r)" "rmPlayers r ! i = None" by auto
  with assms Some show ?thesis by (auto simp: AddPlayer_def slots_ok_def nth_list_update split: if_splits)
qed

text \<open>No message panics a session; a forwarded message carries the session's player and the type
  its payload has.\<close>

lemma GetOrCreate_no_panic:
  assumes "cfg_ok (rrDefaults reg)"
  shows "\<exists>rm reg'. (GetOrCreate i reg :: 'e fault + _) = Inr (rm, reg') \<and> rrDefaults reg' = rrDefaults reg"
proof (cases "map_of (rrRooms reg) i")
  case None
  have "0 < rcTickRate ((rrDefaults reg)\<lparr>rcRoomID := i\<rparr>)" "0 \<le> rcPlayerCount ((rrDefaults reg)\<lparr>rcRoomID := i\<rparr>)"
    using assms by (simp_all add: cfg_ok_def)
  from NewRoom_ok [OF this, where 'e = 'e] show ?thesis using None by (auto simp: GetOrCreate_def Let_def)
qed (simp add: GetOrCreate_def)

lemma session_step_ok:
  assumes "cfg_ok (rrDefaults reg)"
  shows "\<exists>as reg' s'. session_step defaults genID d reg s = Inr (as, reg', s') \<and>
    rrDefaults reg' = rrDefaults reg \<and> ssConn s' = ssConn s \<and>
    (\<forall>rm m. Forward rm m \<in> set as \<longrightarrow> msg_ok m \<and> ssPhase s = Forwarding rm (rgPlayerID m))"
proof -
  have dec: "(\<exists>e. Decode x = Inl (Err e)) \<or> (\<exists>m. Decode x = Inr (msg_type m, m))" for x
  proof (cases "Decode x")
    case (Inl e)
    with Decode_never_panics [of x] show ?thesis by (cases e) (auto simp: no_panic_iff)
  next
    case (Inr y)
    with Decode_msg_type [of x "fst y" "snd y"] show ?thesis by (cases y) auto
  qed
  show ?thesis
  proof (cases "ssPhase s")
    case WaitHello
    show ?thesis
    proof (cases d)
      case (Some x)
      from dec [of x] show ?thesis
      proof
        assume "\<exists>m. Decode x = Inr (msg_type m, m)"
        then obtain m where "Decode x = Inr (msg_type m, m)" by blast
        then show ?thesis using WaitHello Some
          by (cases m) (simp_all add: session_step_def on_hello_def msg_type_defs Let_def)
      qed (use WaitHello Some in \<open>auto simp: session_step_def on_hello_def\<close>)
    qed (use WaitHello in \<open>simp add: session_step_def on_hello_def\<close>)
  next
    case WaitJoin
    show ?thesis
    proof (cases d)
      case (Some x)
      from dec [of x] show ?thesis
      proof
        assume "\<exists>m. Decode x = Inr (msg_type m, m)"
        then obtain m where m: "Decode x = Inr (msg_type m, m)" by blast
        show ?thesis
        proof (cases "\<exists>j. m = MJoinRoom j")
          case True
          then obtain j where j: "m = MJoinRoom j" by blast
          let ?id = "if jrRoomID j = [] then genID else jrRoomID j"
          from GetOrCreate_no_panic [OF assms, of ?id, where 'e = wire_error] obtain rm reg' where
            g: "(GetOrCreate ?id reg :: wire_error fault + _) = Inr (rm, reg')" "rrDefaults reg' = rrDefaults reg" by blast
          obtain p ok room where a: "AddPlayer (ssConn s) (rrHeap reg' ! rm) = ((p, ok), room)"
            by (metis prod.exhaust)
          show ?thesis using WaitJoin Some m g a
            by (simp add: session_step_def on_join_def j Let_def msg_type_defs)
        next
          case False
          then have "msg_type m \<noteq> MsgJoinRoom" by (cases m) (auto simp: msg_type_defs)
          with WaitJoin Some m show ?thesis by (simp add: session_step_def on_join_def)
        qed
      qed (use WaitJoin Some in \<open>auto simp: session_step_def on_join_def\<close>)
    qed (use WaitJoin in \<open>simp add: session_step_def on_join_def\<close>)
  next
    case (Forwarding rm p)
    show ?thesis
    proof (cases d)
      case (Some x)
      with dec [of x] Forwarding show ?thesis
        by (auto simp: session_step_def on_data_def msg_ok_def)
    qed (simp add: session_step_def Forwarding)
  qed (simp add: session_step_def)
qed

section \<open>Properties\<close>

text \<open>C23: no sequence of received bytes and time-outs panics the goroutine of a connection, and every
  message it forwards to a room carries the type of its payload, so the room's type assertions
  hold.\<close>

theorem session_never_panics:
  assumes "cfg_ok (rrDefaults reg)"
  shows "\<exists>as reg' s'. session_run defaults genID ds reg s = Inr (as, reg', s') \<and>
    (\<forall>rm m. Forward rm m \<in> set as \<longrightarrow> msg_ok m)"
  using assms
proof (induction ds arbitrary: reg s)
  case (Cons d ds)
  from session_step_ok [OF Cons.prems, of defaults genID d s] obtain as reg1 s1 where
    s1: "session_step defaults genID d reg s = Inr (as, reg1, s1)" "rrDefaults reg1 = rrDefaults reg"
      "\<forall>rm m. Forward rm m \<in> set as \<longrightarrow> msg_ok m" by blast
  from Cons.IH [of reg1 s1] Cons.prems s1 show ?case by auto
qed simp

theorem session_never_panics_witness:
  "\<exists>as reg' s'. session_run two_players [49] [Some [1, 2, 3], None, Some []] (NewRegistry two_players) (new_session 0) =
      Inr (as, reg', s') \<and> (\<forall>rm m. Forward rm m \<in> set as \<longrightarrow> msg_ok m)"
  by (rule session_never_panics) (simp add: NewRegistry_def two_players_ok)

text \<open>The handshake. A peer that says hello with the server's version and joins a room that does
  not exist yet is answered with two messages that decode to an acceptance and to a join with the
  seed and map of the configuration, takes slot 0 of a new room and goes on to forward.\<close>

theorem handshake_accepts:
  assumes "cfg_ok (rrDefaults reg)" and "length name \<le> 32" and "i \<noteq> []" and "length i \<le> 32"
    and "map_of (rrRooms reg) i = None"
  defines "ack \<equiv> helloAck (rrDefaults reg) \<lparr>heProtocolVersion = ProtocolVersion, hePlayerName = name\<rparr>"
    and "join \<equiv> \<lparr>jaRoomID = i, jaPlayerID = 0, jaSeed = rcSeed (rrDefaults reg), jaMapW = rcMapW (rrDefaults reg),
      jaMapH = rcMapH (rrDefaults reg), jaAccepted = True\<rparr>"
  shows "\<exists>d1 d2 rm reg'. session_run (rrDefaults reg) genID
      [Some (encode_or_nil (MHello \<lparr>heProtocolVersion = ProtocolVersion, hePlayerName = name\<rparr>)),
       Some (encode_or_nil (MJoinRoom \<lparr>jrRoomID = i\<rparr>))] reg (new_session c) =
      Inr ([Reply d1, Reply d2], reg', \<lparr>ssConn = c, ssPhase = Forwarding rm 0\<rparr>) \<and>
    Decode d1 = Inr (MsgHelloAck, MHelloAck ack) \<and> haAccepted ack \<and>
    Decode d2 = Inr (MsgJoinAck, MJoinAck join) \<and>
    rmPlayers (rrHeap reg' ! rm) ! 0 = Some \<lparr>psPlayerID = 0, psConn = Some c, psJoined = True\<rparr>"
proof -
  let ?cfg = "(rrDefaults reg)\<lparr>rcRoomID := i\<rparr>"
  have "0 < rcTickRate ?cfg" "0 \<le> rcPlayerCount ?cfg" "0 < nat (rcPlayerCount ?cfg)"
    using assms(1) by (simp_all add: cfg_ok_def)
  with NewRoom_ok [of ?cfg, where 'e = wire_error] obtain room where
    room: "(NewRoom ?cfg :: wire_error fault + Room) = Inr room"
      "rmPlayers room = replicate (nat (rcPlayerCount ?cfg)) None" by auto
  let ?room = "SpawnInitialUnits 5 room"
  obtain n where "nat (rcPlayerCount ?cfg) = Suc n" using \<open>0 < nat _\<close> by (metis Suc_pred)
  with room(2) have ps: "rmPlayers ?room = None # replicate n None" by (simp add: SpawnInitialUnits_def)
  have g: "(GetOrCreate i reg :: wire_error fault + _) = Inr (length (rrHeap reg),
      reg\<lparr>rrHeap := rrHeap reg @ [?room], rrRunning := rrRunning reg @ [True],
        rrRooms := AList.update i (length (rrHeap reg)) (rrRooms reg)\<rparr>)"
    using assms(5) room(1) by (simp add: GetOrCreate_def Let_def)
  have h: "on_hello (rrDefaults reg) (Some (encode_or_nil (MHello \<lparr>heProtocolVersion = ProtocolVersion, hePlayerName = name\<rparr>)))
      (new_session c) = Inr ([Reply (encode_or_nil (MHelloAck ack))], \<lparr>ssConn = c, ssPhase = WaitJoin\<rparr>)"
    using assms(2) by (simp add: on_hello_reply ack_def new_session_def)
  have j: "Decode (encode_or_nil (MJoinRoom \<lparr>jrRoomID = i\<rparr>)) = Inr (MsgJoinRoom, MJoinRoom \<lparr>jrRoomID = i\<rparr>)"
    using Decode_Encode_nil [of "MJoinRoom \<lparr>jrRoomID = i\<rparr>"] assms(4) by simp
  have "Decode (encode_or_nil (MHelloAck ack)) = Inr (MsgHelloAck, MHelloAck ack)"
    using Decode_Encode_nil [of "MHelloAck ack"] by simp
  moreover have "haAccepted ack" by (simp add: ack_def helloAck_def)
  moreover have "Decode (encode_or_nil (MJoinAck join)) = Inr (MsgJoinAck, MJoinAck join)"
    using Decode_Encode_nil [of "MJoinAck join"] assms(4) by (simp add: join_def)
  ultimately show ?thesis
    using h assms(3)
    by (simp add: session_step_def on_join_def j g AddPlayer_def ps new_session_def Let_def join_def)
qed

theorem handshake_accepts_witness:
  "\<exists>d1 d2 rm reg'. session_run two_players [49]
      [Some (encode_or_nil (MHello \<lparr>heProtocolVersion = ProtocolVersion, hePlayerName = [98, 111, 116]\<rparr>)),
       Some (encode_or_nil (MJoinRoom \<lparr>jrRoomID = [97, 114]\<rparr>))] (NewRegistry two_players) (new_session 4) =
      Inr ([Reply d1, Reply d2], reg', \<lparr>ssConn = 4, ssPhase = Forwarding rm 0\<rparr>) \<and>
    Decode d2 = Inr (MsgJoinAck, MJoinAck \<lparr>jaRoomID = [97, 114], jaPlayerID = 0, jaSeed = 42, jaMapW = 100,
      jaMapH = 100, jaAccepted = True\<rparr>)"
proof -
  have d: "rrDefaults (NewRegistry two_players) = two_players" "rrRooms (NewRegistry two_players) = []"
    by (simp_all add: NewRegistry_def)
  have c: "rcSeed two_players = 42" "rcMapW two_players = 100" "rcMapH two_players = 100"
    by (simp_all add: two_players_def)
  show ?thesis
    using handshake_accepts [of "NewRegistry two_players" "[98, 111, 116]" "[97, 114]" "[49]" 4]
      two_players_ok(1) unfolding d c by (simp del: session_run.simps) blast
qed

end
