(* ===== verification/System.thy ===== *)
theory System
  imports Listener Server Client
begin

text \<open>
  The running server: \<^verbatim>\<open>cmd/server/main.go\<close> puts the listener, the registry, one
  goroutine per connection (\<^verbatim>\<open>handleConnection\<close>), one per room and the
  retransmission ticker over shared state. An event lets one of them do its next thing; a run is a
  list of events. Two logs record what was given to each connection's \<^verbatim>\<open>Send\<close> and
  the frames each room sealed; nothing reads them.
\<close>

section \<open>The server's state\<close>

text \<open>A session with the actions that its goroutine has decided on and not yet performed.\<close>

record system =
  syListener :: Listener
  syRegistry :: Registry
  sySessions :: "(Session \<times> action list) list"
  sySent :: "(nat \<times> byte list) list"
  syWire :: "(nat \<times> byte list) list"
  syFrames :: "(nat \<times> FrameBundle) list"

definition start :: "RoomConfig \<Rightarrow> system" where
  "start defaults = \<lparr>syListener = Listen False, syRegistry = NewRegistry defaults, sySessions = [],
     sySent = [], syWire = [], syFrames = []\<rparr>"

abbreviation conn_at :: "system \<Rightarrow> nat \<Rightarrow> Conn" where
  "conn_at s c \<equiv> lsHeap (syListener s) ! c"

abbreviation room_at :: "system \<Rightarrow> nat \<Rightarrow> Room" where
  "room_at s k \<equiv> rrHeap (syRegistry s) ! k"

definition upd_conn :: "nat \<Rightarrow> Conn \<Rightarrow> system \<Rightarrow> system" where
  "upd_conn c cn s = s\<lparr>syListener := (syListener s)\<lparr>lsHeap := (lsHeap (syListener s))[c := cn]\<rparr>\<rparr>"

definition upd_room :: "nat \<Rightarrow> Room \<Rightarrow> system \<Rightarrow> system" where
  "upd_room k r s = s\<lparr>syRegistry := (syRegistry s)\<lparr>rrHeap := (rrHeap (syRegistry s))[k := r]\<rparr>\<rparr>"

definition upd_session :: "nat \<Rightarrow> Session \<times> action list \<Rightarrow> system \<Rightarrow> system" where
  "upd_session i x s = s\<lparr>sySessions := (sySessions s)[i := x]\<rparr>"

text \<open>
  \<^verbatim>\<open>conn.Send(data)\<close>: callers ignore the error. The environment answers the socket
  write, numbered by the calls so far.
\<close>

definition send_to :: "(nat \<Rightarrow> send_env) \<Rightarrow> nat \<times> byte list \<Rightarrow> system \<Rightarrow> system" where
  "send_to env cd s =
     (case Send (env (length (sySent s))) (snd cd) (conn_at s (fst cd)) of (ok, ds, cn) \<Rightarrow>
        (upd_conn (fst cd) cn s)\<lparr>sySent := sySent s @ [cd], syWire := syWire s @ map (\<lambda>d. (fst cd, fst d)) ds\<rparr>)"

definition send_all :: "(nat \<Rightarrow> send_env) \<Rightarrow> (nat \<times> byte list) list \<Rightarrow> system \<Rightarrow> system" where
  "send_all env cds s = foldl (\<lambda>s cd. send_to env cd s) s cds"

section \<open>Events\<close>

text \<open>
  The listener reads a datagram; a session's wait times out; a session takes the next payload from
  its connection's inbox; a session performs its next action (sending, or putting a message into a
  room's channel, where it blocks while the channel is full); a room's loop handles a message that
  wakes it, or its ticker fires; the retransmission ticker reaches a connection.
\<close>

datatype event =
    Receive int "byte list" addr
  | TimeOut nat gostring
  | Take nat gostring
  | Perform nat "nat \<Rightarrow> send_env"
  | Wake nat
  | TickRoom nat int "nat \<Rightarrow> send_env"
  | Retransmit nat int

definition on_receive :: "int \<Rightarrow> byte list \<Rightarrow> addr \<Rightarrow> system \<Rightarrow> system" where
  "on_receive now d a s =
     (case handlePacket now (take readBufferSize d) a (syListener s) of (l, out, new) \<Rightarrow>
        s\<lparr>syListener := l, sySessions := sySessions s @
            (case new of None \<Rightarrow> [] | Some c \<Rightarrow> [(new_session c, [])])\<rparr>)"

definition run_session :: "RoomConfig \<Rightarrow> nat \<Rightarrow> gostring \<Rightarrow> byte list option \<Rightarrow> system \<Rightarrow> unit fault + system" where
  "run_session defaults i genID data s =
     (case session_step defaults genID data (syRegistry s) (fst (sySessions s ! i)) of
        Inl e \<Rightarrow> Inl Panic
      | Inr (as, reg, ss) \<Rightarrow> Inr (upd_session i (ss, as) (s\<lparr>syRegistry := reg\<rparr>)))"

definition on_timeout :: "RoomConfig \<Rightarrow> nat \<Rightarrow> gostring \<Rightarrow> system \<Rightarrow> unit fault + system" where
  "on_timeout defaults i genID s =
     (if i < length (sySessions s) \<and> snd (sySessions s ! i) = [] \<and>
        (ssPhase (fst (sySessions s ! i)) = WaitHello \<or> ssPhase (fst (sySessions s ! i)) = WaitJoin)
      then run_session defaults i genID None s else Inr s)"

definition on_take :: "RoomConfig \<Rightarrow> nat \<Rightarrow> gostring \<Rightarrow> system \<Rightarrow> unit fault + system" where
  "on_take defaults i genID s =
     (if i < length (sySessions s) \<and> snd (sySessions s ! i) = [] \<and> ssPhase (fst (sySessions s ! i)) \<noteq> Done
      then (let c = ssConn (fst (sySessions s ! i))
            in case take_inbox (conn_at s c) of
                 (None, cn) \<Rightarrow> Inr s
               | (Some d, cn) \<Rightarrow> run_session defaults i genID (Some d) (upd_conn c cn s))
      else Inr s)"

definition on_perform :: "nat \<Rightarrow> (nat \<Rightarrow> send_env) \<Rightarrow> system \<Rightarrow> system" where
  "on_perform i env s =
     (if i < length (sySessions s)
      then (case sySessions s ! i of
              (ss, []) \<Rightarrow> s
            | (ss, Reply d # as) \<Rightarrow> upd_session i (ss, as) (send_to env (ssConn ss, d) s)
            | (ss, Forward k msg # as) \<Rightarrow>
                (let r = room_at s k
                 in if length (rmInbox r) < 1024
                    then upd_session i (ss, as) (upd_room k (r\<lparr>rmInbox := rmInbox r @ [msg]\<rparr>) s)
                    else s))
      else s)"

definition room_running :: "nat \<Rightarrow> system \<Rightarrow> bool" where
  "room_running k s \<longleftrightarrow> k < length (rrHeap (syRegistry s)) \<and> rrRunning (syRegistry s) ! k"

definition on_wake :: "nat \<Rightarrow> system \<Rightarrow> unit fault + system" where
  "on_wake k s =
     (if room_running k s
      then (case rmInbox (room_at s k) of
              [] \<Rightarrow> Inr s
            | msg # ms \<Rightarrow>
                and_then (handleMsg msg ((room_at s k)\<lparr>rmInbox := ms\<rparr>)) (\<lambda>r.
                and_then (drainInbox r) (\<lambda>r. Inr (upd_room k r s))))
      else Inr s)"

definition on_tick :: "nat \<Rightarrow> int \<Rightarrow> (nat \<Rightarrow> send_env) \<Rightarrow> system \<Rightarrow> unit fault + system" where
  "on_tick k now env s =
     (if room_running k s
      then and_then (drainInbox (room_at s k)) (\<lambda>r1.
           and_then (sealTick now True r1) (\<lambda>(out, r2).
             Inr (send_all env out
               ((upd_room k r2 s)\<lparr>syFrames := syFrames s @ [(k, next_frame r1)]\<rparr>))))
      else Inr s)"

definition on_retransmit :: "nat \<Rightarrow> int \<Rightarrow> system \<Rightarrow> system" where
  "on_retransmit c now s =
     (if c \<in> set (Conns (syListener s))
      then (case conn_Tick now (conn_at s c) of (r, ds, cn) \<Rightarrow>
        (upd_conn c cn s)\<lparr>syWire := syWire s @ map (\<lambda>d. (c, fst d)) ds\<rparr>)
      else s)"

fun sys_step :: "RoomConfig \<Rightarrow> event \<Rightarrow> system \<Rightarrow> unit fault + system" where
  "sys_step defaults (Receive now d a) s = Inr (on_receive now d a s)"
| "sys_step defaults (TimeOut i genID) s = on_timeout defaults i genID s"
| "sys_step defaults (Take i genID) s = on_take defaults i genID s"
| "sys_step defaults (Perform i env) s = Inr (on_perform i env s)"
| "sys_step defaults (Wake k) s = on_wake k s"
| "sys_step defaults (TickRoom k now env) s = on_tick k now env s"
| "sys_step defaults (Retransmit c now) s = Inr (on_retransmit c now s)"

fun sys_run :: "RoomConfig \<Rightarrow> event list \<Rightarrow> system \<Rightarrow> unit fault + system" where
  "sys_run defaults [] s = Inr s"
| "sys_run defaults (ev # evs) s = and_then (sys_step defaults ev s) (sys_run defaults evs)"

lemma upd_simps [simp]:
  "syListener (upd_conn c cn s) = (syListener s)\<lparr>lsHeap := (lsHeap (syListener s))[c := cn]\<rparr>"
  "syRegistry (upd_conn c cn s) = syRegistry s" "sySessions (upd_conn c cn s) = sySessions s"
  "sySent (upd_conn c cn s) = sySent s" "syFrames (upd_conn c cn s) = syFrames s"
  "syRegistry (upd_room k r s) = (syRegistry s)\<lparr>rrHeap := (rrHeap (syRegistry s))[k := r]\<rparr>"
  "syListener (upd_room k r s) = syListener s" "sySessions (upd_room k r s) = sySessions s"
  "sySent (upd_room k r s) = sySent s" "syFrames (upd_room k r s) = syFrames s"
  "sySessions (upd_session i x s) = (sySessions s)[i := x]"
  "syListener (upd_session i x s) = syListener s" "syRegistry (upd_session i x s) = syRegistry s"
  "sySent (upd_session i x s) = sySent s" "syFrames (upd_session i x s) = syFrames s"
  by (simp_all add: upd_conn_def upd_room_def upd_session_def)

section \<open>What goes to whom\<close>

definition is_frame :: "byte list \<Rightarrow> bool" where
  "is_frame d \<longleftrightarrow> d \<noteq> [] \<and> hd d = MsgFrameBundle"

definition enc_frame :: "FrameBundle \<Rightarrow> byte list" where
  "enc_frame fb = encode_or_nil (MFrameBundle fb)"

definition sent_to :: "nat \<Rightarrow> system \<Rightarrow> byte list list" where
  "sent_to c s = map snd (filter (\<lambda>cd. fst cd = c) (sySent s))"

definition frames_to :: "nat \<Rightarrow> system \<Rightarrow> byte list list" where
  "frames_to c s = filter is_frame (sent_to c s)"

definition frames_at :: "nat \<Rightarrow> system \<Rightarrow> FrameBundle list" where
  "frames_at k s = map snd (filter (\<lambda>kf. fst kf = k) (syFrames s))"

text \<open>The room a connection plays in, if its session has got that far.\<close>

definition room_of :: "system \<Rightarrow> nat \<Rightarrow> nat option" where
  "room_of s c =
     (if c < length (sySessions s)
      then (case ssPhase (fst (sySessions s ! c)) of Forwarding k pid \<Rightarrow> Some k | _ \<Rightarrow> None) else None)"

lemma is_frame_frame [simp]: "is_frame (enc_frame fb)"
  by (simp add: is_frame_def enc_frame_def encode_or_nil_def encodeFrameBundle_def)

lemma not_frame_replies [simp]:
  "\<not> is_frame (encode_or_nil (MHelloAck h))" "\<not> is_frame (encode_or_nil (MJoinAck j))"
  "\<not> is_frame (encode_or_nil (MNPub p))"
  "encode_or_nil (MHelloAck h) \<noteq> []" "encode_or_nil (MJoinAck j) \<noteq> []" "encode_or_nil (MNPub p) \<noteq> []"
  by (simp_all add: is_frame_def encode_or_nil_def encodeHelloAck_def encodeJoinAck_def encodeNPub_def
      msg_type_defs Let_def)

lemmas replies_not_nil [simp] = not_frame_replies(4-6) [symmetric]

lemma send_to_simps [simp]:
  "sySessions (send_to env cd s) = sySessions s" "syRegistry (send_to env cd s) = syRegistry s"
  "syFrames (send_to env cd s) = syFrames s" "sySent (send_to env cd s) = sySent s @ [cd]"
  "syListener (send_to env cd s) = (syListener s)\<lparr>lsHeap := (lsHeap (syListener s))[fst cd :=
     snd (snd (Send (env (length (sySent s))) (snd cd) (conn_at s (fst cd))))]\<rparr>"
  by (simp_all add: send_to_def split: prod.split)

lemma send_all_simps [simp]:
  "sySessions (send_all env cds s) = sySessions s" "syRegistry (send_all env cds s) = syRegistry s"
  "syFrames (send_all env cds s) = syFrames s" "sySent (send_all env cds s) = sySent s @ cds"
  by (induction cds arbitrary: s) (simp_all add: send_all_def)

lemma listener_ok_upd:
  assumes "listener_ok l" and "c < length (lsHeap l)" and "conn_ok cn"
    and "cnConnID cn = cnConnID (lsHeap l ! c)" and "cnState cn = cnState (lsHeap l ! c)"
  shows "listener_ok (l\<lparr>lsHeap := (lsHeap l)[c := cn]\<rparr>)"
  using assms by (rule listener_ok_set)

lemma listener_conn_ok: "listener_ok l \<Longrightarrow> c < length (lsHeap l) \<Longrightarrow> conn_ok (lsHeap l ! c)"
  by (simp add: listener_ok_def list_all_length)

lemma Send_frame [simp]:
  "cnConnID (snd (snd (Send env d c))) = cnConnID c" "cnState (snd (snd (Send env d c))) = cnState c"
  by (simp_all add: Send_def Let_def)

lemma send_to_listener:
  "listener_ok (syListener s) \<Longrightarrow> fst cd < length (lsHeap (syListener s)) \<Longrightarrow>
    listener_ok (syListener (send_to env cd s)) \<and>
    length (lsHeap (syListener (send_to env cd s))) = length (lsHeap (syListener s))"
  using listener_conn_ok conn_ok_Send by (auto intro!: listener_ok_upd)

lemma send_all_listener:
  "listener_ok (syListener s) \<Longrightarrow> \<forall>cd \<in> set cds. fst cd < length (lsHeap (syListener s)) \<Longrightarrow>
    listener_ok (syListener (send_all env cds s)) \<and>
    length (lsHeap (syListener (send_all env cds s))) = length (lsHeap (syListener s))"
proof (induction cds arbitrary: s)
  case (Cons cd cds)
  from send_to_listener [OF Cons.prems(1), of cd env] Cons.prems(2)
    Cons.IH [of "send_to env cd s"] show ?case by (simp add: send_all_def del: send_to_simps(5))
qed (simp add: send_all_def)

section \<open>Sessions\<close>

lemma AddPlayer_recipients:
  assumes "AddPlayer c r = ((p, True), r')"
  shows "set (recipients r') = insert c (set (recipients r)) \<and>
    (c \<notin> set (recipients r) \<longrightarrow> distinct (recipients r) \<longrightarrow> distinct (recipients r'))"
proof -
  from assms obtain i where f: "free_slot (rmPlayers r) = Some i"
    and r': "rmPlayers r' = (rmPlayers r)[i := Some \<lparr>psPlayerID = of_nat i, psConn = Some c, psJoined = True\<rparr>]"
    by (auto simp: AddPlayer_def split: option.splits)
  from free_slot_Some [OF f] have i: "i < length (rmPlayers r)" "rmPlayers r ! i = None" by auto
  from id_take_nth_drop [OF i(1)] i(2) have ps: "rmPlayers r = take i (rmPlayers r) @ None # drop (Suc i) (rmPlayers r)" by simp
  moreover have "rmPlayers r' = take i (rmPlayers r) @
      Some \<lparr>psPlayerID = of_nat i, psConn = Some c, psJoined = True\<rparr> # drop (Suc i) (rmPlayers r)"
    unfolding r' using i(1) by (rule upd_conv_take_nth_drop)
  ultimately obtain xs ys where "rmPlayers r = xs @ None # ys"
    "rmPlayers r' = xs @ Some \<lparr>psPlayerID = of_nat i, psConn = Some c, psJoined = True\<rparr> # ys" by blast
  then show ?thesis unfolding recipients_def by auto
qed

text \<open>What one step of a session can do to the registry and to its phase.\<close>

definition action_ok :: "phase \<Rightarrow> action \<Rightarrow> bool" where
  "action_ok ph a \<longleftrightarrow>
     (case a of Reply d \<Rightarrow> d \<noteq> [] \<and> \<not> is_frame d | Forward k msg \<Rightarrow> msg_ok msg \<and> (\<exists>pid. ph = Forwarding k pid))"

inductive session_effect :: "Registry \<Rightarrow> Session \<Rightarrow> Registry \<Rightarrow> Session \<Rightarrow> bool" where
  same: "session_effect reg ss reg ss"
| moved: "ssPhase ss = WaitHello \<or> ssPhase ss = WaitJoin \<Longrightarrow> ph = WaitJoin \<or> ph = Done \<Longrightarrow>
    session_effect reg ss reg (ss\<lparr>ssPhase := ph\<rparr>)"
| full: "ssPhase ss = WaitJoin \<Longrightarrow> GetOrCreate roomID reg = (Inr (k, reg') :: wire_error fault + _) \<Longrightarrow>
    session_effect reg ss reg' (ss\<lparr>ssPhase := Done\<rparr>)"
| joined: "ssPhase ss = WaitJoin \<Longrightarrow> GetOrCreate roomID reg = (Inr (k, reg') :: wire_error fault + _) \<Longrightarrow>
    AddPlayer (ssConn ss) (rrHeap reg' ! k) = ((pid, True), room) \<Longrightarrow>
    session_effect reg ss (reg'\<lparr>rrHeap := (rrHeap reg')[k := room]\<rparr>) (ss\<lparr>ssPhase := Forwarding k pid\<rparr>)"

lemma session_step_effect:
  assumes "session_step D g data reg ss = Inr (as, reg', ss')" and "cfg_ok (rrDefaults reg)"
  shows "session_effect reg ss reg' ss'" and "list_all (action_ok (ssPhase ss')) as"
proof -
  have f: "\<forall>rm m. Forward rm m \<in> set as \<longrightarrow> msg_ok m \<and> ssPhase ss = Forwarding rm (rgPlayerID m)"
    using session_step_ok [OF assms(2), of D g data ss] assms(1) by auto
  show "session_effect reg ss reg' ss'"
  proof (cases "ssPhase ss")
    case WaitHello
    with assms(1) show ?thesis
      by (auto simp: session_step_def on_hello_def Let_def and_then_eq_Inr
          intro!: session_effect.same session_effect.moved
          split: option.splits sum.splits fault.splits if_splits WireMsg.splits)
  next
    case WaitJoin
    with assms(1) have j: "on_join D g data reg ss = Inr (as, reg', ss')" by (simp add: session_step_def)
    show ?thesis
    proof (cases "\<exists>x j. data = Some x \<and> Decode x = Inr (MsgJoinRoom, MJoinRoom j)")
      case False
      with j WaitJoin show ?thesis
        by (auto simp: on_join_def Let_def intro!: session_effect.moved
            split: option.splits sum.splits fault.splits if_splits WireMsg.splits)
    next
      case True
      then obtain x jr where x: "data = Some x" "Decode x = Inr (MsgJoinRoom, MJoinRoom jr)" by blast
      let ?id = "if jrRoomID jr = [] then g else jrRoomID jr"
      from j x obtain k reg1 where r: "(GetOrCreate ?id reg :: wire_error fault + _) = Inr (k, reg1)"
        by (auto simp: on_join_def Let_def and_then_eq_Inr)
      obtain pid ok room where a: "AddPlayer (ssConn ss) (rrHeap reg1 ! k) = ((pid, ok), room)"
        by (metis prod.exhaust)
      show ?thesis
      proof (cases ok)
        case True
        with j x r a have "reg' = reg1\<lparr>rrHeap := (rrHeap reg1)[k := room]\<rparr>" "ss' = ss\<lparr>ssPhase := Forwarding k pid\<rparr>"
          by (auto simp: on_join_def Let_def)
        with session_effect.joined [OF WaitJoin r, of pid room] a True show ?thesis by simp
      next
        case False
        with j x r a have "reg' = reg1" "ss' = ss\<lparr>ssPhase := Done\<rparr>" by (auto simp: on_join_def Let_def)
        with session_effect.full [OF WaitJoin r] show ?thesis by simp
      qed
    qed
  next
    case (Forwarding k pid)
    with assms(1) show ?thesis
      by (auto simp: session_step_def on_data_def and_then_eq_Inr intro!: session_effect.same
          split: option.splits sum.splits fault.splits)
  next
    case Done
    with assms(1) show ?thesis by (auto simp: session_step_def intro!: session_effect.same)
  qed
  then have ph: "ssPhase ss' = ssPhase ss" if "ssPhase ss = Forwarding k pid" for k pid
    using that by (auto elim: session_effect.cases)
  have "d \<noteq> [] \<and> \<not> is_frame d" if "Reply d \<in> set as" for d
    using assms(1) that
    by (auto simp: session_step_def on_hello_def on_join_def on_data_def Let_def and_then_eq_Inr split_beta
        split: phase.splits option.splits sum.splits fault.splits if_splits WireMsg.splits)
  with f ph show "list_all (action_ok (ssPhase ss')) as"
    by (fastforce simp: list_all_iff action_ok_def split: action.split)
qed

section \<open>Rooms\<close>

text \<open>A room that has sealed \<open>fs\<close> since it was started under a configuration.\<close>

definition room_tracks :: "RoomConfig \<Rightarrow> FrameBundle list \<Rightarrow> Room \<Rightarrow> bool" where
  "room_tracks D fs r \<longleftrightarrow> room_live r \<and>
     (\<exists>r0. rmWorld r0 = client_world (rcSeed D) (rcMapW D) (rcMapH D) (nat (rcPlayerCount D)) 5 \<and>
        rmTick r0 = 0 \<and> rmFrameHistory r0 = [] \<and> rmMaxHistory r0 = 200 \<and> sealed_by r0 fs r)"

lemma initial_worlds_agree:
  assumes "(NewRoom cfg :: 'e fault + Room) = Inr r"
  shows "rmWorld (SpawnInitialUnits n r) =
    client_world (rcSeed cfg) (rcMapW cfg) (rcMapH cfg) (nat (rcPlayerCount cfg)) n"
  using assms by (auto simp: NewRoom_def SpawnInitialUnits_def client_world_def and_then_eq_Inr split: if_splits)

lemma room_tracks_new:
  assumes "cfg_ok D" and "rcPlayerCount D \<le> 65536" and "(NewRoom (D\<lparr>rcRoomID := i\<rparr>) :: 'e fault + Room) = Inr r"
  shows "room_tracks D [] (SpawnInitialUnits 5 r)"
proof -
  let ?r = "SpawnInitialUnits 5 r"
  have "cfg_ok (D\<lparr>rcRoomID := i\<rparr>)" "rcPlayerCount (D\<lparr>rcRoomID := i\<rparr>) \<le> 65536" using assms by (simp_all add: cfg_ok_def)
  from started_room_live [OF this assms(3)] have
    l: "room_live ?r" "rmTick ?r = 0" "rmFrameHistory ?r = []" "rmMaxHistory ?r = 200" by auto
  have "sealed_by ?r [] ?r" using l(1) by (intro sealed_by_none) (auto simp: room_live_def)
  with l initial_worlds_agree [OF assms(3), of 5] show ?thesis unfolding room_tracks_def by auto
qed

lemma room_tracks_step: "room_tracks D fs r \<Longrightarrow> room_step r gs r' \<Longrightarrow> room_tracks D (fs @ gs) r'"
  using room_step_sealed sealed_by_trans unfolding room_tracks_def by blast

lemma room_tracks_enqueue:
  "room_tracks D fs r \<Longrightarrow> msg_ok m \<Longrightarrow> room_tracks D fs (r\<lparr>rmInbox := rmInbox r @ [m]\<rparr>)"
  by (auto simp: room_tracks_def room_live_def room_ok_def sealed_by_def)

text \<open>What the room's own steps leave alone: its configuration, its players and its pace.\<close>

lemma handleMsg_keeps:
  "handleMsg m r = Inr r' \<Longrightarrow> rmCfg r' = rmCfg r \<and> rmPlayers r' = rmPlayers r \<and> rmTickInterval r' = rmTickInterval r"
  by (auto simp: handleMsg_def Let_def split: if_splits WireMsg.splits)

lemma handle_all_keeps:
  "handle_all ms r = (Inr r' :: 'e fault + _) \<Longrightarrow> rmCfg r' = rmCfg r \<and> rmPlayers r' = rmPlayers r \<and> rmTickInterval r' = rmTickInterval r"
proof (induction ms arbitrary: r)
  case (Cons m ms)
  from Cons.prems obtain r1 where "handleMsg m r = (Inr r1 :: 'e fault + _)" "handle_all ms r1 = (Inr r' :: 'e fault + _)"
    by (auto simp: and_then_eq_Inr)
  with Cons.IH handleMsg_keeps [of m r r1] show ?case by fastforce
qed simp

lemma drainInbox_keeps:
  "drainInbox r = Inr r' \<Longrightarrow> rmCfg r' = rmCfg r \<and> rmPlayers r' = rmPlayers r \<and> rmTickInterval r' = rmTickInterval r"
  using handle_all_keeps by (fastforce simp: drainInbox_def)

lemma sealTick_keeps:
  assumes "sealTick now ok r = Inr (out, r')"
  shows "rmCfg r' = rmCfg r \<and> rmPlayers r' = rmPlayers r \<and> rmTickInterval r' = rmTickInterval r"
  using assms
  by (auto simp: sealTick_def seal_frame_eq seal_periodic_def CleanupLimbo_def Let_def and_then_eq_Inr split: if_splits)

lemma sealTick_out:
  assumes "sealTick now ok r = (Inr (out, r') :: 'e fault + _)"
  shows "\<exists>pubs. out = map (\<lambda>c. (c, enc_frame (next_frame r))) (recipients r) @ pubs \<and>
    (\<forall>cd \<in> set pubs. fst cd \<in> set (recipients r) \<and> snd cd \<noteq> [] \<and> \<not> is_frame (snd cd))"
proof -
  let ?r1 = "snd (seal_frame r)"
  from assms obtain pubs r2 where p: "seal_periodic now ?r1 = (Inr (pubs, r2) :: 'e fault + _)"
    and out: "out = broadcast (MFrameBundle (next_frame r)) ?r1 @ pubs"
    by (auto simp: sealTick_def seal_frame_eq and_then_eq_Inr)
  have r: "recipients ?r1 = recipients r" by (simp add: seal_frame_eq recipients_def)
  have "\<forall>cd \<in> set pubs. fst cd \<in> set (recipients ?r1) \<and> snd cd \<noteq> [] \<and> \<not> is_frame (snd cd)"
  proof -
    have "recipients (CleanupLimbo now q) = recipients q" "recipients (q\<lparr>rmAdaptiveN := a\<rparr>) = recipients q" for q a
      by (simp_all add: recipients_def CleanupLimbo_def)
    with p show ?thesis
      by (auto simp: seal_periodic_def Let_def and_then_eq_Inr broadcast_def split: if_splits)
  qed
  then show ?thesis by (simp add: out r broadcast_def enc_frame_def)
qed

lemma recipients_cong: "rmPlayers r' = rmPlayers r \<Longrightarrow> recipients r' = recipients r"
  by (simp add: recipients_def)

lemma registry_ok_upd:
  assumes "registry_ok reg" and "rmCfg r = rmCfg (rrHeap reg ! k)"
  shows "registry_ok (reg\<lparr>rrHeap := (rrHeap reg)[k := r]\<rparr>)"
  using assms by (cases "k < length (rrHeap reg)") (auto simp: registry_ok_def list_all_iff nth_list_update)

section \<open>The invariant\<close>

definition conns_ok :: "system \<Rightarrow> bool" where
  "conns_ok s \<longleftrightarrow> listener_ok (syListener s) \<and> length (sySessions s) = length (lsHeap (syListener s)) \<and>
     (\<forall>c < length (sySessions s). ssConn (fst (sySessions s ! c)) = c \<and>
        list_all (action_ok (ssPhase (fst (sySessions s ! c)))) (snd (sySessions s ! c)))"

definition rooms_ok :: "RoomConfig \<Rightarrow> system \<Rightarrow> bool" where
  "rooms_ok D s \<longleftrightarrow> rrDefaults (syRegistry s) = D \<and> registry_ok (syRegistry s) \<and>
     (\<forall>k < length (rrHeap (syRegistry s)). rrRunning (syRegistry s) ! k \<and> room_tracks D (frames_at k s) (room_at s k)) \<and>
     (\<forall>k \<ge> length (rrHeap (syRegistry s)). frames_at k s = [])"

text \<open>The members of a room are the connections whose sessions forward to it; each has been sent the
  frames sealed since it joined, in order, and no others.\<close>

definition members_ok :: "system \<Rightarrow> bool" where
  "members_ok s \<longleftrightarrow>
     (\<forall>k < length (rrHeap (syRegistry s)). distinct (recipients (room_at s k)) \<and>
        set (recipients (room_at s k)) = {c. room_of s c = Some k}) \<and>
     (\<forall>c k. room_of s c = Some k \<longrightarrow> k < length (rrHeap (syRegistry s)))"

definition deliveries_ok :: "system \<Rightarrow> bool" where
  "deliveries_ok s \<longleftrightarrow>
     (\<forall>c. room_of s c = None \<longrightarrow> frames_to c s = []) \<and>
     (\<forall>c k. room_of s c = Some k \<longrightarrow>
        (\<exists>n \<le> length (frames_at k s). frames_to c s = map enc_frame (drop n (frames_at k s))))"

definition sys_ok :: "RoomConfig \<Rightarrow> system \<Rightarrow> bool" where
  "sys_ok D s \<longleftrightarrow> conns_ok s \<and> rooms_ok D s \<and> members_ok s \<and> deliveries_ok s"

lemma sys_ok_start: "sys_ok D (start D)"
  by (simp add: sys_ok_def start_def conns_ok_def rooms_ok_def members_ok_def deliveries_ok_def
      listener_ok_Listen registry_ok_new room_of_def frames_to_def sent_to_def frames_at_def)
    (simp add: Listen_def NewRegistry_def)

text \<open>What the parts of the invariant depend on.\<close>

lemma rooms_ok_cong:
  "syRegistry s' = syRegistry s \<Longrightarrow> syFrames s' = syFrames s \<Longrightarrow> rooms_ok D s' = rooms_ok D s"
  by (simp add: rooms_ok_def frames_at_def)

lemma conns_ok_cong:
  "syListener s' = syListener s \<Longrightarrow> sySessions s' = sySessions s \<Longrightarrow> conns_ok s' = conns_ok s"
  by (simp add: conns_ok_def)

lemma members_ok_cong:
  "syRegistry s' = syRegistry s \<Longrightarrow> room_of s' = room_of s \<Longrightarrow> members_ok s' = members_ok s"
  by (simp add: members_ok_def)

lemma deliveries_ok_cong:
  "syFrames s' = syFrames s \<Longrightarrow> room_of s' = room_of s \<Longrightarrow> (\<And>c. frames_to c s' = frames_to c s) \<Longrightarrow>
    deliveries_ok s' = deliveries_ok s"
  by (simp add: deliveries_ok_def frames_at_def)

lemma frames_to_cong: "sySent s' = sySent s \<Longrightarrow> frames_to c s' = frames_to c s"
  by (simp add: frames_to_def sent_to_def)

lemma room_of_cong: "sySessions s' = sySessions s \<Longrightarrow> room_of s' = room_of s"
  by (simp add: room_of_def fun_eq_iff)

lemma sys_ok_cong:
  assumes "sys_ok D s" and "conns_ok s'" and "syRegistry s' = syRegistry s" and "syFrames s' = syFrames s"
    and "room_of s' = room_of s" and "\<And>c. frames_to c s' = frames_to c s"
  shows "sys_ok D s'"
  using assms rooms_ok_cong members_ok_cong deliveries_ok_cong unfolding sys_ok_def by blast

text \<open>A change to one connection.\<close>

lemma conns_ok_upd_conn:
  assumes "conns_ok s" and "conn_ok cn" and "cnConnID cn = cnConnID (conn_at s c)" and "cnState cn = cnState (conn_at s c)"
  shows "conns_ok (upd_conn c cn s)"
proof (cases "c < length (lsHeap (syListener s))")
  case True
  with assms listener_ok_upd [of "syListener s" c cn] show ?thesis by (simp add: conns_ok_def)
next
  case False
  then have "(lsHeap (syListener s))[c := cn] = lsHeap (syListener s)" by (simp add: list_update_beyond)
  then have "(syListener s)\<lparr>lsHeap := (lsHeap (syListener s))[c := cn]\<rparr> = syListener s" by (simp only:) (cases "syListener s"; simp)
  with assms(1) show ?thesis by (simp add: conns_ok_def)
qed

lemma sys_ok_upd_conn:
  assumes "sys_ok D s" and "conns_ok (upd_conn c cn s)"
  shows "sys_ok D (upd_conn c cn s)"
  by (rule sys_ok_cong [OF assms]) (rule room_of_cong frames_to_cong | simp)+

lemma sys_ok_wire:
  assumes "sys_ok D s"
  shows "sys_ok D (s\<lparr>syWire := w\<rparr>)"
proof (rule sys_ok_cong [OF assms])
  show "conns_ok (s\<lparr>syWire := w\<rparr>)" using assms by (simp add: sys_ok_def conns_ok_def)
qed (simp_all add: room_of_def frames_to_def sent_to_def fun_eq_iff)

lemma conn_Tick_frame [simp]:
  "cnConnID (snd (snd (conn_Tick now c))) = cnConnID c" "cnState (snd (snd (conn_Tick now c))) = cnState c"
  by (simp_all add: conn_Tick_def split: prod.split)

lemma take_inbox_frame [simp]:
  "cnConnID (snd (take_inbox c)) = cnConnID c" "cnState (snd (take_inbox c)) = cnState c"
  by (simp_all add: take_inbox_def split: list.split)

lemma sys_ok_retransmit: "sys_ok D s \<Longrightarrow> sys_ok D (on_retransmit c now s)"
proof -
  assume ok: "sys_ok D s"
  show ?thesis
  proof (cases "c \<in> set (Conns (syListener s))")
    case True
    have "listener_ok (syListener s)" using ok by (simp add: sys_ok_def conns_ok_def)
    with True have "c < length (lsHeap (syListener s))" by (auto simp: Conns_def listener_ok_def list_all_iff conn_entry_def)
    then have "conn_ok (conn_at s c)" using \<open>listener_ok _\<close> by (rule listener_conn_ok [rotated])
    then have "conns_ok (upd_conn c (snd (snd (conn_Tick now (conn_at s c)))) s)"
      using ok by (intro conns_ok_upd_conn conn_ok_Tick) (simp_all add: sys_ok_def)
    from sys_ok_wire [OF sys_ok_upd_conn [OF ok this]] True show ?thesis
      by (auto simp: on_retransmit_def split_beta)
  qed (simp add: on_retransmit_def ok)
qed

lemma handlePacket_heap:
  assumes "handlePacket now d a l = (l', out, new)"
  shows "length (lsHeap l') = length (lsHeap l) + (case new of None \<Rightarrow> 0 | Some c \<Rightarrow> 1)"
    and "new = Some c \<Longrightarrow> c = length (lsHeap l)"
  using assms by (auto simp: handlePacket_def handleSYN_def Let_def split: sum.splits option.splits if_splits)

lemma sys_ok_receive: "sys_ok D s \<Longrightarrow> sys_ok D (on_receive now d a s)"
proof -
  assume ok: "sys_ok D s"
  obtain l out new where h: "handlePacket now (take readBufferSize d) a (syListener s) = (l, out, new)"
    by (metis prod.exhaust)
  let ?s = "on_receive now d a s"
  have s: "?s = s\<lparr>syListener := l, sySessions := sySessions s @ (case new of None \<Rightarrow> [] | Some c \<Rightarrow> [(new_session c, [])])\<rparr>"
    by (simp add: on_receive_def h)
  have c: "conns_ok s" using ok by (simp add: sys_ok_def)
  have l: "listener_ok l" using listener_ok_packet [of "syListener s" now "take readBufferSize d" a] c h
    by (simp add: conns_ok_def)
  have "conns_ok ?s"
    using c l handlePacket_heap [OF h] unfolding s
    by (auto simp: conns_ok_def nth_append new_session_def less_Suc_eq split: option.splits)
  moreover have "room_of ?s = room_of s"
    by (auto simp: fun_eq_iff room_of_def s nth_append new_session_def split: option.split)
  ultimately show ?thesis
    by (intro sys_ok_cong [OF ok]) (simp_all add: s frames_to_def sent_to_def)
qed

text \<open>A change to one room, sealing the frames \<open>gs\<close>.\<close>

lemma frames_at_append [simp]:
  "frames_at k (s\<lparr>syFrames := syFrames s @ map (Pair j) gs\<rparr>) = frames_at k s @ (if k = j then gs else [])"
  by (auto simp: frames_at_def filter_map o_def)

lemma rooms_ok_upd_room:
  assumes "rooms_ok D s" and "k < length (rrHeap (syRegistry s))" and "rmCfg r = rmCfg (room_at s k)"
    and "room_tracks D (frames_at k s @ gs) r"
  shows "rooms_ok D ((upd_room k r s)\<lparr>syFrames := syFrames s @ map (Pair k) gs\<rparr>)"
proof -
  let ?s = "(upd_room k r s)\<lparr>syFrames := syFrames s @ map (Pair k) gs\<rparr>"
  have f: "frames_at j ?s = frames_at j s @ (if j = k then gs else [])" for j
    using frames_at_append [of j s k gs] by (simp add: frames_at_def)
  have "registry_ok (syRegistry ?s)"
    using registry_ok_upd [of "syRegistry s" r k] assms(1,3) by (simp add: rooms_ok_def)
  with assms show ?thesis by (auto simp: rooms_ok_def f nth_list_update)
qed

lemma members_ok_upd_room:
  assumes "members_ok s" and "recipients r = recipients (room_at s k)"
    and "syRegistry s' = syRegistry (upd_room k r s)" and "room_of s' = room_of s"
  shows "members_ok s'"
proof -
  have r: "recipients (room_at s' j) = recipients (room_at s j)" for j
  proof (cases "k < length (rrHeap (syRegistry s))")
    case True
    then show ?thesis using assms(2) by (auto simp: assms(3) nth_list_update)
  next
    case False
    then have "(rrHeap (syRegistry s))[k := r] = rrHeap (syRegistry s)" by (simp add: list_update_beyond)
    then show ?thesis by (simp add: assms(3))
  qed
  moreover have "length (rrHeap (syRegistry s')) = length (rrHeap (syRegistry s))" by (simp add: assms(3))
  ultimately show ?thesis using assms(1,4) by (simp only: members_ok_def)
qed

lemma sys_ok_upd_room:
  assumes "sys_ok D s" and "k < length (rrHeap (syRegistry s))" and "rmCfg r = rmCfg (room_at s k)"
    and "recipients r = recipients (room_at s k)" and "room_tracks D (frames_at k s) r"
  shows "sys_ok D (upd_room k r s)"
proof -
  let ?s = "upd_room k r s"
  from assms(1) have ok: "conns_ok s" "rooms_ok D s" "members_ok s" "deliveries_ok s" by (simp_all only: sys_ok_def)
  have "rooms_ok D ?s" using rooms_ok_upd_room [OF ok(2) assms(2,3), of "[]"] assms(5) by (simp add: upd_room_def)
  moreover have ro: "room_of ?s = room_of s" by (rule room_of_cong) simp
  moreover have "members_ok ?s" by (rule members_ok_upd_room [OF ok(3) assms(4) refl ro])
  moreover have "deliveries_ok ?s = deliveries_ok s"
    by (rule deliveries_ok_cong [OF _ ro frames_to_cong]) simp_all
  moreover have "conns_ok ?s = conns_ok s" by (rule conns_ok_cong) simp_all
  ultimately show ?thesis using ok by (simp only: sys_ok_def)
qed

lemma sys_ok_forward:
  assumes "sys_ok D s" and "k < length (rrHeap (syRegistry s))" and "msg_ok msg"
  shows "sys_ok D (upd_room k ((room_at s k)\<lparr>rmInbox := rmInbox (room_at s k) @ [msg]\<rparr>) s)"
proof -
  have "rooms_ok D s" using assms(1) by (simp only: sys_ok_def)
  then have "room_tracks D (frames_at k s) (room_at s k)" using assms(2) by (simp add: rooms_ok_def)
  from room_tracks_enqueue [OF this assms(3)] show ?thesis
    by (intro sys_ok_upd_room assms) (simp_all add: recipients_def)
qed

lemma sys_ok_wake:
  assumes "sys_ok D s"
  shows "\<exists>s'. on_wake k s = Inr s' \<and> sys_ok D s'"
proof (cases "room_running k s \<and> rmInbox (room_at s k) \<noteq> []")
  case True
  then have k: "k < length (rrHeap (syRegistry s))" by (simp add: room_running_def)
  from True obtain msg ms where m: "rmInbox (room_at s k) = msg # ms" by (cases "rmInbox (room_at s k)") auto
  let ?r = "room_at s k"
  have "rooms_ok D s" using assms by (simp only: sys_ok_def)
  then have t: "room_tracks D (frames_at k s) ?r" using k by (simp add: rooms_ok_def)
  then have "room_live ?r" by (simp add: room_tracks_def)
  then have l: "room_ok (?r\<lparr>rmInbox := ms\<rparr>)" "msg_ok msg" "list_all msg_ok ms" by (simp_all add: room_live_def m room_ok_def)
  from handleMsg_ok [OF l(1,2), where 'e = unit] obtain r1 where
    r1: "handleMsg msg (?r\<lparr>rmInbox := ms\<rparr>) = (Inr r1 :: unit fault + Room)" "room_ok r1" "rmInbox r1 = ms" by auto
  with l(3) have "room_live r1" by (simp add: room_live_def)
  from drainInbox_ok [OF this, where 'e = unit] obtain r2 where
    r2: "drainInbox r1 = (Inr r2 :: unit fault + Room)" by blast
  have c: "rmCfg r2 = rmCfg ?r" "recipients r2 = recipients ?r"
    using handleMsg_keeps [OF r1(1)] drainInbox_keeps [OF r2] by (simp_all add: recipients_def)
  have "room_tracks D (frames_at k s) r2" using room_tracks_step [OF t room_step.wake [OF m r1(1) r2]] by simp
  from sys_ok_upd_room [OF assms k c this] have "sys_ok D (upd_room k r2 s)" .
  with True m r1 r2 show ?thesis by (simp add: on_wake_def)
next
  case False
  with assms show ?thesis by (auto simp: on_wake_def split: list.split)
qed

text \<open>A tick gives each member the next frame.\<close>

lemma frames_to_send_all:
  "frames_to c (send_all env out s) = frames_to c s @ filter is_frame (map snd (filter (\<lambda>cd. fst cd = c) out))"
  by (simp add: frames_to_def sent_to_def)

lemma filter_eq_distinct: "distinct xs \<Longrightarrow> filter (\<lambda>x. x = c) xs = (if c \<in> set xs then [c] else [])"
  by (induction xs) auto

lemma broadcast_frames:
  assumes "distinct rs" and "\<forall>cd \<in> set pubs. fst cd \<in> set rs \<and> snd cd \<noteq> [] \<and> \<not> is_frame (snd cd)"
  shows "filter is_frame (map snd (filter (\<lambda>cd. fst cd = c) (map (\<lambda>c. (c, enc_frame f)) rs @ pubs))) =
    (if c \<in> set rs then [enc_frame f] else [])"
proof -
  have "filter is_frame (map snd (filter (\<lambda>cd. fst cd = c) pubs)) = []"
    using assms(2) by (auto simp: filter_empty_conv)
  then show ?thesis using filter_eq_distinct [OF assms(1), of c]
    by (simp add: filter_map o_def)
qed

lemma sys_ok_tick:
  assumes "sys_ok D s" and "room_running k s"
  shows "\<exists>s'. on_tick k now env s = Inr s' \<and> sys_ok D s' \<and>
    (\<exists>f. syFrames s' = syFrames s @ [(k, f)] \<and>
      (\<forall>c. frames_to c s' = frames_to c s @ (if room_of s c = Some k then [enc_frame f] else []))) \<and>
    sySessions s' = sySessions s"
proof -
  let ?r = "room_at s k"
  have k: "k < length (rrHeap (syRegistry s))" using assms(2) by (simp add: room_running_def)
  from assms(1) have ok: "conns_ok s" "rooms_ok D s" "members_ok s" "deliveries_ok s" by (simp_all only: sys_ok_def)
  have t: "room_tracks D (frames_at k s) ?r" using ok(2) k by (simp add: rooms_ok_def)
  then have "room_live ?r" by (simp add: room_tracks_def)
  from drainInbox_ok [OF this, where 'e = unit] obtain r1 where
    r1: "drainInbox ?r = (Inr r1 :: unit fault + Room)" "room_live r1" by blast
  from sealTick_ok [of r1 now True, where 'e = unit] r1(2) obtain out r2 where
    r2: "sealTick now True r1 = (Inr (out, r2) :: unit fault + _)" unfolding room_live_def by blast
  let ?f = "next_frame r1"
  let ?s1 = "(upd_room k r2 s)\<lparr>syFrames := syFrames s @ [(k, ?f)]\<rparr>"
  let ?s = "send_all env out ?s1"
  have c: "rmCfg r2 = rmCfg ?r" "recipients r2 = recipients ?r" "recipients r1 = recipients ?r"
    using drainInbox_keeps [OF r1(1)] sealTick_keeps [OF r2] by (simp_all add: recipients_def)
  from sealTick_out [OF r2] obtain pubs where
    out: "out = map (\<lambda>c. (c, enc_frame ?f)) (recipients ?r) @ pubs"
      "\<forall>cd \<in> set pubs. fst cd \<in> set (recipients ?r) \<and> snd cd \<noteq> [] \<and> \<not> is_frame (snd cd)" unfolding c(3) by blast
  have m: "distinct (recipients ?r)" "set (recipients ?r) = {c. room_of s c = Some k}"
    using ok(3) k by (simp_all add: members_ok_def)
  have "room_tracks D (frames_at k s @ [?f]) r2" by (rule room_tracks_step [OF t room_step.tick [OF r1(1) r2]])
  from rooms_ok_upd_room [OF ok(2) k c(1) this] have "rooms_ok D ?s1" by simp
  moreover have "rooms_ok D ?s = rooms_ok D ?s1" by (rule rooms_ok_cong) simp_all
  ultimately have "rooms_ok D ?s" by simp
  moreover have ro: "room_of ?s = room_of s" by (rule room_of_cong) simp
  moreover have "members_ok ?s"
    by (rule members_ok_upd_room [OF ok(3) c(2) _ ro]) simp
  moreover have to: "frames_to c ?s = frames_to c s @ (if room_of s c = Some k then [enc_frame ?f] else [])" for c
    unfolding frames_to_send_all out(1) broadcast_frames [OF m(1) out(2)] m(2)
    by (simp add: frames_to_def sent_to_def)
  moreover have "deliveries_ok ?s"
  proof -
    have fr: "frames_at j ?s = frames_at j s @ (if j = k then [?f] else [])" for j
      using frames_at_append [of j s k "[?f]"] by (simp add: frames_at_def)
    show ?thesis unfolding deliveries_ok_def ro to fr
    proof (intro conjI allI impI)
      fix c j assume j: "room_of s c = Some j"
      with ok(4) obtain n where "n \<le> length (frames_at j s)" "frames_to c s = map enc_frame (drop n (frames_at j s))"
        unfolding deliveries_ok_def by blast
      with j show "\<exists>n \<le> length (frames_at j s @ (if j = k then [?f] else [])).
          frames_to c s @ (if room_of s c = Some k then [enc_frame ?f] else []) =
            map enc_frame (drop n (frames_at j s @ (if j = k then [?f] else [])))"
        by (auto intro!: exI [of _ n])
    qed (use ok(4) in \<open>simp add: deliveries_ok_def\<close>)
  qed
  moreover have "conns_ok ?s"
  proof -
    have "{c. room_of s c = Some k} \<subseteq> {c. c < length (sySessions s)}"
      by (auto simp: room_of_def split: if_splits)
    then have "\<forall>cd \<in> set out. fst cd < length (lsHeap (syListener ?s1))"
      using out m(2) ok(1) by (auto simp: conns_ok_def)
    moreover have "listener_ok (syListener ?s1)" using ok(1) by (simp add: conns_ok_def)
    ultimately show ?thesis using send_all_listener [of ?s1 out env] ok(1)
      by (simp add: conns_ok_def)
  qed
  ultimately show ?thesis using r1 r2 assms(2) by (simp add: on_tick_def sys_ok_def)
qed

text \<open>A session's step.\<close>

lemma GetOrCreate_effect:
  assumes "sys_ok D s" and "cfg_ok D" and "rcPlayerCount D \<le> 65536"
    and "GetOrCreate i (syRegistry s) = (Inr (k, reg') :: 'e fault + _)"
  shows "sys_ok D (s\<lparr>syRegistry := reg'\<rparr>) \<and> k < length (rrHeap reg')"
proof -
  let ?reg = "syRegistry s" and ?s = "s\<lparr>syRegistry := reg'\<rparr>"
  from assms(1) have ok: "conns_ok s" "rooms_ok D s" "members_ok s" "deliveries_ok s" by (simp_all only: sys_ok_def)
  have reg: "registry_ok ?reg" "rrDefaults ?reg = D" using ok(2) by (simp_all add: rooms_ok_def)
  from registry_ok_create [OF reg(1) assms(4)] have reg': "registry_ok reg'" "map_of (rrRooms reg') i = Some k" by auto
  from registry_ok_lookup [OF this] have k: "k < length (rrHeap reg')" by blast
  have "sys_ok D ?s"
  proof (cases "map_of (rrRooms ?reg) i")
    case (Some x)
    with assms(4) have "reg' = ?reg" by (simp add: GetOrCreate_def)
    with assms(1) show ?thesis by simp
  next
    case None
    with assms(4) reg(2) obtain room where room: "(NewRoom (D\<lparr>rcRoomID := i\<rparr>) :: 'e fault + Room) = Inr room"
      and r': "rrHeap reg' = rrHeap ?reg @ [SpawnInitialUnits 5 room]" "rrRunning reg' = rrRunning ?reg @ [True]"
        "rrDefaults reg' = D" by (auto simp: GetOrCreate_def Let_def and_then_eq_Inr)
    have len: "length (rrRunning ?reg) = length (rrHeap ?reg)" using reg(1) by (simp add: registry_ok_def)
    have none: "frames_at (length (rrHeap ?reg)) s = []" using ok(2) by (simp add: rooms_ok_def)
    have fr: "frames_at j ?s = frames_at j s" for j by (simp add: frames_at_def)
    have "rooms_ok D ?s"
      using ok(2) room_tracks_new [OF assms(2,3) room] reg'(1) none
      by (auto simp: rooms_ok_def fr r' nth_append less_Suc_eq len)
    moreover have ro: "room_of ?s = room_of s" by (rule room_of_cong) simp
    moreover have "recipients (SpawnInitialUnits 5 room) = []"
      using room by (auto simp: recipients_def NewRoom_def SpawnInitialUnits_def and_then_eq_Inr split: if_splits)
    then have "members_ok ?s"
      using ok(3) unfolding members_ok_def ro by (auto simp: r' nth_append less_Suc_eq)
    moreover have "deliveries_ok ?s = deliveries_ok s" by (rule deliveries_ok_cong [OF _ ro frames_to_cong]) simp_all
    moreover have "conns_ok ?s = conns_ok s" by (rule conns_ok_cong) simp_all
    ultimately show ?thesis using ok by (simp only: sys_ok_def)
  qed
  with k show ?thesis by blast
qed

text \<open>Going on with a session whose connection plays in no room, or in the same room as before.\<close>

lemma sys_ok_upd_session:
  assumes "sys_ok D s" and "i < length (sySessions s)" and "ssConn ss = i"
    and "list_all (action_ok (ssPhase ss)) as"
    and "case ssPhase ss of Forwarding k pid \<Rightarrow> room_of s i = Some k | _ \<Rightarrow> room_of s i = None"
  shows "sys_ok D (upd_session i (ss, as) s)"
proof -
  have "conns_ok s" using assms(1) by (simp only: sys_ok_def)
  then have "conns_ok (upd_session i (ss, as) s)"
    using assms(2-4) by (auto simp: conns_ok_def nth_list_update)
  moreover have "room_of (upd_session i (ss, as) s) = room_of s"
  proof
    fix c
    show "room_of (upd_session i (ss, as) s) c = room_of s c"
      using assms(2,5) by (cases "c = i") (auto simp: room_of_def split: phase.splits)
  qed
  ultimately show ?thesis by (intro sys_ok_cong [OF assms(1)]) (simp_all add: frames_to_def sent_to_def)
qed

lemma sys_ok_joined:
  assumes "sys_ok D s" and "i < length (sySessions s)" and "room_of s i = None"
    and "k < length (rrHeap (syRegistry s))" and "AddPlayer i (room_at s k) = ((pid, True), room)"
    and "ssConn ss = i" and "ssPhase ss = Forwarding k pid" and "list_all (action_ok (ssPhase ss)) as"
  shows "sys_ok D (upd_session i (ss, as) (upd_room k room s))"
proof -
  let ?s = "upd_session i (ss, as) (upd_room k room s)"
  from assms(1) have ok: "conns_ok s" "rooms_ok D s" "members_ok s" "deliveries_ok s" by (simp_all only: sys_ok_def)
  have room: "room = snd (AddPlayer i (room_at s k))" by (simp add: assms(5))
  have t: "room_tracks D (frames_at k s) (room_at s k)" using ok(2) assms(4) by (simp add: rooms_ok_def)
  have "rmCfg room = rmCfg (room_at s k)" by (simp add: room AddPlayer_def split: option.split)
  from rooms_ok_upd_room [OF ok(2) assms(4) this, of "[]"] room_tracks_step [OF t room_step.join [of _ i]]
  have "rooms_ok D (upd_room k room s)" by (simp add: room upd_room_def)
  moreover have "rooms_ok D ?s = rooms_ok D (upd_room k room s)" by (rule rooms_ok_cong) simp_all
  moreover have ro: "room_of ?s = (room_of s)(i := Some k)"
    using assms(2,7) by (auto simp: fun_eq_iff room_of_def)
  moreover have "members_ok ?s"
  proof -
    have d: "distinct (recipients (room_at s j))" "set (recipients (room_at s j)) = {c. room_of s c = Some j}"
      if "j < length (rrHeap (syRegistry s))" for j
      using ok(3) that by (simp_all add: members_ok_def)
    from AddPlayer_recipients [OF assms(5)] d [OF assms(4)] assms(3) have
      "set (recipients room) = insert i {c. room_of s c = Some k}" "distinct (recipients room)" by auto
    with d ok(3) assms(3,4) show ?thesis
      unfolding members_ok_def ro by (auto simp: nth_list_update)
  qed
  moreover have "deliveries_ok ?s"
  proof -
    have fr: "frames_at j ?s = frames_at j s" "frames_to c ?s = frames_to c s" for j c
      by (simp_all add: frames_at_def frames_to_def sent_to_def)
    show ?thesis
      unfolding deliveries_ok_def ro fr using ok(4) assms(3) by (auto simp: deliveries_ok_def)
  qed
  moreover have "conns_ok ?s" using ok(1) assms(2,6,8) by (auto simp: conns_ok_def nth_list_update)
  ultimately show ?thesis by (simp only: sys_ok_def)
qed

lemma sys_ok_run_session:
  assumes "sys_ok D s" and "cfg_ok D" and "rcPlayerCount D \<le> 65536" and "i < length (sySessions s)"
  shows "\<exists>s'. run_session D i g data s = Inr s' \<and> sys_ok D s'"
proof -
  let ?ss = "fst (sySessions s ! i)" and ?reg = "syRegistry s"
  from assms(1) have ok: "conns_ok s" "rooms_ok D s" by (simp_all only: sys_ok_def)
  have D: "rrDefaults ?reg = D" using ok(2) by (simp add: rooms_ok_def)
  have i: "ssConn ?ss = i" using ok(1) assms(4) by (simp add: conns_ok_def)
  from session_step_ok [of ?reg D g data ?ss] assms(2) D obtain as reg' ss' where
    st: "session_step D g data ?reg ?ss = Inr (as, reg', ss')" "ssConn ss' = ssConn ?ss" by auto
  have as: "list_all (action_ok (ssPhase ss')) as" and eff: "session_effect ?reg ?ss reg' ss'"
    using session_step_effect [OF st(1)] assms(2) D by simp_all
  have ri: "room_of s i = (case ssPhase ?ss of Forwarding k pid \<Rightarrow> Some k | _ \<Rightarrow> None)"
    using assms(4) by (simp add: room_of_def)
  have "sys_ok D (upd_session i (ss', as) (s\<lparr>syRegistry := reg'\<rparr>))"
    using eff
  proof cases
    case same
    then have "sys_ok D (upd_session i (ss', as) s)" using assms(4) i as ri
      by (intro sys_ok_upd_session [OF assms(1)]) (auto split: phase.split)
    with same show ?thesis by simp
  next
    case (moved ph)
    then have "sys_ok D (upd_session i (ss', as) s)" using assms(4) i as ri
      by (intro sys_ok_upd_session [OF assms(1)]) (auto split: phase.split)
    with moved show ?thesis by simp
  next
    case (full roomID k)
    from GetOrCreate_effect [OF assms(1-3) full(3)] have "sys_ok D (s\<lparr>syRegistry := reg'\<rparr>)" by blast
    with full i as ri assms(4) show ?thesis
      by (intro sys_ok_upd_session) (auto simp: room_of_def)
  next
    case (joined roomID k reg1 pid room)
    let ?s = "s\<lparr>syRegistry := reg1\<rparr>"
    from GetOrCreate_effect [OF assms(1-3) joined(4)] have "sys_ok D ?s" "k < length (rrHeap reg1)" by auto
    with joined i as ri assms(4) have "sys_ok D (upd_session i (ss', as) (upd_room k room ?s))"
      by (intro sys_ok_joined [where pid = pid]) (auto simp: room_of_def)
    with joined show ?thesis by (simp add: upd_room_def)
  qed
  with st show ?thesis by (simp add: run_session_def)
qed

lemma sys_ok_take:
  assumes "sys_ok D s" and "cfg_ok D" and "rcPlayerCount D \<le> 65536"
  shows "\<exists>s'. on_take D i g s = Inr s' \<and> sys_ok D s'"
proof (cases "i < length (sySessions s)")
  case True
  let ?c = "ssConn (fst (sySessions s ! i))"
  have c: "conns_ok s" using assms(1) by (simp only: sys_ok_def)
  then have "?c = i" "i < length (lsHeap (syListener s))" using True by (simp_all add: conns_ok_def)
  then have k: "conn_ok (conn_at s ?c)" using c by (auto simp: conns_ok_def intro: listener_conn_ok)
  obtain d cn where t: "take_inbox (conn_at s ?c) = (d, cn)" by fastforce
  have "conns_ok (upd_conn ?c cn s)"
    using conn_ok_take [OF k] take_inbox_frame [of "conn_at s ?c"] t by (intro conns_ok_upd_conn [OF c]) simp_all
  from sys_ok_upd_conn [OF assms(1) this] have ok: "sys_ok D (upd_conn ?c cn s)" .
  from sys_ok_run_session [OF ok assms(2,3), of i g d] True assms(1) t show ?thesis
    by (auto simp: on_take_def Let_def split: option.split)
qed (simp add: on_take_def assms(1))

lemma sys_ok_perform:
  assumes "sys_ok D s"
  shows "sys_ok D (on_perform i env s)"
proof (cases "i < length (sySessions s) \<and> snd (sySessions s ! i) \<noteq> []")
  case True
  then obtain ss a as where x: "sySessions s ! i = (ss, a # as)" by (cases "sySessions s ! i"; cases "snd (sySessions s ! i)") auto
  from assms have ok: "conns_ok s" "members_ok s" by (simp_all only: sys_ok_def)
  from ok(1) True x have i: "ssConn ss = i" "action_ok (ssPhase ss) a" "list_all (action_ok (ssPhase ss)) as"
    "i < length (lsHeap (syListener s))" by (auto simp: conns_ok_def dest!: spec [of _ i])
  have r: "case ssPhase ss of Forwarding k pid \<Rightarrow> room_of s i = Some k | _ \<Rightarrow> room_of s i = None"
    using True x by (auto simp: room_of_def split: phase.split)
  show ?thesis
  proof (cases a)
    case (Reply d)
    let ?s = "send_to env (i, d) s"
    have "conns_ok ?s" using send_to_listener [of s "(i, d)" env] ok(1) i(4) by (simp add: conns_ok_def)
    moreover have "frames_to c ?s = frames_to c s" for c
      using i(2) Reply by (simp add: frames_to_def sent_to_def action_ok_def)
    ultimately have "sys_ok D ?s" by (intro sys_ok_cong [OF assms] room_of_cong) simp_all
    moreover have "room_of ?s = room_of s" by (rule room_of_cong) simp
    ultimately have "sys_ok D (upd_session i (ss, as) ?s)"
      using True i r by (intro sys_ok_upd_session) (simp_all only: send_to_simps upd_simps)
    with True x i Reply show ?thesis by (simp add: on_perform_def)
  next
    case (Forward k msg)
    from i(2) Forward obtain pid where m: "msg_ok msg" "ssPhase ss = Forwarding k pid" by (auto simp: action_ok_def)
    with r ok(2) have k: "k < length (rrHeap (syRegistry s))" by (auto simp: members_ok_def)
    let ?s = "upd_room k ((room_at s k)\<lparr>rmInbox := rmInbox (room_at s k) @ [msg]\<rparr>) s"
    have "sys_ok D ?s" by (rule sys_ok_forward [OF assms k m(1)])
    moreover have "room_of ?s = room_of s" by (rule room_of_cong) simp
    ultimately have "sys_ok D (upd_session i (ss, as) ?s)"
      using True i r by (intro sys_ok_upd_session) (simp_all only: send_to_simps upd_simps)
    with True x i Forward assms show ?thesis by (simp add: on_perform_def Let_def)
  qed
next
  case False
  with assms show ?thesis by (auto simp: on_perform_def split: prod.split list.split)
qed

lemma sys_step_ok:
  assumes "sys_ok D s" and "cfg_ok D" and "rcPlayerCount D \<le> 65536"
  shows "\<exists>s'. sys_step D ev s = Inr s' \<and> sys_ok D s'"
proof (cases ev)
  case (TimeOut i g)
  with sys_ok_run_session [OF assms, of i g None] assms(1) show ?thesis by (auto simp: on_timeout_def)
next
  case (TickRoom k now env)
  with sys_ok_tick [OF assms(1), of k now env] assms(1) show ?thesis
    by (cases "room_running k s") (auto simp: on_tick_def)
qed (use sys_ok_receive [OF assms(1)] sys_ok_take [OF assms] sys_ok_perform [OF assms(1)]
  sys_ok_wake [OF assms(1)] sys_ok_retransmit [OF assms(1)] in auto)

lemma sys_run_ok:
  "sys_ok D s \<Longrightarrow> cfg_ok D \<Longrightarrow> rcPlayerCount D \<le> 65536 \<Longrightarrow> \<exists>s'. sys_run D evs s = Inr s' \<and> sys_ok D s'"
proof (induction evs arbitrary: s)
  case (Cons ev evs)
  from sys_step_ok [OF Cons.prems, of ev] obtain s1 where "sys_step D ev s = Inr s1" "sys_ok D s1" by blast
  with Cons show ?case by simp
qed simp

lemma sys_run_append: "sys_run D (evs @ fs) s = and_then (sys_run D evs s) (sys_run D fs)"
proof (induction evs arbitrary: s)
  case (Cons ev evs)
  then show ?case by (cases "sys_step D ev s") simp_all
qed simp

lemma reached_ok:
  "sys_run D evs (start D) = Inr s \<Longrightarrow> cfg_ok D \<Longrightarrow> rcPlayerCount D \<le> 65536 \<Longrightarrow> sys_ok D s"
  using sys_run_ok [OF sys_ok_start, of D evs] by auto

section \<open>Since a connection joined\<close>

text \<open>What a step gives: the frames sealed, and the same frames to the connections that play in their room.\<close>

definition gives :: "system \<Rightarrow> (nat \<Rightarrow> FrameBundle list) \<Rightarrow> system \<Rightarrow> bool" where
  "gives s gs s' \<longleftrightarrow> (\<forall>j. frames_at j s' = frames_at j s @ gs j) \<and>
     (\<forall>c k. room_of s c = Some k \<longrightarrow> room_of s' c = Some k \<and> frames_to c s' = frames_to c s @ map enc_frame (gs k)) \<and>
     (\<forall>c. room_of s c = None \<and> room_of s' c \<noteq> None \<longrightarrow> frames_to c s' = frames_to c s \<and> gs = (\<lambda>j. []))"

lemma gives_nothing:
  "syFrames s' = syFrames s \<Longrightarrow> (\<And>c. frames_to c s' = frames_to c s) \<Longrightarrow>
    (\<And>c k. room_of s c = Some k \<Longrightarrow> room_of s' c = Some k) \<Longrightarrow> gives s (\<lambda>j. []) s'"
  by (auto simp: gives_def frames_at_def)

lemma gives_same:
  assumes "sySessions s' = sySessions s" and "syFrames s' = syFrames s" and "sySent s' = sySent s"
  shows "gives s (\<lambda>j. []) s'"
proof -
  have "room_of s' = room_of s" using assms(1) by (rule room_of_cong)
  moreover have "frames_to c s' = frames_to c s" for c using assms(3) by (rule frames_to_cong)
  ultimately show ?thesis using assms(2) by (intro gives_nothing) simp_all
qed

lemma run_session_gives:
  assumes "run_session D i g d s = Inr s'" and "cfg_ok (rrDefaults (syRegistry s))" and "i < length (sySessions s)"
  shows "gives s (\<lambda>j. []) s'"
proof -
  from assms(1) obtain as reg ss where
    st: "session_step D g d (syRegistry s) (fst (sySessions s ! i)) = Inr (as, reg, ss)"
    "s' = upd_session i (ss, as) (s\<lparr>syRegistry := reg\<rparr>)" by (auto simp: run_session_def split: sum.splits)
  have "ssPhase ss = Forwarding k pid" if "ssPhase (fst (sySessions s ! i)) = Forwarding k pid" for k pid
    using session_step_effect(1) [OF st(1) assms(2)] that by cases auto
  then have "room_of s' c = Some k" if "room_of s c = Some k" for c k
    using that assms(3) by (cases "c = i") (auto simp: st(2) room_of_def split: phase.splits if_splits)
  then show ?thesis by (intro gives_nothing) (simp_all add: st(2) frames_to_def sent_to_def)
qed

lemma step_gives:
  assumes "sys_ok D s" and "cfg_ok D" and "sys_step D ev s = Inr s'"
  shows "\<exists>gs. gives s gs s'"
proof -
  have D: "cfg_ok (rrDefaults (syRegistry s))" using assms(1,2) by (simp add: sys_ok_def rooms_ok_def)
  have quiet: "\<exists>gs. gives s gs s'" if "gives s (\<lambda>j. []) s'" using that by blast
  show ?thesis
  proof (cases ev)
    case (Receive now d a)
    obtain l out new where "handlePacket now (take readBufferSize d) a (syListener s) = (l, out, new)" by (metis prod.exhaust)
    with Receive assms(3) have s': "s' = s\<lparr>syListener := l, sySessions := sySessions s @ (case new of None \<Rightarrow> [] | Some c \<Rightarrow> [(new_session c, [])])\<rparr>"
      by (simp add: on_receive_def)
    show ?thesis
      by (intro quiet gives_nothing) (auto simp: s' frames_to_def sent_to_def room_of_def nth_append split: if_splits)
  next
    case (TimeOut i g)
    show ?thesis
    proof (cases "s' = s")
      case False
      with TimeOut assms(3) show ?thesis using run_session_gives [OF _ D]
        by (intro quiet) (auto simp: on_timeout_def split: if_splits)
    qed (use quiet in \<open>auto intro: gives_nothing\<close>)
  next
    case (Take i g)
    show ?thesis
    proof (cases "s' = s")
      case False
      let ?c = "ssConn (fst (sySessions s ! i))"
      from False Take assms(3) obtain d cn where
        r: "run_session D i g (Some d) (upd_conn ?c cn s) = Inr s'" "i < length (sySessions s)"
        by (auto simp: on_take_def Let_def split: if_splits option.splits prod.splits)
      have "gives (upd_conn ?c cn s) (\<lambda>j. []) s'" using r D by (intro run_session_gives [OF r(1)]) simp_all
      moreover have "room_of (upd_conn ?c cn s) = room_of s" "frames_to x (upd_conn ?c cn s) = frames_to x s"
        "frames_at j (upd_conn ?c cn s) = frames_at j s" for x j
        by (rule room_of_cong frames_to_cong; simp)+ (simp add: frames_at_def)
      ultimately show ?thesis by (intro quiet) (simp add: gives_def)
    qed (use quiet in \<open>auto intro: gives_nothing\<close>)
  next
    case (Perform i env)
    show ?thesis
    proof (cases "i < length (sySessions s) \<and> snd (sySessions s ! i) \<noteq> []")
      case True
      then obtain ss a as where x: "sySessions s ! i = (ss, a # as)"
        by (cases "sySessions s ! i"; cases "snd (sySessions s ! i)") auto
      have "conns_ok s" using assms(1) by (simp only: sys_ok_def)
      with True x have i: "action_ok (ssPhase ss) a" by (auto simp: conns_ok_def dest!: spec [of _ i])
      have "sySessions s' = (sySessions s)[i := (ss, as)] \<or> sySessions s' = sySessions s"
        using Perform assms(3) x True by (auto simp: on_perform_def Let_def split: action.splits if_splits)
      then have "room_of s' = room_of s" using x True
        by (auto simp: fun_eq_iff room_of_def nth_list_update)
      moreover have "syFrames s' = syFrames s" "frames_to c s' = frames_to c s" for c
        using Perform assms(3) x True i
        by (auto simp: on_perform_def Let_def frames_to_def sent_to_def action_ok_def split: action.splits)
      ultimately show ?thesis by (intro quiet gives_nothing) auto
    next
      case False
      with Perform assms(3) have "s' = s" by (auto simp: on_perform_def split: prod.splits list.splits)
      then show ?thesis by (intro quiet gives_nothing) auto
    qed
  next
    case (Wake k)
    with assms(3) have "sySessions s' = sySessions s" "syFrames s' = syFrames s" "sySent s' = sySent s"
      by (auto simp: on_wake_def and_then_eq_Inr split: if_splits list.splits)
    then show ?thesis by (intro quiet gives_same)
  next
    case (TickRoom k now env)
    show ?thesis
    proof (cases "room_running k s")
      case True
      from sys_ok_tick [OF assms(1) True, of now env] TickRoom assms(3) obtain f where
        f: "syFrames s' = syFrames s @ [(k, f)]" "sySessions s' = sySessions s"
          "\<And>c. frames_to c s' = frames_to c s @ (if room_of s c = Some k then [enc_frame f] else [])" by auto
      have "room_of s' = room_of s" using f(2) by (rule room_of_cong)
      then have "gives s (\<lambda>j. if j = k then [f] else []) s'"
        by (auto simp: gives_def f(1,3) frames_at_def)
      then show ?thesis by blast
    next
      case False
      with TickRoom assms(3) have "s' = s" by (simp add: on_tick_def)
      then show ?thesis by (intro quiet gives_nothing) auto
    qed
  next
    case (Retransmit c now)
    with assms(3) have "sySessions s' = sySessions s" "syFrames s' = syFrames s" "sySent s' = sySent s"
      by (auto simp: on_retransmit_def split: prod.splits if_splits)
    then show ?thesis by (intro quiet gives_same)
  qed
qed

text \<open>\<open>joined_from D c k s1 s\<close>: the server reached \<open>s1\<close>, where connection \<open>c\<close> played in no room, the next event
  gave it its place in room \<open>k\<close>, and the server went on to \<open>s\<close>.\<close>

inductive joined_from :: "RoomConfig \<Rightarrow> nat \<Rightarrow> nat \<Rightarrow> system \<Rightarrow> system \<Rightarrow> bool" for D c k s1 where
  join: "sys_run D evs (start D) = Inr s1 \<Longrightarrow> room_of s1 c = None \<Longrightarrow> sys_step D ev s1 = Inr s2 \<Longrightarrow>
    room_of s2 c = Some k \<Longrightarrow> joined_from D c k s1 s2"
| later: "joined_from D c k s1 s \<Longrightarrow> sys_step D ev s = Inr s' \<Longrightarrow> joined_from D c k s1 s'"

lemma joined_from_frames:
  assumes "joined_from D c k s1 s" and "cfg_ok D" and "rcPlayerCount D \<le> 65536"
  shows "sys_ok D s \<and> room_of s c = Some k \<and>
    (\<exists>gs. frames_at k s = frames_at k s1 @ gs \<and> frames_to c s = map enc_frame gs)"
  using assms(1)
proof (induction rule: joined_from.induct)
  case (join evs ev s2)
  from reached_ok [OF join(1) assms(2,3)] have ok: "sys_ok D s1" .
  from sys_step_ok [OF ok assms(2,3), of ev] join(3) have "sys_ok D s2" by auto
  moreover from step_gives [OF ok assms(2) join(3)] obtain gs where "gives s1 gs s2" by blast
  with join(2,4) have "frames_to c s2 = frames_to c s1" "frames_at k s2 = frames_at k s1" by (auto simp: gives_def)
  moreover have "frames_to c s1 = []" using ok join(2) by (simp add: sys_ok_def deliveries_ok_def)
  ultimately show ?case using join(4) by simp
next
  case (later s ev s')
  from later.IH have ok: "sys_ok D s" "room_of s c = Some k" by auto
  from sys_step_ok [OF ok(1) assms(2,3), of ev] later(2) have "sys_ok D s'" by auto
  moreover from step_gives [OF ok(1) assms(2) later(2)] obtain gs where "gives s gs s'" by blast
  with ok(2) have "room_of s' c = Some k" "frames_to c s' = frames_to c s @ map enc_frame (gs k)"
    "frames_at k s' = frames_at k s @ gs k" by (auto simp: gives_def)
  ultimately show ?case using later.IH by auto
qed

lemma member_joined:
  assumes "sys_run D evs (start D) = Inr s" and "room_of s c = Some k" and "cfg_ok D" and "rcPlayerCount D \<le> 65536"
  shows "\<exists>s1. joined_from D c k s1 s"
  using assms(1,2)
proof (induction evs arbitrary: s rule: rev_induct)
  case Nil
  then show ?case by (auto simp: start_def room_of_def)
next
  case (snoc ev evs)
  from snoc.prems(1) obtain s0 where s0: "sys_run D evs (start D) = Inr s0" "sys_step D ev s0 = Inr s"
    by (auto simp: sys_run_append and_then_eq_Inr)
  show ?case
  proof (cases "room_of s0 c")
    case None
    from joined_from.join [OF s0(1) None s0(2) snoc.prems(2)] show ?thesis by blast
  next
    case (Some k')
    from step_gives [OF reached_ok [OF s0(1) assms(3,4)] assms(3) s0(2)] Some snoc.prems(2) have "k' = k"
      by (auto simp: gives_def)
    with snoc.IH [OF s0(1)] Some joined_from.later [OF _ s0(2)] show ?thesis by blast
  qed
qed

section \<open>A run\<close>

text \<open>One peer connects, says hello and asks to join a room: up to the point where its session has
  given it a place and has not yet sent the answer.\<close>

definition no_loss :: "nat \<Rightarrow> send_env" where
  "no_loss n = \<lparr>seNow = 0, seWriteOk = True, seDrop = False, seDuplicate = False\<rparr>"

definition syn_data :: "byte list" where
  "syn_data = encodePacket \<lparr>pkFlags = FlagSYN, pkConnID = 0, pkSeq = 0, pkAck = 0, pkAckBitmask = 0, pkPayload = []\<rparr>"

definition joining :: "event list" where
  "joining = [Receive 0 syn_data ''a'',
     Receive 0 (encodePacket (data_at 1 (encode_or_nil
       (MHello \<lparr>heProtocolVersion = ProtocolVersion, hePlayerName = [98]\<rparr>)))) ''a'',
     Take 0 [], Perform 0 no_loss,
     Receive 0 (encodePacket (data_at 2 (encode_or_nil (MJoinRoom \<lparr>jrRoomID = [97]\<rparr>)))) ''a'',
     Take 0 []]"

definition in_order :: "event list" where
  "in_order = [Perform 0 no_loss, TickRoom 0 0 no_loss]"

definition overtaken :: "event list" where
  "overtaken = [TickRoom 0 0 no_loss, Perform 0 no_loss]"

lemma in_order_run:
  "case sys_run two_players (joining @ in_order) (start two_players) of Inl e \<Rightarrow> False
    | Inr s \<Rightarrow> room_of s 0 = Some 0 \<and> length (rrHeap (syRegistry s)) = 1 \<and> room_running 0 s \<and>
        length (frames_at 0 s) = 1 \<and> map hd (sent_to 0 s) = [MsgHelloAck, MsgJoinAck, MsgFrameBundle] \<and>
        length (frames_to 0 s) = 1"
  by code_simp

lemma played_in_order:
  obtains s where "sys_run two_players (joining @ in_order) (start two_players) = Inr s" "room_of s 0 = Some 0"
    "length (rrHeap (syRegistry s)) = 1" "room_running 0 s" "length (frames_at 0 s) = 1"
    "map hd (sent_to 0 s) = [MsgHelloAck, MsgJoinAck, MsgFrameBundle]" "length (frames_to 0 s) = 1"
  using in_order_run that by (auto split: sum.splits)

section \<open>Properties\<close>

text \<open>C6: the server never panics. Whatever datagrams arrive and however its goroutines interleave, every
  run returns a state, and in it every running room can seal its next frame.\<close>

theorem server_never_panics:
  assumes "cfg_ok D" and "rcPlayerCount D \<le> 65536"
  shows "\<exists>s. sys_run D evs (start D) = Inr s \<and>
    (\<forall>k. room_running k s \<longrightarrow> (\<exists>s'. sys_step D (TickRoom k now env) s = Inr s' \<and>
       length (frames_at k s') = Suc (length (frames_at k s))))"
proof -
  from sys_run_ok [OF sys_ok_start assms] obtain s where s: "sys_run D evs (start D) = Inr s" "sys_ok D s" by blast
  have "\<exists>s'. sys_step D (TickRoom k now env) s = Inr s' \<and> length (frames_at k s') = Suc (length (frames_at k s))"
    if k: "room_running k s" for k
    using sys_ok_tick [OF s(2) k, of now env] by (auto simp: frames_at_def)
  with s show ?thesis by blast
qed

theorem server_never_panics_witness:
  "\<exists>s s'. sys_run two_players (joining @ in_order) (start two_players) = Inr s \<and>
    sys_step two_players (TickRoom 0 7 no_loss) s = Inr s' \<and> length (frames_at 0 s') = 2"
proof -
  obtain s where s: "sys_run two_players (joining @ in_order) (start two_players) = Inr s"
    "room_running 0 s" "length (frames_at 0 s) = 1" by (rule played_in_order)
  with server_never_panics [OF two_players_ok, of "joining @ in_order" 7 no_loss] show ?thesis by auto
qed

text \<open>C7: in every state the server reaches, the world of every room is the bare simulation, from the
  world of the configuration, run on the commands of the frames that the room has sealed; the frames
  are numbered from 1 without gaps, and the history is the last 200 of them.\<close>

theorem server_rooms_refine:
  assumes "cfg_ok D" and "rcPlayerCount D \<le> 65536" and "sys_run D evs (start D) = Inr s"
    and "k < length (rrHeap (syRegistry s))"
  shows "sim.run (client_world (rcSeed D) (rcMapW D) (rcMapH D) (nat (rcPlayerCount D)) 5)
      (map frame_cmds (frames_at k s)) = (Inr (rmWorld (room_at s k)) :: unit fault + World) \<and>
    map fbTick (frames_at k s) = map (\<lambda>i. 1 + of_nat i) [0..<length (frames_at k s)] \<and>
    rmTick (room_at s k) = of_nat (length (frames_at k s)) \<and>
    rmFrameHistory (room_at s k) = last_n 200 (frames_at k s)"
proof -
  have "rooms_ok D s" using reached_ok [OF assms(3,1,2)] by (simp only: sys_ok_def)
  then have "room_tracks D (frames_at k s) (room_at s k)" using assms(4) by (simp add: rooms_ok_def)
  then show ?thesis by (auto simp: room_tracks_def sealed_by_def)
qed

theorem server_rooms_refine_witness:
  "\<exists>s. sys_run two_players (joining @ in_order) (start two_players) = Inr s \<and> length (frames_at 0 s) = 1 \<and>
    sim.run (client_world 42 100 100 2 5) (map frame_cmds (frames_at 0 s)) =
      (Inr (rmWorld (room_at s 0)) :: unit fault + World) \<and> rmTick (room_at s 0) = 1"
proof -
  obtain s where s: "sys_run two_players (joining @ in_order) (start two_players) = Inr s"
    "length (rrHeap (syRegistry s)) = 1" "length (frames_at 0 s) = 1" by (rule played_in_order)
  with server_rooms_refine [OF two_players_ok s(1), of 0] show ?thesis by (simp add: two_players_def)
qed

text \<open>C5: a connection whose session forwards to a room is in that room's broadcast and in no other's. There was a
  state \<open>s1\<close> in which its session was about to be given its place, and it has been given to send exactly the
  frames that the room has sealed since that state, in order, each once, and no other frame; any other
  connection has been given none.\<close>

theorem members_receive_frames:
  assumes "cfg_ok D" and "rcPlayerCount D \<le> 65536" and "sys_run D evs (start D) = Inr s"
  shows "(room_of s c = None \<longrightarrow> frames_to c s = []) \<and>
    (\<forall>k. room_of s c = Some k \<longrightarrow> k < length (rrHeap (syRegistry s)) \<and>
      (\<forall>j < length (rrHeap (syRegistry s)). c \<in> set (recipients (room_at s j)) \<longleftrightarrow> j = k) \<and>
      (\<exists>s1. joined_from D c k s1 s) \<and>
      (\<forall>s1. joined_from D c k s1 s \<longrightarrow>
        (\<exists>gs. frames_at k s = frames_at k s1 @ gs \<and> frames_to c s = map enc_frame gs)))"
proof -
  have ok: "members_ok s" "deliveries_ok s" using reached_ok [OF assms(3,1,2)] by (simp_all only: sys_ok_def)
  with member_joined [OF assms(3) _ assms(1,2)] joined_from_frames [OF _ assms(1,2)] show ?thesis
    by (auto simp: members_ok_def deliveries_ok_def)
qed

theorem members_receive_frames_witness:
  "\<exists>s s1 gs. sys_run two_players (joining @ in_order) (start two_players) = Inr s \<and> joined_from two_players 0 0 s1 s \<and>
    length (frames_at 0 s) = 1 \<and> frames_at 0 s = frames_at 0 s1 @ gs \<and> frames_to 0 s = map enc_frame gs"
proof -
  obtain s where s: "sys_run two_players (joining @ in_order) (start two_players) = Inr s" "room_of s 0 = Some 0"
    "length (frames_at 0 s) = 1" by (rule played_in_order)
  from members_receive_frames [OF two_players_ok s(1), of 0] s(2) obtain s1 gs where
    "joined_from two_players 0 0 s1 s" "frames_at 0 s = frames_at 0 s1 @ gs" "frames_to 0 s = map enc_frame gs" by auto
  with s show ?thesis by blast
qed

text \<open>C24: a join can fail without a fault. The session takes the player's slot before it sends the
  answer, so a tick in between sends a frame first; the client, which takes the first message for the
  answer, rejects the join, although it holds a slot on the server from then on.\<close>

theorem join_overtaken_by_frame:
  "\<exists>evs s ack frame join. sys_run two_players evs (start two_players) = Inr s \<and>
    sent_to 0 s = [ack, frame, join] \<and> room_of s 0 = Some 0 \<and>
    Connect \<lparr>ceSynOk = True, ceSynAck = Some (fst (synack (conn_at s 0))), ceHello = no_loss 0,
        ceHelloReads = [(0, encodePacket (data_at 1 ack))], ceJoin = no_loss 0,
        ceJoinReads = [(0, encodePacket (data_at 2 frame)), (0, encodePacket (data_at 3 join))]\<rparr>
      [98] [97] (NewClient ''s'' False 0) = Inl (Err JoinAckRejected)"
proof -
  have "case sys_run two_players (joining @ overtaken) (start two_players) of Inl e \<Rightarrow> False
    | Inr s \<Rightarrow> room_of s 0 = Some 0 \<and>
       (case sent_to 0 s of [ack, frame, join] \<Rightarrow>
          (case Connect \<lparr>ceSynOk = True, ceSynAck = Some (fst (synack (conn_at s 0))), ceHello = no_loss 0,
              ceHelloReads = [(0, encodePacket (data_at 1 ack))], ceJoin = no_loss 0,
              ceJoinReads = [(0, encodePacket (data_at 2 frame)), (0, encodePacket (data_at 3 join))]\<rparr>
            [98] [97] (NewClient ''s'' False 0) of Inl (Err JoinAckRejected) \<Rightarrow> True | _ \<Rightarrow> False)
        | _ \<Rightarrow> False)"
    by code_simp
  then show ?thesis by (auto split: sum.splits list.splits fault.splits client_error.splits) blast
qed

end
