(* ===== verification/Obs.thy ===== *)
theory Obs
  imports Prelude "HOL-Library.List_Lexorder"
begin

text \<open>
  \<^verbatim>\<open>internal/obs\<close>: counters, gauges, histograms, the metrics registry and the
  trace ring. Metrics are shared through pointers, so the registry holds indices into a heap. A
  histogram's float64 is any linearly ordered type with addition (NaN is left out). The dump is
  the list of the printed names and values, not their formatting.
\<close>

section \<open>Counters and gauges\<close>

type_synonym Counter = u64
type_synonym Gauge = i64

definition counterInc :: "Counter \<Rightarrow> Counter" where "counterInc c = c + 1"
definition counterAdd :: "u64 \<Rightarrow> Counter \<Rightarrow> Counter" where "counterAdd n c = c + n"
definition gaugeSet :: "i64 \<Rightarrow> Gauge \<Rightarrow> Gauge" where "gaugeSet v g = v"
definition gaugeInc :: "Gauge \<Rightarrow> Gauge" where "gaugeInc g = g + 1"
definition gaugeDec :: "Gauge \<Rightarrow> Gauge" where "gaugeDec g = g + (-1)"
definition gaugeAdd :: "i64 \<Rightarrow> Gauge \<Rightarrow> Gauge" where "gaugeAdd n g = g + n"

section \<open>Histograms\<close>

record 'f Histogram =
  hiCount :: u64
  hiSum :: 'f
  hiMin :: 'f
  hiMax :: 'f

definition newHistogram :: "'f::{linorder,plus,zero} Histogram" where
  "newHistogram = \<lparr>hiCount = 0, hiSum = 0, hiMin = 0, hiMax = 0\<rparr>"

definition Observe :: "'f::{linorder,plus,zero} \<Rightarrow> 'f Histogram \<Rightarrow> 'f Histogram" where
  "Observe v h =
     (let h = h\<lparr>hiCount := hiCount h + 1, hiSum := hiSum h + v\<rparr>;
          h = (if hiCount h = 1 \<or> v < hiMin h then h\<lparr>hiMin := v\<rparr> else h);
          h = (if v > hiMax h then h\<lparr>hiMax := v\<rparr> else h)
      in h)"

lemma Observe_fields:
  "hiCount (Observe v h) = hiCount h + 1" "hiSum (Observe v h) = hiSum h + v"
  "hiMin (Observe v h) = (if hiCount h + 1 = 1 then v else min v (hiMin h))"
  "hiMax (Observe v h) = max (hiMax h) v"
  by (auto simp: Observe_def Let_def min_def max_def)

text \<open>The count, the minimum and the sum are right; the maximum never goes below zero.\<close>

lemma Observe_all:
  fixes vs :: "'f::{linordered_ab_group_add} list"
  assumes "vs \<noteq> []" and "length vs < 2 ^ 64"
  defines "h \<equiv> foldl (\<lambda>h v. Observe v h) newHistogram vs"
  shows "hiCount h = of_nat (length vs) \<and> hiSum h = sum_list vs \<and> hiMin h = Min (set vs) \<and>
    hiMax h = max 0 (Max (set vs))"
  using assms(1,2) unfolding h_def
proof (induction vs rule: rev_nonempty_induct)
  case (single v)
  then show ?case by (simp add: newHistogram_def Observe_fields)
next
  case (snoc v vs)
  let ?h = "foldl (\<lambda>h v. Observe v h) newHistogram vs"
  have ih: "hiCount ?h = of_nat (length vs)" "hiSum ?h = sum_list vs" "hiMin ?h = Min (set vs)"
    "hiMax ?h = max 0 (Max (set vs))" using snoc by simp_all
  have "unat (of_nat (Suc (length vs)) :: u64) = Suc (length vs)"
    using snoc.prems by (intro of_nat_inverse) simp_all
  moreover have "hiCount ?h + 1 = of_nat (Suc (length vs))" using ih by simp
  ultimately have n: "unat (hiCount ?h + 1) = Suc (length vs)" by (simp only:)
  have "hiCount ?h + 1 \<noteq> 1"
  proof
    assume "hiCount ?h + 1 = 1"
    with n have "Suc (length vs) = 1" by (metis unat_1)
    with snoc.hyps show False by simp
  qed
  with ih snoc.hyps show ?case
    by (simp add: Observe_fields max.assoc max.commute [of v])
qed

section \<open>The registry\<close>

type_synonym name = "byte list"

text \<open>
  \<^verbatim>\<open>Counter\<close>, \<^verbatim>\<open>Gauge\<close> and \<^verbatim>\<open>Histogram\<close> are the same code over
  three maps: look up, and create under the lock when absent. The second look-up, under the lock,
  sees what another goroutine created in between.
\<close>

record 'm metrics =
  mtHeap :: "'m list"
  mtNames :: "(name \<times> nat) list"

definition NewMetrics :: "'m metrics" where
  "NewMetrics = \<lparr>mtHeap = [], mtNames = []\<rparr>"

definition metric :: "'m \<Rightarrow> name \<Rightarrow> 'm metrics \<Rightarrow> nat \<times> 'm metrics" where
  "metric fresh name r =
     (case map_of (mtNames r) name of
        Some c \<Rightarrow> (c, r)
      | None \<Rightarrow>
          (let c = length (mtHeap r)
           in (c, r\<lparr>mtHeap := mtHeap r @ [fresh], mtNames := AList.update name c (mtNames r)\<rparr>)))"

definition sortedKeys :: "(name \<times> nat) list \<Rightarrow> name list" where
  "sortedKeys m = sort (map fst m)"

definition dump :: "'m metrics \<Rightarrow> (name \<times> 'm) list" where
  "dump r = map (\<lambda>k. (k, mtHeap r ! the (map_of (mtNames r) k))) (sortedKeys (mtNames r))"

definition metrics_ok :: "'m metrics \<Rightarrow> bool" where
  "metrics_ok r \<longleftrightarrow> distinct (map fst (mtNames r)) \<and> map snd (mtNames r) = [0..<length (mtHeap r)]"

lemma metrics_ok_new: "metrics_ok NewMetrics" by (simp add: metrics_ok_def NewMetrics_def)

lemma update_absent: "map_of q k = None \<Longrightarrow> AList.update k v q = q @ [(k, v)]"
  by (induction q) (auto split: if_splits)

lemma metric_ok:
  assumes "metrics_ok r" and "metric fresh n r = (c, r')"
  shows "metrics_ok r' \<and> map_of (mtNames r') n = Some c \<and> c < length (mtHeap r') \<and>
    metric fresh' n r' = (c, r') \<and>
    (\<forall>k \<noteq> n. map_of (mtNames r') k = map_of (mtNames r) k) \<and>
    (\<exists>new. mtHeap r' = mtHeap r @ new)"
proof (cases "map_of (mtNames r) n")
  case (Some x)
  then have "(n, x) \<in> set (mtNames r)" by (rule map_of_SomeD)
  then have "x \<in> set (map snd (mtNames r))" by force
  then have "x < length (mtHeap r)" using assms(1) unfolding metrics_ok_def by (metis atLeastLessThan_iff set_upt)
  with Some assms show ?thesis by (simp add: metric_def)
next
  case None
  let ?q = "AList.update n (length (mtHeap r)) (mtNames r)"
  have r': "c = length (mtHeap r)" "r' = r\<lparr>mtHeap := mtHeap r @ [fresh], mtNames := ?q\<rparr>"
    using None assms(2) by (auto simp: metric_def Let_def)
  have q: "map fst ?q = map fst (mtNames r) @ [n]" "map snd ?q = map snd (mtNames r) @ [length (mtHeap r)]"
    using None by (simp_all add: update_absent)
  have m: "map_of ?q k = (if k = n then Some (length (mtHeap r)) else map_of (mtNames r) k)" for k
    by (simp add: AList.update_conv')
  have "metrics_ok r'"
    using assms(1) None unfolding r' metrics_ok_def by (simp add: q map_of_eq_None_iff)
  then show ?thesis by (simp add: r' m metric_def)
qed

text \<open>The dump lists every metric once, in the order of its name.\<close>

lemma dump_sorted:
  assumes "metrics_ok r"
  shows "sorted (map fst (dump r)) \<and> distinct (map fst (dump r)) \<and>
    set (map fst (dump r)) = fst ` set (mtNames r)"
  using assms by (simp add: dump_def sortedKeys_def comp_def metrics_ok_def)

section \<open>The trace ring\<close>

record TraceEntry =
  teTick :: u32
  teTimestamp :: i64
  teSealDurUs :: i64
  teCmdCount :: int
  tePlayerMask :: u8
  teHashState :: u8

record TraceRing =
  trEntries :: "TraceEntry list"
  trHead :: nat
  trFull :: bool
  trSize :: nat

definition DefaultTraceSize :: nat where "DefaultTraceSize = 4096"

definition zeroEntry :: TraceEntry where
  "zeroEntry = \<lparr>teTick = 0, teTimestamp = 0, teSealDurUs = 0, teCmdCount = 0, tePlayerMask = 0,
     teHashState = 0\<rparr>"

definition NewTraceRing :: "int \<Rightarrow> TraceRing" where
  "NewTraceRing sz =
     (let sz = (if sz \<le> 0 then DefaultTraceSize else nat sz)
      in \<lparr>trEntries = replicate sz zeroEntry, trHead = 0, trFull = False, trSize = sz\<rparr>)"

definition Record :: "TraceEntry \<Rightarrow> TraceRing \<Rightarrow> TraceRing" where
  "Record entry t =
     (let t = t\<lparr>trEntries := (trEntries t)[trHead t := entry]\<rparr>;
          t = t\<lparr>trHead := (trHead t + 1) mod trSize t\<rparr>
      in if trHead t = 0 then t\<lparr>trFull := True\<rparr> else t)"

definition RecordTick :: "u32 \<Rightarrow> i64 \<Rightarrow> i64 \<Rightarrow> int \<Rightarrow> u8 \<Rightarrow> TraceRing \<Rightarrow> TraceRing" where
  "RecordTick tick nowMicro sinceMicro cmdCount plMask t =
     Record \<lparr>teTick = tick, teTimestamp = nowMicro, teSealDurUs = sinceMicro, teCmdCount = cmdCount,
       tePlayerMask = plMask, teHashState = 0\<rparr> t"

definition ring_Snapshot :: "TraceRing \<Rightarrow> TraceEntry list" where
  "ring_Snapshot t =
     (if \<not> trFull t \<and> trHead t = 0 then []
      else if trFull t then drop (trHead t) (trEntries t) @ take (trHead t) (trEntries t)
      else take (trHead t) (trEntries t))"

definition ring_Count :: "TraceRing \<Rightarrow> nat" where
  "ring_Count t = (if trFull t then trSize t else trHead t)"

definition ring_ok :: "TraceRing \<Rightarrow> bool" where
  "ring_ok t \<longleftrightarrow> 0 < trSize t \<and> trHead t < trSize t \<and> length (trEntries t) = trSize t"

lemma ring_Snapshot_length: "ring_ok t \<Longrightarrow> length (ring_Snapshot t) = ring_Count t"
  by (auto simp: ring_Snapshot_def ring_Count_def ring_ok_def)

lemma Record_ok: "ring_ok t \<Longrightarrow> ring_ok (Record e t) \<and> trSize (Record e t) = trSize t"
  by (auto simp: ring_ok_def Record_def Let_def)

lemma Record_Snapshot:
  assumes "ring_ok t"
  shows "ring_Snapshot (Record e t) = last_n (trSize t) (ring_Snapshot t @ [e])"
proof -
  let ?h = "trHead t" and ?es = "trEntries t"
  have h: "?h < length ?es" "trSize t = length ?es" using assms by (auto simp: ring_ok_def)
  obtain k where k: "length ?es = Suc k" using h(1) by (cases "length ?es") auto
  have u: "?es[?h := e] = take ?h ?es @ e # drop (Suc ?h) ?es" using h(1) by (rule upd_conv_take_nth_drop)
  show ?thesis
  proof (cases "Suc ?h = length ?es")
    case True
    then have m: "Suc ?h mod length ?es = 0" by simp
    have "drop ?h ?es = [?es ! ?h]" using True by (metis Cons_nth_drop_Suc drop_all h(1) order_refl)
    with True m h k show ?thesis
      by (auto simp: ring_Snapshot_def Record_def Let_def last_n_def u) (cases "trEntries t"; simp)
  next
    case False
    with h have m: "Suc ?h mod length ?es = Suc ?h" by simp
    have d: "drop ?h ?es = ?es ! ?h # drop (Suc ?h) ?es" using h(1) by (simp add: Cons_nth_drop_Suc)
    show ?thesis using False m h k
      by (auto simp: ring_Snapshot_def Record_def Let_def last_n_def u d)
  qed
qed

interpretation ring: bounded_log trSize ring_Snapshot Record ring_ok
  by unfold_locales (simp_all add: Record_ok Record_Snapshot)

lemma NewTraceRing_ok: "ring_ok (NewTraceRing n)" "ring_Snapshot (NewTraceRing n) = []"
  by (auto simp: ring_ok_def NewTraceRing_def Let_def DefaultTraceSize_def ring_Snapshot_def)

section \<open>Properties\<close>

text \<open>A snapshot of the trace ring lists the entries recorded last, oldest first, up to the ring's
  size, and its count is their number.\<close>

theorem trace_ring_keeps_latest:
  "let t = foldl (\<lambda>t e. Record e t) (NewTraceRing n) es
   in ring_Snapshot t = last_n (trSize (NewTraceRing n)) es \<and> ring_Count t = length (ring_Snapshot t) \<and>
      trSize (NewTraceRing n) = (if n \<le> 0 then DefaultTraceSize else nat n)"
proof -
  let ?new = "NewTraceRing n" and ?t = "foldl (\<lambda>t e. Record e t) (NewTraceRing n) es"
  have t: "?t = ring.pushes es ?new" by (simp add: ring.pushes_def)
  have "ring_Snapshot ?t = last_n (trSize ?new) es"
    unfolding t using ring.pushes_entries [of ?new es] by (simp add: NewTraceRing_ok)
  moreover have "ring_ok ?t" unfolding t using ring.pushes_ok [OF NewTraceRing_ok(1)] by blast
  then have "ring_Count ?t = length (ring_Snapshot ?t)" by (simp add: ring_Snapshot_length)
  moreover have "trSize ?new = (if n \<le> 0 then DefaultTraceSize else nat n)" by (simp add: NewTraceRing_def Let_def)
  ultimately show ?thesis by (simp only: Let_def)
qed

end
