(* ===== verification/ObsText.thy ===== *)
theory ObsText
  imports Obs
begin

text \<open>
  The text that \<^verbatim>\<open>internal/obs\<close> writes: Go's \<^verbatim>\<open>%d\<close> and
  \<^verbatim>\<open>%08b\<close>, the dump of the metrics and of the trace ring, and what a reader of
  the text gets back from it. How \<^verbatim>\<open>%.3f\<close> prints a float64 is an argument.
\<close>

section \<open>Numbers\<close>

definition digit :: "nat \<Rightarrow> byte" where "digit d = of_nat (48 + d)"

fun decimal :: "nat \<Rightarrow> byte list" where
  "decimal n = (if n < 10 then [digit n] else decimal (n div 10) @ [digit (n mod 10)])"

definition dec_int :: "int \<Rightarrow> byte list" where
  "dec_int i = (if i < 0 then 45 # decimal (nat (- i)) else decimal (nat i))"

definition bin8 :: "u8 \<Rightarrow> byte list" where
  "bin8 m = map (\<lambda>i. if bit m (7 - i) then 49 else 48) [0..<8]"

definition read_nat :: "byte list \<Rightarrow> nat" where
  "read_nat ds = foldl (\<lambda>a d. a * 10 + (unat d - 48)) 0 ds"

definition read_int :: "byte list \<Rightarrow> int" where
  "read_int ds = (case ds of [] \<Rightarrow> 0 | d # ds' \<Rightarrow> if d = 45 then - int (read_nat ds') else int (read_nat ds))"

definition read_bin :: "byte list \<Rightarrow> u8" where
  "read_bin ds = foldl (\<lambda>a d. a * 2 + (d - 48)) 0 ds"

declare decimal.simps [simp del]

lemma unat_digit: "d < 10 \<Longrightarrow> unat (digit d) = 48 + d"
  unfolding digit_def by (intro of_nat_inverse) simp_all

lemma digit_range: "d < 10 \<Longrightarrow> 47 < digit d \<and> digit d < 58"
  by (simp add: word_less_nat_alt unat_digit)

lemma decimal_digits: "\<forall>c \<in> set (decimal n). 47 < c \<and> c < 58"
  by (induction n rule: decimal.induct) (subst decimal.simps, simp add: digit_range)

lemma decimal_nonempty [simp]: "decimal n \<noteq> []"
  by (subst decimal.simps) simp

lemma read_decimal [simp]: "read_nat (decimal n) = n"
proof (induction n rule: decimal.induct)
  case (1 n)
  then show ?case by (subst decimal.simps) (auto simp: read_nat_def unat_digit)
qed

lemma decimal_inj: "decimal m = decimal n \<longleftrightarrow> m = n"
  by (metis read_decimal)

lemma read_dec_int [simp]: "read_int (dec_int i) = i"
proof (cases "i < 0")
  case False
  obtain d ds where d: "decimal (nat i) = d # ds" by (cases "decimal (nat i)") simp_all
  with decimal_digits [of "nat i"] have "d \<noteq> 45" by auto
  with False d read_decimal [of "nat i"] show ?thesis by (simp add: dec_int_def read_int_def)
qed (simp add: dec_int_def read_int_def)

lemma read_bin8 [simp]: "read_bin (bin8 m) = m"
proof -
  have "list_all (\<lambda>n. read_bin (bin8 (of_nat n)) = of_nat n) [0..<256]" by code_simp
  moreover have "unat m < 2 ^ LENGTH(8)" by (rule unsigned_less)
  then have "unat m < 256" by simp
  ultimately have "read_bin (bin8 (of_nat (unat m))) = of_nat (unat m)" unfolding list_all_iff by (metis atLeastLessThan_iff le0 set_upt)
  then show ?thesis by simp
qed

text \<open>What is printed for a number has neither blanks nor line ends.\<close>

definition plain :: "byte list \<Rightarrow> bool" where
  "plain ds \<longleftrightarrow> 9 \<notin> set ds \<and> 10 \<notin> set ds \<and> 32 \<notin> set ds"

lemma plain_simps [simp]: "plain []" "plain (d # ds) \<longleftrightarrow> d \<noteq> 9 \<and> d \<noteq> 10 \<and> d \<noteq> 32 \<and> plain ds"
  "plain (xs @ ys) \<longleftrightarrow> plain xs \<and> plain ys"
  by (auto simp: plain_def)

lemma plain_decimal [simp]: "plain (decimal n)"
  using decimal_digits [of n] by (auto simp: plain_def)

lemma plain_dec_int [simp]: "plain (dec_int i)" by (simp add: dec_int_def)

lemma plain_bin8 [simp]: "plain (bin8 m)" by (auto simp: bin8_def plain_def)

lemma number_chars [simp]:
  "9 \<notin> set (dec_int i)" "10 \<notin> set (dec_int i)" "32 \<notin> set (dec_int i)"
  "9 \<notin> set (bin8 m)" "10 \<notin> set (bin8 m)"
  using plain_dec_int [of i] plain_bin8 [of m] unfolding plain_def by blast+

section \<open>Lines and fields\<close>

primrec split_on :: "byte \<Rightarrow> byte list \<Rightarrow> byte list list" where
  "split_on sep [] = [[]]"
| "split_on sep (c # cs) = (if c = sep then [] # split_on sep cs
     else (case split_on sep cs of [] \<Rightarrow> [[c]] | f # fs \<Rightarrow> (c # f) # fs))"

definition lines_of :: "byte list \<Rightarrow> byte list list" where
  "lines_of text = butlast (split_on 10 text)"

lemma split_on_Cons: "sep \<notin> set a \<Longrightarrow> split_on sep (a @ sep # b) = a # split_on sep b"
  by (induction a) auto

lemma split_on_single: "sep \<notin> set a \<Longrightarrow> split_on sep a = [a]"
  by (induction a) auto

lemma lines_of_concat:
  assumes "\<forall>l \<in> set ls. 10 \<notin> set l"
  shows "lines_of (concat (map (\<lambda>l. l @ [10]) ls)) = ls"
proof -
  have "split_on 10 (concat (map (\<lambda>l. l @ [10]) ls)) = ls @ [[]]"
    using assms by (induction ls) (simp_all add: split_on_Cons)
  then show ?thesis by (simp add: lines_of_def)
qed

section \<open>Writing\<close>

text \<open>
  \<^verbatim>\<open>fmt.Fprintf\<close> makes one write; a write that fails has written a part, and its
  error is ignored. \<open>env\<close> answers the writes: all of it, or so many bytes.
\<close>

fun write_chunks :: "(nat \<Rightarrow> nat option) \<Rightarrow> byte list list \<Rightarrow> byte list \<times> int" where
  "write_chunks env [] = ([], 0)"
| "write_chunks env (d # ds) =
     (let out = (case env (length ds) of None \<Rightarrow> d | Some n \<Rightarrow> take n d); (rest, total) = write_chunks env ds
      in (out @ rest, int (length out) + total))"

lemma write_chunks_total: "snd (write_chunks env ds) = int (length (fst (write_chunks env ds)))"
  by (induction ds) (simp_all add: Let_def split_beta)

lemma write_chunks_all [simp]: "fst (write_chunks (\<lambda>_. None) ds) = concat ds"
  by (induction ds) (simp_all add: Let_def split_beta)

section \<open>The trace\<close>

definition trace_header :: "byte list" where
  "trace_header = map of_char (''tick'') @ 9 # map of_char (''timestamp_us'') @ 9 # map of_char (''seal_dur_us'') @
     9 # map of_char (''cmd_count'') @ 9 # map of_char (''player_mask'') @ 9 # map of_char (''hash_state'') @ [10]"

definition trace_row :: "TraceEntry \<Rightarrow> byte list" where
  "trace_row e = dec_int (uint (teTick e)) @ 9 # dec_int (sint (teTimestamp e)) @ 9 # dec_int (sint (teSealDurUs e)) @
     9 # dec_int (teCmdCount e) @ 9 # bin8 (tePlayerMask e) @ 9 # dec_int (uint (teHashState e)) @ [10]"

definition trace_WriteTo :: "(nat \<Rightarrow> nat option) \<Rightarrow> TraceRing \<Rightarrow> byte list \<times> int" where
  "trace_WriteTo env t = write_chunks env (trace_header # map trace_row (ring_Snapshot t))"

definition read_row :: "byte list \<Rightarrow> TraceEntry option" where
  "read_row l = (case split_on 9 l of
       [tick, timestamp, sealDur, cmdCount, pmask, hashState] \<Rightarrow>
         Some \<lparr>teTick = word_of_int (read_int tick), teTimestamp = word_of_int (read_int timestamp),
           teSealDurUs = word_of_int (read_int sealDur), teCmdCount = read_int cmdCount,
           tePlayerMask = read_bin pmask, teHashState = word_of_int (read_int hashState)\<rparr>
     | _ \<Rightarrow> None)"

definition read_trace :: "byte list \<Rightarrow> TraceEntry option list" where
  "read_trace text = map read_row (drop 1 (lines_of text))"

definition row_line :: "TraceEntry \<Rightarrow> byte list" where "row_line e = butlast (trace_row e)"

lemma trace_row_line: "trace_row e = row_line e @ [10]" "10 \<notin> set (row_line e)"
  by (simp_all add: row_line_def trace_row_def butlast_append)

lemma trace_rows: "map trace_row es = map (\<lambda>l. l @ [10]) (map row_line es)"
  by (simp add: fun_eq_iff trace_row_line(1) [abs_def])

lemma read_row_line: "read_row (row_line e) = Some e"
  by (simp add: row_line_def trace_row_def butlast_append read_row_def split_on_Cons split_on_single)

lemma trace_header_line: "trace_header = butlast trace_header @ [10]" "10 \<notin> set (butlast trace_header)"
  by code_simp+

section \<open>The metrics\<close>

text \<open>\<^verbatim>\<open>%.3f\<close> and the division of float64 are arguments.\<close>

record 'f float_ops =
  foShow :: "'f \<Rightarrow> byte list"
  foDivide :: "'f \<Rightarrow> u64 \<Rightarrow> 'f"

record 'f obs =
  obCounters :: "Counter metrics"
  obGauges :: "Gauge metrics"
  obHistograms :: "'f Histogram metrics"

definition NewObs :: "'f obs" where
  "NewObs = \<lparr>obCounters = NewMetrics, obGauges = NewMetrics, obHistograms = NewMetrics\<rparr>"

definition reg_Counter :: "name \<Rightarrow> 'f obs \<Rightarrow> nat \<times> 'f obs" where
  "reg_Counter n r = (let (c, m) = metric 0 n (obCounters r) in (c, r\<lparr>obCounters := m\<rparr>))"

definition reg_Gauge :: "name \<Rightarrow> 'f obs \<Rightarrow> nat \<times> 'f obs" where
  "reg_Gauge n r = (let (g, m) = metric 0 n (obGauges r) in (g, r\<lparr>obGauges := m\<rparr>))"

definition reg_Histogram :: "name \<Rightarrow> ('f::{linorder,plus,zero}) obs \<Rightarrow> nat \<times> 'f obs" where
  "reg_Histogram n r = (let (h, m) = metric newHistogram n (obHistograms r) in (h, r\<lparr>obHistograms := m\<rparr>))"

text \<open>A line of the dump: a name, its suffix, and what is printed for the value.\<close>

definition text_line :: "name \<times> string \<times> byte list \<Rightarrow> byte list" where
  "text_line l = fst l @ map of_char (fst (snd l)) @ 32 # snd (snd l) @ [10]"

definition counter_line :: "name \<times> Counter \<Rightarrow> name \<times> string \<times> byte list" where
  "counter_line c = (fst c, '''', dec_int (uint (snd c)))"

definition gauge_line :: "name \<times> Gauge \<Rightarrow> name \<times> string \<times> byte list" where
  "gauge_line g = (fst g, '''', dec_int (sint (snd g)))"

definition histogram_lines ::
  "('f::{linorder,plus,zero}) float_ops \<Rightarrow> name \<times> 'f Histogram \<Rightarrow> (name \<times> string \<times> byte list) list" where
  "histogram_lines fo nh =
     (let (n, h) = nh; avg = (if 0 < hiCount h then foDivide fo (hiSum h) (hiCount h) else 0)
      in [(n, ''_count'', dec_int (uint (hiCount h))), (n, ''_sum'', foShow fo (hiSum h)),
          (n, ''_min'', foShow fo (hiMin h)), (n, ''_max'', foShow fo (hiMax h)), (n, ''_avg'', foShow fo avg)])"

definition metrics_WriteTo ::
  "('f::{linorder,plus,zero}) float_ops \<Rightarrow> (nat \<Rightarrow> nat option) \<Rightarrow> 'f obs \<Rightarrow> byte list \<times> int" where
  "metrics_WriteTo fo env r = write_chunks env
     (map (text_line \<circ> counter_line) (dump (obCounters r)) @ map (text_line \<circ> gauge_line) (dump (obGauges r)) @
      map (\<lambda>h. concat (map text_line (histogram_lines fo h))) (dump (obHistograms r)))"

definition metric_lines ::
  "('f::{linorder,plus,zero}) float_ops \<Rightarrow> 'f obs \<Rightarrow> (name \<times> string \<times> byte list) list" where
  "metric_lines fo r = map counter_line (dump (obCounters r)) @ map gauge_line (dump (obGauges r)) @
     concat (map (histogram_lines fo) (dump (obHistograms r)))"

lemma metrics_text: "fst (metrics_WriteTo fo (\<lambda>_. None) r) = concat (map text_line (metric_lines fo r))"
proof -
  have "concat (map (\<lambda>h. concat (map text_line (histogram_lines fo h))) hs) =
      concat (map text_line (concat (map (histogram_lines fo) hs)))" for hs
    by (induction hs) simp_all
  then show ?thesis by (simp add: metrics_WriteTo_def metric_lines_def)
qed

definition read_metric :: "byte list \<Rightarrow> byte list \<times> byte list" where
  "read_metric l = (case split_on 32 l of [n, v] \<Rightarrow> (n, v) | _ \<Rightarrow> ([], []))"

definition read_metrics :: "byte list \<Rightarrow> (byte list \<times> byte list) list" where
  "read_metrics text = map read_metric (lines_of text)"

definition line_ok :: "name \<times> string \<times> byte list \<Rightarrow> bool" where
  "line_ok l \<longleftrightarrow> plain (fst l) \<and> plain (map of_char (fst (snd l))) \<and> plain (snd (snd l))"

lemma read_metric_line:
  assumes "line_ok l"
  shows "text_line l = butlast (text_line l) @ [10]" and "10 \<notin> set (butlast (text_line l))"
    and "read_metric (butlast (text_line l)) = (fst l @ map of_char (fst (snd l)), snd (snd l))"
  using assms split_on_Cons [of 32 "fst l @ map of_char (fst (snd l))" "snd (snd l)"]
  by (auto simp: text_line_def butlast_append line_ok_def plain_def read_metric_def split_on_single)

lemma read_metrics_lines:
  assumes "\<forall>l \<in> set ls. line_ok l"
  shows "read_metrics (concat (map text_line ls)) = map (\<lambda>(n, s, v). (n @ map of_char s, v)) ls"
proof -
  have "concat (map text_line ls) = concat (map (\<lambda>l. l @ [10]) (map (\<lambda>l. butlast (text_line l)) ls))"
    using assms read_metric_line(1) by (induction ls) simp_all
  then have "lines_of (concat (map text_line ls)) = map (\<lambda>l. butlast (text_line l)) ls"
    using assms read_metric_line(2) by (simp only:) (rule lines_of_concat, auto)
  then show ?thesis using assms by (auto simp: read_metrics_def read_metric_line(3) split_beta)
qed

lemma trace_text: "read_trace (fst (trace_WriteTo (\<lambda>_. None) t)) = map Some (ring_Snapshot t)"
proof -
  let ?ls = "butlast trace_header # map row_line (ring_Snapshot t)"
  have "fst (trace_WriteTo (\<lambda>_. None) t) = concat (map (\<lambda>l. l @ [10]) ?ls)"
    by (simp add: trace_WriteTo_def trace_header_line(1) [symmetric] trace_rows del: write_chunks.simps map_map)
  moreover have "lines_of (concat (map (\<lambda>l. l @ [10]) ?ls)) = ?ls"
    by (rule lines_of_concat) (auto simp: trace_header_line(2) trace_row_line(2))
  ultimately show ?thesis
    by (simp add: read_trace_def read_row_line comp_def)
qed

section \<open>Properties\<close>

text \<open>The text of the trace ring is readable: it gives back the entries of the snapshot, every field, in
  order; the number returned is the number of bytes written whatever the writer accepts.\<close>

theorem trace_text_roundtrip:
  "read_trace (fst (trace_WriteTo (\<lambda>_. None) t)) = map Some (ring_Snapshot t) \<and>
    snd (trace_WriteTo env t) = int (length (fst (trace_WriteTo env t)))"
  by (intro conjI trace_text) (simp add: trace_WriteTo_def write_chunks_total del: write_chunks.simps)

end
