(* ===== verification/Monitor.thy ===== *)
theory Monitor
  imports System ObsText
begin

text \<open>
  What the server reports about itself (\<^verbatim>\<open>cmd/server/main.go\<close>): the metrics it
  registers, the counter it increments for a connection, and the pages \<^verbatim>\<open>/metrics\<close>
  and \<^verbatim>\<open>/trace\<close>. The server is the one of \<^verbatim>\<open>System\<close>.
\<close>

section \<open>The metrics of the server\<close>

definition metric_name :: "string \<Rightarrow> name" where "metric_name s = map of_char s"

definition pre_register :: "('f::{linorder,plus,zero}) obs \<Rightarrow> 'f obs" where
  "pre_register r =
     (let r = snd (reg_Counter (metric_name ''rts_udp_packets_in_total'') r);
          r = snd (reg_Counter (metric_name ''rts_udp_packets_out_total'') r);
          r = snd (reg_Counter (metric_name ''rts_udp_retransmit_total'') r);
          r = snd (reg_Histogram (metric_name ''rts_udp_rtt_ms'') r);
          r = snd (reg_Histogram (metric_name ''rts_tick_duration_ms'') r);
          r = snd (reg_Counter (metric_name ''rts_tick_late_seal_total'') r);
          r = snd (reg_Gauge (metric_name ''rts_input_delay_n'') r);
          r = snd (reg_Gauge (metric_name ''rts_hash_pending_ticks'') r);
          r = snd (reg_Counter (metric_name ''rts_desync_total'') r);
          r = snd (reg_Gauge (metric_name ''rts_rooms_active'') r)
      in snd (reg_Counter (metric_name ''rts_room_reconnects_total'') r))"

text \<open>\<^verbatim>\<open>OnNewConn\<close> and the first statement of the \<^verbatim>\<open>/metrics\<close> handler.\<close>

definition count_conn :: "'f obs \<Rightarrow> 'f obs" where
  "count_conn r =
     (let (c, r) = reg_Counter (metric_name ''rts_udp_packets_in_total'') r; m = obCounters r
      in r\<lparr>obCounters := m\<lparr>mtHeap := (mtHeap m)[c := counterInc (mtHeap m ! c)]\<rparr>\<rparr>)"

definition refresh_gauges :: "Registry \<Rightarrow> 'f obs \<Rightarrow> 'f obs" where
  "refresh_gauges reg r =
     (let (g, r) = reg_Gauge (metric_name ''rts_rooms_active'') r; m = obGauges r
      in r\<lparr>obGauges := m\<lparr>mtHeap := (mtHeap m)[g := gaugeSet (of_nat (RoomCount reg)) (mtHeap m ! g)]\<rparr>\<rparr>)"

section \<open>The server with its flags and metrics\<close>

record server_flags =
  flTickRate :: int
  flInitialN :: int
  flPlayers :: int
  flSeed :: u64
  flMapW :: int
  flMapH :: int

definition default_flags :: server_flags where
  "default_flags = \<lparr>flTickRate = 20, flInitialN = 3, flPlayers = 2, flSeed = 42, flMapW = 100, flMapH = 100\<rparr>"

text \<open>The rooms' configuration. The conversions drop the high bits of the flags; nothing validates them.\<close>

definition server_defaults :: "server_flags \<Rightarrow> RoomConfig" where
  "server_defaults fl =
     \<lparr>rcRoomID = [], rcSeed = flSeed fl, rcMapW = word_of_int (flMapW fl), rcMapH = word_of_int (flMapH fl),
      rcTickRate = flTickRate fl, rcInitialN = word_of_int (flInitialN fl), rcMinN = 2, rcMaxN = 6,
      rcPlayerCount = flPlayers fl\<rparr>"

record 'f monitored =
  moSystem :: system
  moMetrics :: "'f obs"
  moTrace :: TraceRing

definition server_main :: "RoomConfig \<Rightarrow> ('f::{linorder,plus,zero}) monitored" where
  "server_main defaults = \<lparr>moSystem = start defaults, moMetrics = pre_register NewObs,
     moTrace = NewTraceRing (int DefaultTraceSize)\<rparr>"

definition metrics_page ::
  "('f::{linorder,plus,zero}) float_ops \<Rightarrow> (nat \<Rightarrow> nat option) \<Rightarrow> 'f monitored \<Rightarrow> byte list \<times> 'f monitored" where
  "metrics_page fo env m =
     (let r = refresh_gauges (syRegistry (moSystem m)) (moMetrics m)
      in (fst (metrics_WriteTo fo env r), m\<lparr>moMetrics := r\<rparr>))"

definition trace_page :: "(nat \<Rightarrow> nat option) \<Rightarrow> 'f monitored \<Rightarrow> byte list" where
  "trace_page env m = fst (trace_WriteTo env (moTrace m))"

datatype monitor_event = Serves event | Scrapes

text \<open>A new session is a call of \<^verbatim>\<open>OnNewConn\<close>.\<close>

fun mon_step ::
  "RoomConfig \<Rightarrow> ('f::{linorder,plus,zero}) float_ops \<Rightarrow> monitor_event \<Rightarrow> 'f monitored \<Rightarrow> unit fault + 'f monitored" where
  "mon_step defaults fo (Serves ev) m =
     and_then (sys_step defaults ev (moSystem m)) (\<lambda>s.
       Inr (m\<lparr>moSystem := s, moMetrics :=
         (if length (sySessions (moSystem m)) < length (sySessions s) then count_conn (moMetrics m) else moMetrics m)\<rparr>))"
| "mon_step defaults fo Scrapes m = Inr (snd (metrics_page fo (\<lambda>_. None) m))"

fun mon_run ::
  "RoomConfig \<Rightarrow> ('f::{linorder,plus,zero}) float_ops \<Rightarrow> monitor_event list \<Rightarrow> 'f monitored \<Rightarrow> unit fault + 'f monitored" where
  "mon_run defaults fo [] m = Inr m"
| "mon_run defaults fo (ev # evs) m = and_then (mon_step defaults fo ev m) (mon_run defaults fo evs)"

section \<open>What the metrics are\<close>

text \<open>The metrics at any time: the connections counted, the rooms at the last scrape, and zeros.\<close>

definition register_all :: "'m \<Rightarrow> string list \<Rightarrow> 'm metrics \<Rightarrow> 'm metrics" where
  "register_all fresh ns r = foldl (\<lambda>r n. snd (metric fresh (metric_name n) r)) r ns"

definition upd_metric :: "('m \<Rightarrow> 'm) \<Rightarrow> 'm \<Rightarrow> string \<Rightarrow> 'm metrics \<Rightarrow> 'm metrics" where
  "upd_metric f fresh n r =
     (let (c, r) = metric fresh (metric_name n) r in r\<lparr>mtHeap := (mtHeap r)[c := f (mtHeap r ! c)]\<rparr>)"

definition counter_names :: "string list" where
  "counter_names = [''rts_udp_packets_in_total'', ''rts_udp_packets_out_total'', ''rts_udp_retransmit_total'',
     ''rts_tick_late_seal_total'', ''rts_desync_total'', ''rts_room_reconnects_total'']"

definition gauge_names :: "string list" where
  "gauge_names = [''rts_input_delay_n'', ''rts_hash_pending_ticks'', ''rts_rooms_active'']"

definition histogram_names :: "string list" where
  "histogram_names = [''rts_udp_rtt_ms'', ''rts_tick_duration_ms'']"

definition with_values :: "string list \<Rightarrow> 'm list \<Rightarrow> 'm metrics" where
  "with_values ns vs = \<lparr>mtHeap = vs, mtNames = zip (map metric_name ns) [0..<length ns]\<rparr>"

definition obs_state :: "Counter \<Rightarrow> Gauge \<Rightarrow> ('f::{linorder,plus,zero}) obs" where
  "obs_state c g = \<lparr>obCounters = with_values counter_names [c, 0, 0, 0, 0, 0],
     obGauges = with_values gauge_names [0, 0, g],
     obHistograms = with_values histogram_names [newHistogram, newHistogram]\<rparr>"

lemma names_distinct:
  "distinct (map metric_name counter_names)" "distinct (map metric_name gauge_names)"
  "distinct (map metric_name histogram_names)"
  by code_simp+

lemma map_of_zip_upt:
  "distinct ns \<Longrightarrow> i < length ns \<Longrightarrow> map_of (zip ns [0..<length ns]) (ns ! i) = Some i"
  using map_of_zip_nth [of ns "[0..<length ns]" i] by simp

lemma metric_new:
  "map_of (mtNames r) k = None \<Longrightarrow> snd (metric fresh k r) =
    r\<lparr>mtHeap := mtHeap r @ [fresh], mtNames := mtNames r @ [(k, length (mtHeap r))]\<rparr>"
  by (simp add: metric_def Let_def update_absent)

lemma register_all_new:
  "distinct (map metric_name (ns @ ms)) \<Longrightarrow>
    register_all fresh ms (with_values ns (replicate (length ns) fresh)) =
      with_values (ns @ ms) (replicate (length (ns @ ms)) fresh)"
proof (induction ms arbitrary: ns)
  case (Cons m ms)
  let ?r = "with_values ns (replicate (length ns) fresh)"
  have "map_of (mtNames ?r) (metric_name m) = None"
    using Cons.prems by (simp add: with_values_def)
  from metric_new [OF this, of fresh] have "snd (metric fresh (metric_name m) (with_values ns (replicate (length ns) fresh))) =
      with_values (ns @ [m]) (replicate (length (ns @ [m])) fresh)"
    by (simp add: with_values_def replicate_append_same)
  with Cons.IH [of "ns @ [m]"] Cons.prems show ?case by (simp add: register_all_def)
qed (simp add: register_all_def)

lemma upd_metric_values:
  assumes "distinct (map metric_name ns)" and "i < length ns"
  shows "upd_metric f fresh (ns ! i) (with_values ns vs) = with_values ns (vs[i := f (vs ! i)])"
  using map_of_zip_upt [of "map metric_name ns" i] assms by (simp add: upd_metric_def metric_def with_values_def)

lemma register_names:
  "register_all fresh counter_names NewMetrics = with_values counter_names [fresh, fresh, fresh, fresh, fresh, fresh]"
  "register_all fresh gauge_names NewMetrics = with_values gauge_names [fresh, fresh, fresh]"
  "register_all fresh histogram_names NewMetrics = with_values histogram_names [fresh, fresh]"
proof -
  have r: "register_all fresh ns NewMetrics = with_values ns (replicate (length ns) fresh)"
    if "distinct (map metric_name ns)" for ns
    using register_all_new [of "[]" ns fresh] that by (simp add: NewMetrics_def with_values_def)
  show "register_all fresh counter_names NewMetrics = with_values counter_names [fresh, fresh, fresh, fresh, fresh, fresh]"
    "register_all fresh gauge_names NewMetrics = with_values gauge_names [fresh, fresh, fresh]"
    "register_all fresh histogram_names NewMetrics = with_values histogram_names [fresh, fresh]"
    unfolding names_distinct [THEN r] by (simp_all add: counter_names_def gauge_names_def histogram_names_def)
qed

lemma pre_register_eq: "pre_register r = r\<lparr>obCounters := register_all 0 counter_names (obCounters r),
    obGauges := register_all 0 gauge_names (obGauges r),
    obHistograms := register_all newHistogram histogram_names (obHistograms r)\<rparr>"
  by (simp add: pre_register_def reg_Counter_def reg_Gauge_def reg_Histogram_def register_all_def
      counter_names_def gauge_names_def histogram_names_def Let_def split_beta)

lemma pre_register_state: "pre_register NewObs = obs_state 0 0"
  by (simp add: pre_register_eq NewObs_def obs_state_def register_names)

lemma upd_metric_eqs:
  "count_conn r = r\<lparr>obCounters := upd_metric counterInc 0 ''rts_udp_packets_in_total'' (obCounters r)\<rparr>"
  "refresh_gauges reg r =
    r\<lparr>obGauges := upd_metric (gaugeSet (of_nat (RoomCount reg))) 0 ''rts_rooms_active'' (obGauges r)\<rparr>"
  by (simp_all add: count_conn_def refresh_gauges_def reg_Counter_def reg_Gauge_def upd_metric_def Let_def split_beta)

lemma count_conn_state: "count_conn (obs_state c g) = obs_state (c + 1) g"
  using upd_metric_values [OF names_distinct(1), of 0 counterInc 0 "[c, 0, 0, 0, 0, 0]"]
  by (simp add: upd_metric_eqs obs_state_def counter_names_def counterInc_def)

lemma refresh_gauges_state: "refresh_gauges reg (obs_state c g) = obs_state c (of_nat (RoomCount reg))"
  using upd_metric_values [OF names_distinct(2), of 2 "gaugeSet (of_nat (RoomCount reg))" 0 "[0, 0, g]"]
  by (simp add: upd_metric_eqs obs_state_def gauge_names_def gaugeSet_def)

lemma dump_values:
  assumes "distinct (map metric_name ns)" and "length vs = length ns"
    and "sort (map metric_name ns) = map metric_name ms" and "set ms \<subseteq> set ns"
  shows "dump (with_values ns vs) = map (\<lambda>n. (metric_name n, the (map_of (zip ns vs) n))) ms"
proof -
  have "mtHeap (with_values ns vs) ! the (map_of (mtNames (with_values ns vs)) (metric_name n)) = the (map_of (zip ns vs) n)"
    if "n \<in> set ns" for n
  proof -
    from that obtain i where i: "i < length ns" "n = ns ! i" by (auto simp: in_set_conv_nth)
    have "distinct ns" using assms(1) by (simp add: distinct_map)
    then have "map_of (zip ns vs) n = Some (vs ! i)" using assms(2) i by (simp add: map_of_zip_nth)
    moreover have "map_of (zip (map metric_name ns) [0..<length ns]) (metric_name n) = Some i"
      using map_of_zip_upt [of "map metric_name ns" i] assms(1) i by simp
    ultimately show ?thesis by (simp add: with_values_def)
  qed
  moreover have "map fst (mtNames (with_values ns vs)) = map metric_name ns" by (simp add: with_values_def)
  ultimately show ?thesis using assms(3,4) by (auto simp: dump_def sortedKeys_def)
qed

lemma names_sorted:
  "sort (map metric_name counter_names) = map metric_name [''rts_desync_total'', ''rts_room_reconnects_total'',
     ''rts_tick_late_seal_total'', ''rts_udp_packets_in_total'', ''rts_udp_packets_out_total'', ''rts_udp_retransmit_total'']"
  "sort (map metric_name gauge_names) = map metric_name [''rts_hash_pending_ticks'', ''rts_input_delay_n'', ''rts_rooms_active'']"
  "sort (map metric_name histogram_names) = map metric_name [''rts_tick_duration_ms'', ''rts_udp_rtt_ms'']"
  by code_simp+

lemma obs_state_dump:
  "dump (obCounters (obs_state c g)) = [(metric_name ''rts_desync_total'', 0), (metric_name ''rts_room_reconnects_total'', 0),
     (metric_name ''rts_tick_late_seal_total'', 0), (metric_name ''rts_udp_packets_in_total'', c),
     (metric_name ''rts_udp_packets_out_total'', 0), (metric_name ''rts_udp_retransmit_total'', 0)]"
  "dump (obGauges (obs_state c g)) = [(metric_name ''rts_hash_pending_ticks'', 0), (metric_name ''rts_input_delay_n'', 0),
     (metric_name ''rts_rooms_active'', g)]"
  "dump (obHistograms (obs_state c g)) = [(metric_name ''rts_tick_duration_ms'', newHistogram),
     (metric_name ''rts_udp_rtt_ms'', newHistogram)]"
  using dump_values [OF names_distinct(1) _ names_sorted(1), of "[c, 0, 0, 0, 0, 0]"]
    dump_values [OF names_distinct(2) _ names_sorted(2), of "[0, 0, g]"]
    dump_values [OF names_distinct(3) _ names_sorted(3), of "[newHistogram, newHistogram]"]
  by (simp_all add: obs_state_def) (simp_all add: counter_names_def gauge_names_def histogram_names_def)

lemma run_session_sessions:
  "run_session D i g d s = Inr s' \<Longrightarrow> length (sySessions s') = length (sySessions s)"
  by (auto simp: run_session_def split: sum.splits prod.splits)

lemma send_all_sessions: "sySessions (send_all env cds s) = sySessions s" by simp

lemma sys_step_sessions:
  assumes "sys_step D ev s = Inr s'"
  shows "length (sySessions s') = length (sySessions s) \<or> length (sySessions s') = Suc (length (sySessions s))"
proof (cases ev)
  case (Receive now d a)
  with assms show ?thesis by (auto simp: on_receive_def split: prod.splits option.splits)
next
  case (TimeOut i g)
  with assms show ?thesis by (auto simp: on_timeout_def run_session_sessions split: if_splits)
next
  case (Take i g)
  with assms show ?thesis
    by (auto simp: on_take_def Let_def dest!: run_session_sessions split: if_splits option.splits prod.splits)
next
  case (Perform i env)
  with assms show ?thesis by (auto simp: on_perform_def Let_def split: prod.split list.split action.split)
next
  case (Wake k)
  with assms show ?thesis by (auto simp: on_wake_def and_then_eq_Inr split: if_splits list.splits)
next
  case (TickRoom k now env)
  with assms show ?thesis by (auto simp: on_tick_def and_then_eq_Inr split: if_splits)
next
  case (Retransmit c now)
  with assms show ?thesis by (auto simp: on_retransmit_def split: prod.splits if_splits)
qed

lemma mon_run_state:
  "mon_run D fo evs m = Inr m' \<Longrightarrow> moMetrics m = obs_state (of_nat (length (sySessions (moSystem m)))) g \<Longrightarrow>
    \<exists>g'. moMetrics m' = obs_state (of_nat (length (sySessions (moSystem m')))) g' \<and> moTrace m' = moTrace m"
proof (induction D fo evs m arbitrary: g rule: mon_run.induct)
  case (2 D fo ev evs m)
  from "2.prems"(1) obtain m1 where m1: "mon_step D fo ev m = Inr m1" "mon_run D fo evs m1 = Inr m'"
    by (auto simp: and_then_eq_Inr)
  have "\<exists>g. moMetrics m1 = obs_state (of_nat (length (sySessions (moSystem m1)))) g \<and> moTrace m1 = moTrace m"
  proof (cases ev)
    case (Serves e)
    with m1(1) obtain s where "sys_step D e (moSystem m) = Inr s" "moSystem m1 = s" "moTrace m1 = moTrace m"
      "moMetrics m1 = (if length (sySessions (moSystem m)) < length (sySessions s) then count_conn (moMetrics m) else moMetrics m)"
      by (auto simp: and_then_eq_Inr)
    with sys_step_sessions "2.prems"(2) show ?thesis by (fastforce simp: count_conn_state add.commute)
  next
    case Scrapes
    with m1(1) "2.prems"(2) show ?thesis by (auto simp: metrics_page_def Let_def refresh_gauges_state)
  qed
  with "2.IH" [OF m1(2)] show ?case by auto
qed auto

section \<open>Properties\<close>

text \<open>The five lines of a histogram that has seen nothing.\<close>

definition unused_lines :: "('f::{linorder,plus,zero}) float_ops \<Rightarrow> string \<Rightarrow> (byte list \<times> byte list) list" where
  "unused_lines fo n = map (\<lambda>(suffix, v). (metric_name (n @ suffix), v))
     [(''_count'', [48]), (''_sum'', foShow fo 0), (''_min'', foShow fo 0), (''_max'', foShow fo 0), (''_avg'', foShow fo 0)]"

lemma dec_0: "dec_int 0 = [48]" by code_simp

lemma obs_state_text:
  assumes "plain (foShow fo 0)"
  shows "read_metrics (fst (metrics_WriteTo fo (\<lambda>_. None) (obs_state c g))) =
    [(metric_name ''rts_desync_total'', [48]), (metric_name ''rts_room_reconnects_total'', [48]),
     (metric_name ''rts_tick_late_seal_total'', [48]), (metric_name ''rts_udp_packets_in_total'', dec_int (uint c)),
     (metric_name ''rts_udp_packets_out_total'', [48]), (metric_name ''rts_udp_retransmit_total'', [48]),
     (metric_name ''rts_hash_pending_ticks'', [48]), (metric_name ''rts_input_delay_n'', [48]),
     (metric_name ''rts_rooms_active'', dec_int (sint g))] @
    unused_lines fo ''rts_tick_duration_ms'' @ unused_lines fo ''rts_udp_rtt_ms''"
proof -
  have h: "histogram_lines fo (n, newHistogram) = map (\<lambda>(s, v). (n, s, v))
      [(''_count'', [48]), (''_sum'', foShow fo 0), (''_min'', foShow fo 0), (''_max'', foShow fo 0), (''_avg'', foShow fo 0)]" for n
    by (simp add: histogram_lines_def newHistogram_def dec_0)
  have suffixes: "list_all (\<lambda>s. plain (map of_char s)) ['''', ''_count'', ''_sum'', ''_min'', ''_max'', ''_avg'']" by code_simp
  have names: "list_all (\<lambda>n. plain (metric_name n)) [''rts_desync_total'', ''rts_room_reconnects_total'',
     ''rts_tick_late_seal_total'', ''rts_udp_packets_in_total'', ''rts_udp_packets_out_total'', ''rts_udp_retransmit_total'',
     ''rts_hash_pending_ticks'', ''rts_input_delay_n'', ''rts_rooms_active'', ''rts_tick_duration_ms'', ''rts_udp_rtt_ms'']"
    by code_simp
  have "\<forall>l \<in> set (metric_lines fo (obs_state c g)). line_ok l"
    using assms suffixes names
    by (simp add: metric_lines_def obs_state_dump h counter_line_def gauge_line_def line_ok_def del: list.map)
  from read_metrics_lines [OF this] show ?thesis
    by (simp add: metrics_text metric_lines_def obs_state_dump h counter_line_def gauge_line_def dec_0 unused_lines_def
          metric_name_def)
qed

text \<open>A tick rate of 0 is accepted at the start and panics the process when the first player joins.\<close>

theorem zero_tick_rate_crashes:
  "\<exists>s. sys_run (server_defaults (default_flags\<lparr>flTickRate := 0\<rparr>)) (butlast joining)
       (start (server_defaults (default_flags\<lparr>flTickRate := 0\<rparr>))) = Inr s \<and>
    sys_step (server_defaults (default_flags\<lparr>flTickRate := 0\<rparr>)) (last joining) s = Inl Panic"
proof -
  have "case sys_run (server_defaults (default_flags\<lparr>flTickRate := 0\<rparr>)) (butlast joining)
       (start (server_defaults (default_flags\<lparr>flTickRate := 0\<rparr>))) of Inl e \<Rightarrow> False
    | Inr s \<Rightarrow> (case sys_step (server_defaults (default_flags\<lparr>flTickRate := 0\<rparr>)) (last joining) s of
        Inl Panic \<Rightarrow> True | _ \<Rightarrow> False)"
    by code_simp
  then show ?thesis by (auto split: sum.splits fault.splits)
qed

text \<open>C39: what the server reports. Through any run, \<^verbatim>\<open>/metrics\<close> reads as the number of
  connections ever made, under the name of the packets received, the number of rooms, and zeros in every
  other metric; the trace page has a header and no entry.\<close>

theorem metrics_report:
  assumes "mon_run D fo evs (server_main D) = Inr m" and "plain (foShow fo 0)"
    and "length (sySessions (moSystem m)) < 2 ^ 64" and "RoomCount (syRegistry (moSystem m)) < 2 ^ 63"
  shows "read_metrics (fst (metrics_page fo (\<lambda>_. None) m)) =
    [(metric_name ''rts_desync_total'', [48]), (metric_name ''rts_room_reconnects_total'', [48]),
     (metric_name ''rts_tick_late_seal_total'', [48]),
     (metric_name ''rts_udp_packets_in_total'', decimal (length (sySessions (moSystem m)))),
     (metric_name ''rts_udp_packets_out_total'', [48]), (metric_name ''rts_udp_retransmit_total'', [48]),
     (metric_name ''rts_hash_pending_ticks'', [48]), (metric_name ''rts_input_delay_n'', [48]),
     (metric_name ''rts_rooms_active'', decimal (RoomCount (syRegistry (moSystem m))))] @
    unused_lines fo ''rts_tick_duration_ms'' @ unused_lines fo ''rts_udp_rtt_ms'' \<and>
    read_trace (trace_page (\<lambda>_. None) m) = []"
proof -
  have "moMetrics (server_main D :: 'a monitored) = obs_state (of_nat (length (sySessions (moSystem (server_main D :: 'a monitored))))) 0"
    by (simp add: server_main_def start_def pre_register_state)
  from mon_run_state [OF assms(1) this] obtain g where
    m: "moMetrics m = obs_state (of_nat (length (sySessions (moSystem m)))) g" "moTrace m = NewTraceRing (int DefaultTraceSize)"
    by (auto simp: server_main_def)
  let ?c = "of_nat (length (sySessions (moSystem m))) :: u64" and ?g = "of_nat (RoomCount (syRegistry (moSystem m))) :: i64"
  have "uint ?c = int (length (sySessions (moSystem m)))" using assms(3) by (simp add: uint_nat of_nat_inverse)
  moreover have "sint ?g = int (RoomCount (syRegistry (moSystem m)))"
    using assms(4) int_word_sint [of "int (RoomCount (syRegistry (moSystem m)))", where 'a = 64] by simp
  ultimately have "read_metrics (fst (metrics_page fo (\<lambda>_. None) m)) =
    [(metric_name ''rts_desync_total'', [48]), (metric_name ''rts_room_reconnects_total'', [48]),
     (metric_name ''rts_tick_late_seal_total'', [48]),
     (metric_name ''rts_udp_packets_in_total'', decimal (length (sySessions (moSystem m)))),
     (metric_name ''rts_udp_packets_out_total'', [48]), (metric_name ''rts_udp_retransmit_total'', [48]),
     (metric_name ''rts_hash_pending_ticks'', [48]), (metric_name ''rts_input_delay_n'', [48]),
     (metric_name ''rts_rooms_active'', decimal (RoomCount (syRegistry (moSystem m))))] @
    unused_lines fo ''rts_tick_duration_ms'' @ unused_lines fo ''rts_udp_rtt_ms''"
    using obs_state_text [OF assms(2), of ?c ?g] by (simp add: metrics_page_def m(1) refresh_gauges_state Let_def dec_int_def)
  then show ?thesis by (simp add: trace_page_def m(2) trace_text NewTraceRing_ok)
qed

lemma mon_run_serves:
  "sys_run D evs (moSystem m) = Inr s \<Longrightarrow> \<exists>m'. mon_run D fo (map Serves evs) m = Inr m' \<and> moSystem m' = s"
proof (induction evs arbitrary: m)
  case (Cons ev evs)
  from Cons.prems obtain s1 where "sys_step D ev (moSystem m) = Inr s1" "sys_run D evs s1 = Inr s"
    by (auto simp: and_then_eq_Inr)
  with Cons.IH show ?case by auto
qed simp

lemma joining_counts:
  "case sys_run two_players joining (start two_players) of Inl e \<Rightarrow> False
    | Inr s \<Rightarrow> length (sySessions s) = 1 \<and> RoomCount (syRegistry s) = 1"
  by code_simp

theorem metrics_report_witness:
  "\<exists>m. mon_run two_players \<lparr>foShow = \<lambda>x :: int. [48], foDivide = \<lambda>x n. x\<rparr> (map Serves joining) (server_main two_players) = Inr m \<and>
    (metric_name ''rts_udp_packets_in_total'', [49]) \<in> set (read_metrics (fst (metrics_page
      \<lparr>foShow = \<lambda>x. [48], foDivide = \<lambda>x n. x\<rparr> (\<lambda>_. None) m))) \<and> read_trace (trace_page (\<lambda>_. None) m) = []"
proof -
  let ?fo = "\<lparr>foShow = \<lambda>x :: int. [48], foDivide = \<lambda>x n. x\<rparr>"
  obtain s where s: "sys_run two_players joining (start two_players) = Inr s" "length (sySessions s) = 1"
    "RoomCount (syRegistry s) = 1" using joining_counts by (auto split: sum.splits)
  have "moSystem (server_main two_players :: int monitored) = start two_players" by (simp add: server_main_def)
  with mon_run_serves [of two_players joining "server_main two_players" s ?fo] s(1) obtain m where
    m: "mon_run two_players ?fo (map Serves joining) (server_main two_players) = Inr m" "moSystem m = s" by auto
  have one: "decimal (Suc 0) = [49]" by code_simp
  from metrics_report [OF m(1)] have "(metric_name ''rts_udp_packets_in_total'', [49]) \<in> set (read_metrics (fst (metrics_page ?fo (\<lambda>_. None) m))) \<and>
    read_trace (trace_page (\<lambda>_. None) m) = []" by (simp add: m(2) s(2,3) one)
  with m(1) show ?thesis by blast
qed

end
