(* ===== verification/Bots.thy ===== *)
theory Bots
  imports Client Server
begin

text \<open>
  The programs that drive the system: the random commands of \<^verbatim>\<open>cmd/fake-client\<close> and
  \<^verbatim>\<open>cmd/load-test\<close> and the loop that mixes them with the frames. The bots draw
  from the generator of the world they simulate; the lemmas show what that changes and what not.
\<close>

section \<open>Bot commands\<close>

text \<open>\<^verbatim>\<open>fixed.FromInt(int32(world.Rand.Intn(int(map)))).Raw()\<close>, once per coordinate.\<close>

definition random_coord :: "i32 \<Rightarrow> World \<Rightarrow> i32 \<times> World" where
  "random_coord mapSize w =
     (case Intn (wRand w) (scast mapSize) of (x, r) \<Rightarrow> (fix_Raw (FromInt (ucast x)), w\<lparr>wRand := r\<rparr>))"

definition bot_command :: "u32 \<Rightarrow> u8 \<Rightarrow> u32 \<Rightarrow> i32 \<Rightarrow> i32 \<Rightarrow> World \<Rightarrow> Cmd \<times> World" where
  "bot_command lastTick myID unitID mapW mapH w =
     (case random_coord mapW w of (tx, w) \<Rightarrow>
        (case random_coord mapH w of (ty, w) \<Rightarrow>
           (\<lparr>cmTick = lastTick + 3, cmPlayer = myID, cmOp = CmdMove, cmUnitID = unitID, cmTargetX = tx,
             cmTargetY = ty, cmTargetID = 0\<rparr>, w)))"

text \<open>fake-client commands its first unit that is alive; load-test always unit 1.\<close>

definition fake_client_command :: "u8 \<Rightarrow> i32 \<Rightarrow> i32 \<Rightarrow> Player \<Rightarrow> Cmd option \<times> Player" where
  "fake_client_command myID mapW mapH p =
     (if plLastTick p > 0 \<and> length (wUnits (plWorld p)) > 0 then
        (case find (\<lambda>u. uOwner u = myID \<and> uState u \<noteq> UnitDead) (wUnits (plWorld p)) of
           None \<Rightarrow> (None, p)
         | Some u \<Rightarrow>
             (case bot_command (plLastTick p) myID (uID u) mapW mapH (plWorld p) of
                (cmd, w) \<Rightarrow> (Some cmd, p\<lparr>plWorld := w\<rparr>)))
      else (None, p))"

definition load_test_command :: "u8 \<Rightarrow> i32 \<Rightarrow> i32 \<Rightarrow> Player \<Rightarrow> Cmd option \<times> Player" where
  "load_test_command myID mapW mapH p =
     (if plLastTick p > 0 then
        (case bot_command (plLastTick p) myID 1 mapW mapH (plWorld p) of
           (cmd, w) \<Rightarrow> (Some cmd, p\<lparr>plWorld := w\<rparr>))
      else (None, p))"

section \<open>What the simulation sees of the generator\<close>

lemma wRand_frame [simp]:
  "wUnits (w\<lparr>wRand := r\<rparr>) = wUnits w" "wTick (w\<lparr>wRand := r\<rparr>) = wTick w"
  "FindUnit (w\<lparr>wRand := r\<rparr>) = FindUnit w"
  "upd_unit i f (w\<lparr>wRand := r\<rparr>) = (upd_unit i f w)\<lparr>wRand := r\<rparr>"
  by (simp_all add: FindUnit_def fun_eq_iff upd_unit_def)

definition with_rand :: "SplitMix64 \<Rightarrow> 'e fault + World \<Rightarrow> 'e fault + World" where
  "with_rand r x = and_then x (\<lambda>w. Inr (w\<lparr>wRand := r\<rparr>))"

lemma with_rand_simps [simp]: "with_rand r (Inr w) = Inr (w\<lparr>wRand := r\<rparr>)" "with_rand r (Inl e) = Inl e"
  by (simp_all add: with_rand_def)

lemma stepMove_rand: "stepMove (w\<lparr>wRand := r\<rparr>) i = with_rand r (stepMove w i)"
  by (cases "MoveToward (uPos (wUnits w ! i)) (uMoveTo (wUnits w ! i)) (uSpeed (wUnits w ! i)) :: 'a fault + Vec2")
    (simp_all add: stepMove_def Let_def)

lemma stepAttack_rand: "stepAttack (w\<lparr>wRand := r\<rparr>) i = with_rand r (stepAttack w i)"
proof (cases "FindUnit w (uTargetID (wUnits w ! i))")
  case (Some t)
  then show ?thesis
    by (cases "MoveToward (uPos (wUnits w ! i)) (uPos (wUnits w ! t)) (uSpeed (wUnits w ! i)) :: 'a fault + Vec2")
      (simp_all add: stepAttack_def Let_def)
qed (simp add: stepAttack_def Let_def)

lemma stepUnit_rand: "stepUnit (w\<lparr>wRand := r\<rparr>) i = with_rand r (stepUnit w i)"
  by (simp add: stepUnit_def Let_def stepMove_rand stepAttack_rand)

lemma step_units_rand: "step_units is (w\<lparr>wRand := r\<rparr>) = with_rand r (step_units is w)"
proof (induction "is" arbitrary: w)
  case (Cons i "is")
  show ?case
    by (cases "stepUnit w i :: 'a fault + World") (simp_all add: stepUnit_rand Cons)
qed simp

lemma applyCommand_rand: "applyCommand (w\<lparr>wRand := r\<rparr>) c = (applyCommand w c)\<lparr>wRand := r\<rparr>"
  by (simp add: applyCommand_def split: option.split)

lemma applyCommands_rand: "applyCommands (w\<lparr>wRand := r\<rparr>) cs = (applyCommands w cs)\<lparr>wRand := r\<rparr>"
  unfolding applyCommands_def by (induction cs arbitrary: w) (simp_all add: applyCommand_rand)

lemma Step_rand: "Step (w\<lparr>wRand := r\<rparr>) cs = with_rand r (Step w cs)"
proof -
  let ?w = "sortUnitsByID (applyCommands (w\<lparr>wTick := wTick w + 1\<rparr>) cs)"
  have "w\<lparr>wRand := r, wTick := t\<rparr> = w\<lparr>wTick := t, wRand := r\<rparr>" for t by (cases w) simp
  then have "applyCommands (w\<lparr>wRand := r, wTick := wTick w + 1\<rparr>) cs =
      (applyCommands (w\<lparr>wTick := wTick w + 1\<rparr>) cs)\<lparr>wRand := r\<rparr>"
    by (simp only: applyCommands_rand)
  moreover have "sortUnitsByID (w\<lparr>wRand := r\<rparr>) = (sortUnitsByID w)\<lparr>wRand := r\<rparr>" for w
    by (simp add: sortUnitsByID_def)
  moreover have "RemoveDead (w\<lparr>wRand := r\<rparr>) = (RemoveDead w)\<lparr>wRand := r\<rparr>" for w by (simp add: RemoveDead_def)
  ultimately show ?thesis
    by (cases "step_units [0..<length (wUnits ?w)] ?w :: 'a fault + World")
      (simp_all add: Step_def Let_def step_units_rand)
qed

lemma Hash_rand [simp]: "Hash (w\<lparr>wRand := r\<rparr>) = Hash w"
  by (simp add: Hash_def)

definition set_rand :: "SplitMix64 \<Rightarrow> Player \<Rightarrow> Player" where
  "set_rand r p = p\<lparr>plWorld := (plWorld p)\<lparr>wRand := r\<rparr>\<rparr>"

lemma catch_up_rand: "catch_up fb t (w\<lparr>wRand := r\<rparr>) = with_rand r (catch_up fb t w)"
proof (induction fb t w rule: catch_up.induct)
  case (1 fb t w)
  let ?cmds = "if t + 1 = fbTick fb then frame_cmds fb else []"
  show ?case
  proof (cases "t < fbTick fb")
    case True
    show ?thesis
    proof (cases "Step w ?cmds :: 'a fault + World")
      case (Inl e)
      with True show ?thesis
        by (simp add: catch_up.simps [of fb t] Let_def Step_rand)
    next
      case (Inr w1)
      have "catch_up fb (t + 1) (w1\<lparr>wRand := r\<rparr>) = with_rand r (catch_up fb (t + 1) w1 :: 'a fault + World)"
        by (rule "1.IH" [OF True refl refl])
      with True Inr show ?thesis
        by (simp add: catch_up.simps [of fb t] Let_def Step_rand)
    qed
  qed (simp add: catch_up.simps [of fb t])
qed

lemma on_frame_rand:
  "on_frame fb (set_rand r p) = and_then (on_frame fb p) (\<lambda>(h, p). Inr (h, set_rand r p))"
  by (cases "catch_up fb (plLastTick p) (plWorld p) :: 'a fault + World")
    (simp_all add: on_frame_def set_rand_def catch_up_rand)

lemma on_frames_rand:
  "on_frames fs (set_rand r p) = and_then (on_frames fs p) (\<lambda>(hs, p). Inr (hs, set_rand r p))"
proof (induction fs arbitrary: p)
  case (Cons fb fs)
  show ?case
  proof (cases "on_frame fb p :: 'a fault + (u32 \<times> u64) \<times> Player")
    case (Inr x)
    obtain h p1 where x: "x = (h, p1)" by fastforce
    show ?thesis
      by (cases "on_frames fs p1 :: 'a fault + (u32 \<times> u64) list \<times> Player")
        (auto simp: on_frame_rand Inr x Cons)
  qed (simp add: on_frame_rand)
qed simp

lemma Next_state: "rState (snd (Next r)) = rState r + 0x9e3779b97f4a7c15"
  by (simp add: Next_def Let_def)

lemma random_coord_rand:
  assumes "0 <s mapSize"
  shows "snd (random_coord mapSize w) = w\<lparr>wRand := \<lparr>rState = rState (wRand w) + 0x9e3779b97f4a7c15\<rparr>\<rparr>"
proof -
  have "0 < sint mapSize" using assms by (simp add: word_sless_alt)
  moreover have "sint (scast mapSize :: i64) = sint mapSize" by (rule sint_up_scast) (simp add: is_up)
  ultimately have "\<not> (scast mapSize :: i64) \<le>s 0" by (simp add: word_sle_eq)
  then show ?thesis
    by (simp add: random_coord_def Intn_def Next_def Let_def split: prod.split)
qed

lemma bot_command_rand:
  assumes "0 <s mapW" and "0 <s mapH"
  shows "snd (bot_command t myID uid mapW mapH w) =
    w\<lparr>wRand := \<lparr>rState = rState (wRand w) + 2 * 0x9e3779b97f4a7c15\<rparr>\<rparr>"
proof -
  obtain tx w1 where 1: "random_coord mapW w = (tx, w1)" by fastforce
  obtain ty w2 where 2: "random_coord mapH w1 = (ty, w2)" by fastforce
  have "w1 = w\<lparr>wRand := \<lparr>rState = rState (wRand w) + 0x9e3779b97f4a7c15\<rparr>\<rparr>"
    using random_coord_rand [OF assms(1), of w] 1 by simp
  then show ?thesis
    using random_coord_rand [OF assms(2), of w1] 2 by (simp add: bot_command_def 1 add.assoc)
qed

section \<open>The main loop\<close>

text \<open>
  What moves a client: a frame handed to its handler, or its command ticker. What it sends: the hash
  after a frame, or a command.
\<close>

datatype client_event = FrameArrives FrameBundle | CommandTick
datatype client_send = SentHash u32 u64 | SentCmd Cmd

fun client_loop ::
  "(Player \<Rightarrow> Cmd option \<times> Player) \<Rightarrow> client_event list \<Rightarrow> Player \<Rightarrow> 'e fault + client_send list \<times> Player" where
  "client_loop command [] p = Inr ([], p)"
| "client_loop command (FrameArrives fb # evs) p =
     and_then (on_frame fb p) (\<lambda>((tick, hash), p).
       and_then (client_loop command evs p) (\<lambda>(out, p). Inr (SentHash tick hash # out, p)))"
| "client_loop command (CommandTick # evs) p =
     (case command p of (cmd, p) \<Rightarrow>
        and_then (client_loop command evs p) (\<lambda>(out, p).
          Inr ((case cmd of None \<Rightarrow> out | Some c \<Rightarrow> SentCmd c # out), p)))"

definition frames_in :: "client_event list \<Rightarrow> FrameBundle list" where
  "frames_in evs = concat (map (\<lambda>ev. case ev of FrameArrives fb \<Rightarrow> [fb] | CommandTick \<Rightarrow> []) evs)"

definition hashes_in :: "client_send list \<Rightarrow> (u32 \<times> u64) list" where
  "hashes_in out = concat (map (\<lambda>x. case x of SentHash t h \<Rightarrow> [(t, h)] | SentCmd c \<Rightarrow> []) out)"

definition cmds_in :: "client_send list \<Rightarrow> Cmd list" where
  "cmds_in out = concat (map (\<lambda>x. case x of SentHash t h \<Rightarrow> [] | SentCmd c \<Rightarrow> [c]) out)"

lemma events_in_simps [simp]:
  "frames_in [] = []" "frames_in (FrameArrives fb # evs) = fb # frames_in evs"
  "frames_in (CommandTick # evs) = frames_in evs"
  "hashes_in [] = []" "hashes_in (SentHash t h # out) = (t, h) # hashes_in out"
  "hashes_in (SentCmd c # out) = hashes_in out"
  "cmds_in [] = []" "cmds_in (SentHash t h # out) = cmds_in out" "cmds_in (SentCmd c # out) = c # cmds_in out"
  by (simp_all add: frames_in_def hashes_in_def cmds_in_def)

text \<open>The generator after a number of commands: each draws twice.\<close>

definition after_draws :: "nat \<Rightarrow> SplitMix64 \<Rightarrow> SplitMix64" where
  "after_draws n r = \<lparr>rState = rState r + of_nat n * (2 * 0x9e3779b97f4a7c15)\<rparr>"

lemma after_draws_simps [simp]:
  "after_draws 0 r = r" "after_draws n (after_draws m r) = after_draws (m + n) r"
  by (simp_all add: after_draws_def algebra_simps)

lemma set_rand_simps [simp]:
  "set_rand r (set_rand s p) = set_rand r p" "set_rand (wRand (plWorld p)) p = p"
  "wRand (plWorld (set_rand r p)) = r" "plLastTick (set_rand r p) = plLastTick p"
  by (simp_all add: set_rand_def)

definition draws_twice :: "(Player \<Rightarrow> Cmd option \<times> Player) \<Rightarrow> bool" where
  "draws_twice command \<longleftrightarrow>
     (\<forall>p c q. command p = (c, q) \<longrightarrow>
        q = set_rand (after_draws (case c of None \<Rightarrow> 0 | Some _ \<Rightarrow> 1) (wRand (plWorld p))) p)"

lemma bot_commands_draw_twice:
  assumes "0 <s mapW" and "0 <s mapH"
  shows "draws_twice (fake_client_command myID mapW mapH)" and "draws_twice (load_test_command myID mapW mapH)"
proof -
  have b: "w' = w\<lparr>wRand := after_draws 1 (wRand w)\<rparr>" if "bot_command t myID u mapW mapH w = (c, w')" for t u w c w'
    using bot_command_rand [OF assms, of t myID u w] that by (simp add: after_draws_def)
  show "draws_twice (fake_client_command myID mapW mapH)"
    unfolding draws_twice_def fake_client_command_def
    by (auto simp: set_rand_def split: if_splits option.splits prod.splits dest!: b)
  show "draws_twice (load_test_command myID mapW mapH)"
    unfolding draws_twice_def load_test_command_def
    by (auto simp: set_rand_def split: if_splits option.splits prod.splits dest!: b)
qed

text \<open>A frame handler does not touch the generator and does not read it.\<close>

lemma on_frame_keeps_rand: "on_frame fb p = (Inr (h, q) :: 'e fault + _) \<Longrightarrow> wRand (plWorld q) = wRand (plWorld p)"
proof -
  assume q: "on_frame fb p = (Inr (h, q) :: 'e fault + _)"
  with on_frame_rand [of fb "wRand (plWorld p)" p, where 'a = 'e] have "q = set_rand (wRand (plWorld p)) q"
    by (simp del: set_rand_simps(3))
  then show ?thesis by (metis set_rand_simps(3))
qed

lemma client_loop_on_frames:
  assumes "draws_twice command"
  shows "case on_frames (frames_in evs) p :: 'e fault + _ of
      Inl e \<Rightarrow> (client_loop command evs p :: 'e fault + _) = Inl e
    | Inr (hs, q) \<Rightarrow> \<exists>out. (client_loop command evs p :: 'e fault + _) =
        Inr (out, set_rand (after_draws (length (cmds_in out)) (wRand (plWorld p))) q) \<and> hashes_in out = hs"
proof (induction evs arbitrary: p)
  case (Cons ev evs)
  show ?case
  proof (cases ev)
    case (FrameArrives fb)
    show ?thesis
    proof (cases "on_frame fb p :: 'e fault + (u32 \<times> u64) \<times> Player")
      case (Inr x)
      obtain t h p1 where x: "x = ((t, h), p1)" by (metis prod.exhaust)
      have k: "wRand (plWorld p1) = wRand (plWorld p)" using on_frame_keeps_rand [OF Inr [unfolded x]] .
      show ?thesis using Cons [of p1]
        by (cases "on_frames (frames_in evs) p1 :: 'e fault + (u32 \<times> u64) list \<times> Player")
          (auto simp: FrameArrives Inr x k)
    qed (simp add: FrameArrives)
  next
    case CommandTick
    obtain c p1 where c: "command p = (c, p1)" by fastforce
    with assms have p1: "p1 = set_rand (after_draws (case c of None \<Rightarrow> 0 | Some _ \<Rightarrow> 1) (wRand (plWorld p))) p"
      by (auto simp: draws_twice_def)
    show ?thesis using Cons [of p1] unfolding p1
      by (cases "on_frames (frames_in evs) p :: 'e fault + (u32 \<times> u64) list \<times> Player"; cases c)
        (auto simp: CommandTick c [unfolded p1] on_frames_rand add.commute)
  qed
qed simp

section \<open>Properties\<close>

lemma draws_differ:
  assumes "0 < n" and "n < 2 ^ 63"
  shows "after_draws n r \<noteq> r"
proof
  assume "after_draws n r = r"
  then have "of_nat n * (2 * 0x9e3779b97f4a7c15) = (0 :: u64)" by (cases r) (simp add: after_draws_def)
  then have "of_nat n * ((2 * 0x9e3779b97f4a7c15) * 17428512612931826493) = (0 :: u64)"
    by (simp only: mult.assoc [symmetric]) simp
  moreover have "(2 * 0x9e3779b97f4a7c15) * 17428512612931826493 = (2 :: u64)" by simp
  ultimately have "of_nat (n * 2) = (0 :: u64)" by (simp only:) simp
  moreover have "unat (of_nat (n * 2) :: u64) = n * 2" using assms(2) by (intro of_nat_inverse) simp_all
  ultimately show False using assms(1) by simp
qed

text \<open>A bot draws its commands from the generator of the world it simulates, which then differs
  from the server's. However its command ticks fall between the frames, it reports the hashes of a
  client that sends nothing; no hash shows the difference, while its snapshot differs as soon as it has
  sent a command.\<close>

theorem bot_draws_hidden:
  assumes "command = fake_client_command myID mapW mapH \<or> command = load_test_command myID mapW mapH"
    and "0 <s mapW" and "0 <s mapH"
    and "on_frames (frames_in evs) p = (Inr (hs, q) :: 'e fault + _)"
    and "length (wUnits (plWorld q)) < 2 ^ 32"
  shows "\<exists>out p'. client_loop command evs p = (Inr (out, p') :: 'e fault + _) \<and> hashes_in out = hs \<and>
    plLastTick p' = plLastTick q \<and> Hash (plWorld p') = Hash (plWorld q) \<and>
    (length (cmds_in out) < 2 ^ 63 \<longrightarrow> (Marshal (plWorld p') \<noteq> Marshal (plWorld q) \<longleftrightarrow> cmds_in out \<noteq> []))"
proof -
  have "draws_twice command" using assms(1) bot_commands_draw_twice [OF assms(2,3)] by blast
  from client_loop_on_frames [OF this, of evs p, where 'e = 'e] assms(4) obtain out where
    c: "client_loop command evs p =
        (Inr (out, set_rand (after_draws (length (cmds_in out)) (wRand (plWorld p))) q) :: 'e fault + _)"
      "hashes_in out = hs" by auto
  have k: "wRand (plWorld q) = wRand (plWorld p)"
  proof -
    have "q = set_rand (wRand (plWorld p)) q"
      using on_frames_rand [of "frames_in evs" "wRand (plWorld p)" p, where 'a = 'e] assms(4)
      by (simp del: set_rand_simps(3))
    then show ?thesis by (metis set_rand_simps(3))
  qed
  let ?r = "after_draws (length (cmds_in out)) (wRand (plWorld q))"
  let ?p = "set_rand ?r q"
  have inj: "Marshal (plWorld ?p) \<noteq> Marshal (plWorld q)" if "plWorld ?p \<noteq> plWorld q"
    using Unmarshal_Marshal_rest [of "plWorld q" "[]"] Unmarshal_Marshal_rest [of "plWorld ?p" "[]"] assms(5) that
    by (auto simp: unit_count_ok_def set_rand_def)
  have "Marshal (plWorld ?p) \<noteq> Marshal (plWorld q) \<longleftrightarrow> cmds_in out \<noteq> []" if "length (cmds_in out) < 2 ^ 63"
  proof (cases "cmds_in out = []")
    case False
    then have "?r \<noteq> wRand (plWorld q)" using draws_differ that by blast
    then have "plWorld ?p \<noteq> plWorld q" by (metis set_rand_simps(3))
    with inj False show ?thesis by blast
  qed simp
  then show ?thesis using c unfolding k [symmetric] by (intro exI [of _ out] exI [of _ ?p]) (simp add: set_rand_def)
qed

theorem bot_draws_hidden_witness:
  "\<exists>out p'. client_loop (fake_client_command 1 100 100) [CommandTick] \<lparr>plWorld = duel, plLastTick = 1\<rparr> =
      (Inr (out, p') :: unit fault + _) \<and> length (cmds_in out) = 1 \<and>
    Hash (plWorld p') = Hash duel \<and> Marshal (plWorld p') \<noteq> Marshal duel"
proof -
  let ?p = "\<lparr>plWorld = duel, plLastTick = 1\<rparr>"
  obtain cmd w where b: "bot_command 1 1 2 100 100 duel = (cmd, w)" by fastforce
  have "find (\<lambda>u. uOwner u = 1 \<and> uState u \<noteq> UnitDead) (wUnits duel) = Some (wUnits duel ! 1)"
    "uID (wUnits duel ! 1) = 2" "wUnits duel \<noteq> []"
    by (simp_all add: duel_eq state_defs)
  with b have c: "fake_client_command 1 100 100 ?p = (Some cmd, \<lparr>plWorld = w, plLastTick = 1\<rparr>)"
    by (simp add: fake_client_command_def)
  have f: "on_frames (frames_in [CommandTick]) ?p = (Inr ([], ?p) :: unit fault + _)" by simp
  have l: "length (wUnits (plWorld ?p)) < 2 ^ 32" by (simp add: duel_eq)
  from bot_draws_hidden [OF disjI1 [OF refl] _ _ f l, of 100 100 1] c show ?thesis
    by (auto simp: word_sless_alt)
qed

text \<open>C26: no false alarms: when the clients of all players have handled the same frames, each sending
  its own commands in between, their reports for a tick make the verdict a match, in whatever order
  they come in.\<close>

theorem honest_clients_match:
  assumes "0 < n" and "n \<le> 256" and "\<forall>i < n. draws_twice (command i)"
    and "\<forall>i < n. client_loop (command i) (evs i) p = (Inr (out i, q i) :: 'e fault + _)"
    and "\<forall>i < n. frames_in (evs i) = fs" and "k < length fs"
    and "hagg_ok h" and "map_of (hgWindow h) t = Some th" and "thHashes th = []" and "thExpected th = int n"
    and "distinct is" and "set is = {..<n}"
  shows "fst (GetState t (report_all t (map (\<lambda>i. (of_nat i, snd (hashes_in (out i) ! k))) is) h)) = HashMatch"
proof -
  let ?rs = "map (\<lambda>i. (of_nat i :: u8, snd (hashes_in (out i) ! k))) is"
  have same: "hashes_in (out i) = hashes_in (out 0)" if "i < n" for i
  proof -
    have "case on_frames fs p :: 'e fault + _ of Inl e \<Rightarrow> False | Inr (hs, q) \<Rightarrow> hashes_in (out j) = hs" if "j < n" for j
      using client_loop_on_frames [of "command j" "evs j" p, where 'e = 'e] assms(3-5) that
      by (auto split: sum.splits)
    from this [OF \<open>i < n\<close>] this [OF assms(1)] show ?thesis by (auto split: sum.splits)
  qed
  have small: "unat (of_nat i :: u8) = i" if "i < n" for i
    using that assms(2) by (intro of_nat_inverse) simp_all
  have "inj_on (of_nat :: nat \<Rightarrow> u8) {..<n}" by (intro inj_onI) (metis lessThan_iff small)
  then have d: "distinct (map fst ?rs)" using assms(11,12) by (simp add: distinct_map o_def)
  have "0 \<in> set is" using assms(1,12) by simp
  then have ne: "?rs \<noteq> []" by (cases "is") simp_all
  have "length is = n" using assms(11,12) by (metis card_lessThan distinct_card)
  then have l: "\<not> int (length ?rs) < thExpected th" using assms(10) by simp
  have all: "\<forall>x \<in> set ?rs. snd x = snd (hashes_in (out 0) ! k)"
  proof
    fix x assume "x \<in> set ?rs"
    then obtain i where "i \<in> set is" "x = (of_nat i, snd (hashes_in (out i) ! k))" by auto
    with same [of i] assms(12) show "snd x = snd (hashes_in (out 0) ! k)" by simp
  qed
  have "\<not> (\<exists>x \<in> set ?rs. \<exists>y \<in> set ?rs. snd x \<noteq> snd y)"
  proof (rule notI, elim bexE)
    fix x y assume "x \<in> set ?rs" "y \<in> set ?rs" "snd x \<noteq> snd y"
    with bspec [OF all, of x] bspec [OF all, of y] show False by (simp only:)
  qed
  with l show ?thesis unfolding report_verdict_all [OF assms(7-9) ne d] by (simp only: if_False)
qed

theorem honest_clients_match_witness:
  "let f = \<lparr>fbTick = 1, fbNCurrent = 3, fbCmds = []\<rparr>; p = \<lparr>plWorld = duel, plLastTick = 0\<rparr>
   in \<exists>out (q :: nat \<Rightarrow> Player). client_loop (fake_client_command 0 100 100) [FrameArrives f] p = (Inr (out 0, q 0) :: unit fault + _) \<and>
      client_loop (fake_client_command 1 100 100) [FrameArrives f, CommandTick] p = (Inr (out 1, q 1) :: unit fault + _) \<and>
      fst (GetState 1 (report_all 1 (map (\<lambda>i. (of_nat i, snd (hashes_in (out i) ! 0))) [1, 0])
        (CreateSlot 1 (NewHashAgg 100 2)))) = HashMatch"
proof -
  let ?f = "\<lparr>fbTick = 1, fbNCurrent = 3, fbCmds = []\<rparr> :: FrameBundle" and ?p = "\<lparr>plWorld = duel, plLastTick = 0\<rparr>"
  let ?evs = "\<lambda>i :: nat. if i = 0 then [FrameArrives ?f] else [FrameArrives ?f, CommandTick]"
  let ?cmd = "\<lambda>i :: nat. fake_client_command (of_nat i) 100 100" and ?h = "CreateSlot 1 (NewHashAgg 100 2)"
  have d: "draws_twice (?cmd i)" for i by (rule bot_commands_draw_twice) (simp_all add: word_sless_alt)
  obtain hs p1 where f: "on_frames [?f] ?p = (Inr (hs, p1) :: unit fault + _)"
    using on_frames_run [of ?p "[?f]", where 'e = unit] duel_ok by (auto simp: sim_ok_iff)
  have "\<exists>out q. client_loop (?cmd i) (?evs i) ?p = (Inr (out, q) :: unit fault + _)" for i
    using client_loop_on_frames [OF d [of i], of "?evs i" ?p, where 'e = unit] f by auto
  then obtain out q where c: "\<And>i. client_loop (?cmd i) (?evs i) ?p = (Inr (out i, q i) :: unit fault + _)" by metis
  have m: "map_of (hgWindow ?h) 1 = Some \<lparr>thTick = 1, thHashes = [], thExpected = 2, thState = HashPending\<rparr>"
    by (simp add: CreateSlot_def NewHashAgg_def Let_def)
  have "fst (GetState 1 (report_all 1 (map (\<lambda>i. (of_nat i, snd (hashes_in (out i) ! 0))) [1, 0]) ?h)) = HashMatch"
    by (rule honest_clients_match [OF _ _ _ _ _ _ hagg_ok_CreateSlot [OF hagg_ok_new] m, where n = 2 and fs = "[?f]"
          and command = ?cmd and evs = ?evs and p = ?p and q = q and 'e = unit])
      (use d c in \<open>auto simp: less_Suc_eq numeral_2_eq_2\<close>)
  moreover have "client_loop (fake_client_command 0 100 100) [FrameArrives ?f] ?p = (Inr (out 0, q 0) :: unit fault + _)"
    "client_loop (fake_client_command 1 100 100) [FrameArrives ?f, CommandTick] ?p = (Inr (out 1, q 1) :: unit fault + _)"
    using c [of 0] c [of 1] by (simp_all del: client_loop.simps)
  ultimately show ?thesis unfolding Let_def by (intro exI [of _ out] exI [of _ q] conjI)
qed

end
