(* ===== verification/LoadTest.thy ===== *)
theory LoadTest
  imports Bots ObsText
begin

text \<open>
  \<^verbatim>\<open>cmd/load-test\<close>: its own connection handler, the clients it starts, and the verdict it
  prints. The server under test is the one of \<^verbatim>\<open>System\<close> but for that handler.
\<close>

section \<open>The load test\<close>

text \<open>Its connection handler accepts any version, does not name rooms and does not answer when a room
  is full; forwarding is the server's.\<close>

definition lt_on_hello ::
  "RoomConfig \<Rightarrow> byte list option \<Rightarrow> Session \<Rightarrow> wire_error fault + action list \<times> Session" where
  "lt_on_hello defaults data s =
     (case data of
        None \<Rightarrow> Inr ([], s\<lparr>ssPhase := Done\<rparr>)
      | Some d \<Rightarrow>
          (case Decode d of
             Inl Panic \<Rightarrow> Inl Panic
           | Inl (Err e) \<Rightarrow> Inr ([], s\<lparr>ssPhase := Done\<rparr>)
           | Inr (t, m) \<Rightarrow>
               if t \<noteq> MsgHello then Inr ([], s\<lparr>ssPhase := Done\<rparr>)
               else (case m of
                   MHello hello \<Rightarrow>
                     Inr ([Reply (encode_or_nil (MHelloAck
                             \<lparr>haProtocolVersion = ProtocolVersion,
                              haServerTickRate = word_of_int (rcTickRate defaults), haAccepted = True\<rparr>))],
                          s\<lparr>ssPhase := WaitJoin\<rparr>)
                 | _ \<Rightarrow> Inl Panic)))"

definition lt_on_join ::
  "RoomConfig \<Rightarrow> byte list option \<Rightarrow> Registry \<Rightarrow> Session \<Rightarrow>
    wire_error fault + action list \<times> Registry \<times> Session" where
  "lt_on_join defaults data reg s =
     (case data of
        None \<Rightarrow> Inr ([], reg, s\<lparr>ssPhase := Done\<rparr>)
      | Some d \<Rightarrow>
          (case Decode d of
             Inl Panic \<Rightarrow> Inl Panic
           | Inl (Err e) \<Rightarrow> Inr ([], reg, s\<lparr>ssPhase := Done\<rparr>)
           | Inr (t, m) \<Rightarrow>
               if t \<noteq> MsgJoinRoom then Inr ([], reg, s\<lparr>ssPhase := Done\<rparr>)
               else (case m of
                   MJoinRoom join \<Rightarrow>
                     and_then (GetOrCreate (jrRoomID join) reg) (\<lambda>(rm, reg).
                       case AddPlayer (ssConn s) (rrHeap reg ! rm) of ((playerID, ok), room) \<Rightarrow>
                         if \<not> ok then Inr ([], reg, s\<lparr>ssPhase := Done\<rparr>)
                         else
                           Inr ([Reply (encode_or_nil (MJoinAck
                                   \<lparr>jaRoomID = jrRoomID join, jaPlayerID = playerID,
                                    jaSeed = rcSeed defaults, jaMapW = rcMapW defaults,
                                    jaMapH = rcMapH defaults, jaAccepted = True\<rparr>))],
                                reg\<lparr>rrHeap := (rrHeap reg)[rm := room]\<rparr>,
                                s\<lparr>ssPhase := Forwarding rm playerID\<rparr>))
                 | _ \<Rightarrow> Inl Panic)))"

definition lt_session_step ::
  "RoomConfig \<Rightarrow> byte list option \<Rightarrow> Registry \<Rightarrow> Session \<Rightarrow>
    wire_error fault + action list \<times> Registry \<times> Session" where
  "lt_session_step defaults data reg s =
     (case ssPhase s of
        WaitHello \<Rightarrow> and_then (lt_on_hello defaults data s) (\<lambda>(as, s). Inr (as, reg, s))
      | WaitJoin \<Rightarrow> lt_on_join defaults data reg s
      | Forwarding rm playerID \<Rightarrow>
          (case data of
             None \<Rightarrow> Inr ([], reg, s)
           | Some d \<Rightarrow> and_then (on_data d rm playerID) (\<lambda>as. Inr (as, reg, s)))
      | Done \<Rightarrow> Inr ([], reg, s))"

text \<open>
  \<^verbatim>\<open>runClient\<close>: what its \<^verbatim>\<open>Connect\<close> was answered, if it succeeded, and
  what its loop meets; the number of frames handled and of desyncs, or a connection error. The number of
  desyncs is declared and never assigned.
\<close>

definition runClient ::
  "JoinAck option \<Rightarrow> int \<Rightarrow> client_event list \<Rightarrow> 'e fault + (int \<times> int) option" where
  "runClient joined playerCount evs =
     (case joined of
        None \<Rightarrow> Inr None
      | Some ack \<Rightarrow>
          (let world = client_world (jaSeed ack) (jaMapW ack) (jaMapH ack) (nat playerCount) 5
           in and_then (client_loop (load_test_command (jaPlayerID ack) (jaMapW ack) (jaMapH ack)) evs
                  \<lparr>plWorld = world, plLastTick = 0\<rparr>) (\<lambda>(out, p).
                Inr (Some (int (length (hashes_in out)), 0)))))"

datatype load_status = LoadFailed | LoadPartial | LoadPass

definition load_totals :: "(int \<times> int) option list \<Rightarrow> int \<times> int \<times> int" where
  "load_totals rs =
     foldl (\<lambda>(ticks, desyncs, errors) r.
       case r of None \<Rightarrow> (ticks, desyncs, errors + 1) | Some (t, d) \<Rightarrow> (ticks + t, desyncs + d, errors)) (0, 0, 0) rs"

definition load_verdict :: "(int \<times> int) option list \<Rightarrow> load_status" where
  "load_verdict rs =
     (case load_totals rs of (ticks, desyncs, errors) \<Rightarrow>
        if desyncs > 0 then LoadFailed else if errors > 0 then LoadPartial else LoadPass)"

text \<open>The flags make the rooms' configuration and the list of clients: which room each joins, its name and
  its index. \<open>outcome\<close> is what \<^verbatim>\<open>runClient\<close> returns to each.\<close>

definition load_defaults :: "int \<Rightarrow> int \<Rightarrow> RoomConfig" where
  "load_defaults tickRate playersPerRoom =
     \<lparr>rcRoomID = [], rcSeed = 42, rcMapW = 100, rcMapH = 100, rcTickRate = tickRate, rcInitialN = 3, rcMinN = 2,
      rcMaxN = 6, rcPlayerCount = playersPerRoom\<rparr>"

definition load_clients :: "int \<Rightarrow> int \<Rightarrow> (gostring \<times> gostring \<times> nat) list" where
  "load_clients rooms playersPerRoom =
     concat (map (\<lambda>r. map (\<lambda>p. (map of_char ''room-'' @ dec_int (int r), map of_char ''p'' @ dec_int (int p), p))
       [0..<nat playersPerRoom]) [0..<nat rooms])"

definition load_main ::
  "(gostring \<times> gostring \<times> nat \<Rightarrow> (int \<times> int) option) \<Rightarrow> int \<Rightarrow> int \<Rightarrow> (int \<times> int \<times> int) \<times> load_status" where
  "load_main outcome rooms playersPerRoom =
     (let rs = map outcome (load_clients rooms playersPerRoom) in (load_totals rs, load_verdict rs))"

definition client_result :: "(int \<times> int) option \<Rightarrow> bool" where
  "client_result r \<longleftrightarrow> (\<exists>joined n evs. runClient joined n evs = (Inr r :: unit fault + _))"

lemma client_result_desyncs: "client_result (Some (t, d)) \<Longrightarrow> d = 0"
  by (auto simp: client_result_def runClient_def Let_def and_then_eq_Inr split: option.splits)

lemma load_totals_desyncs:
  assumes "\<forall>r \<in> set rs. client_result r"
  shows "fst (snd (load_totals rs)) = 0"
proof -
  have "fst (snd (foldl (\<lambda>(ticks, desyncs, errors) r.
       case r of None \<Rightarrow> (ticks, desyncs, errors + 1) | Some (t, d) \<Rightarrow> (ticks + t, desyncs + d, errors)) (a, 0, b) xs)) = (0 :: int)"
    if "\<forall>r \<in> set xs. client_result r" for xs and a b :: int
    using that
    by (induction xs arbitrary: a b) (auto dest: client_result_desyncs split: option.splits)
  then show ?thesis using assms by (simp add: load_totals_def)
qed

section \<open>Properties\<close>

text \<open>The load test cannot fail: whatever its clients compute, its verdict is never a failure,
  because no client counts a desync.\<close>

theorem load_test_never_fails:
  assumes "\<forall>r \<in> set rs. client_result r"
  shows "load_verdict rs \<noteq> LoadFailed"
  using load_totals_desyncs [OF assms] by (auto simp: load_verdict_def split: prod.split)

theorem load_test_never_fails_witness: "load_verdict [None, Some (0, 0)] \<noteq> LoadFailed"
proof (rule load_test_never_fails)
  have "runClient None 2 [] = (Inr None :: unit fault + _)"
    "runClient (Some \<lparr>jaRoomID = [], jaPlayerID = 0, jaSeed = 42, jaMapW = 100, jaMapH = 100, jaAccepted = True\<rparr>) 2 [] =
      (Inr (Some (0, 0)) :: unit fault + _)" by (simp_all add: runClient_def hashes_in_def)
  then show "\<forall>r \<in> set [None, Some (0, 0)]. client_result r" unfolding client_result_def by fastforce
qed

text \<open>The clients of the load test are told apart by room and name, and every room is joined by as many
  clients as it has places.\<close>

theorem load_clients_fill_rooms:
  "distinct (load_clients rooms players) \<and>
    (\<forall>c \<in> set (load_clients rooms players).
       length (filter (\<lambda>d. fst d = fst c) (load_clients rooms players)) = nat players) \<and>
    card (fst ` set (load_clients rooms players)) = (if 0 < players then nat rooms else 0)"
proof -
  let ?room = "\<lambda>r :: nat. map of_char ''room-'' @ dec_int (int r) :: gostring"
  let ?one = "\<lambda>r. map (\<lambda>p. (?room r, map of_char ''p'' @ dec_int (int p) :: gostring, p)) [0..<nat players]"
  have room: "?room r = ?room s \<longleftrightarrow> r = s" for r s by (metis append_same_eq of_nat_eq_iff read_dec_int same_append_eq)
  have d: "distinct (concat (map ?one rs))" if "distinct rs" for rs
    using that room by (induction rs) (auto simp: distinct_map inj_on_def)
  have f: "filter (\<lambda>d. fst d = ?room r) (concat (map ?one rs)) = (if r \<in> set rs then ?one r else [])" if "distinct rs" for r rs
    using that room by (induction rs) (auto simp: filter_empty_conv)
  have "fst ` set (concat (map ?one rs)) = (if 0 < players then ?room ` set rs else {})" for rs
    by (induction rs) (simp_all add: image_Un image_image image_constant_conv)
  from this [of "[0..<nat rooms]"]
  have "fst ` set (concat (map ?one [0..<nat rooms])) = (if 0 < players then ?room ` {..<nat rooms} else {})"
    by (simp only: set_upt atLeast0LessThan)
  moreover have "inj ?room" using room by (simp add: inj_def)
  then have "card (?room ` {..<nat rooms}) = nat rooms" by (simp add: card_image inj_on_subset)
  ultimately show ?thesis using d [of "[0..<nat rooms]"] f [of "[0..<nat rooms]"]
    by (auto simp: load_clients_def)
qed

end
