(* ===== verification/FakeClient.thy ===== *)
theory FakeClient
  imports System Bots
begin

text \<open>
  \<^verbatim>\<open>cmd/fake-client\<close> as a whole program: it connects, builds its world from the answer, and
  runs its loop. It follows a room of two players; the number of players is not in the answer, and the
  program assumes two.
\<close>

section \<open>The program\<close>

definition PlayerID :: "Client \<Rightarrow> u8" where "PlayerID c = clPlayerID c"

definition Seed :: "Client \<Rightarrow> u64" where "Seed c = clSeed c"

definition MapSize :: "Client \<Rightarrow> i32 \<times> i32" where "MapSize c = (clMapW c, clMapH c)"

text \<open>Its own copy of the conversion of commands, which its handler uses for the frame's commands.\<close>

definition bot_wireCmdsToSimCmds :: "Cmd list \<Rightarrow> SimCmd list" where
  "bot_wireCmdsToSimCmds cmds =
     (if length cmds = 0 then []
      else map (\<lambda>c. \<lparr>cPlayer = cmPlayer c, cOp = cmOp c, cUnitID = cmUnitID c,
             cTargetPos = V (FromRaw (cmTargetX c)) (FromRaw (cmTargetY c)), cTargetID = cmTargetID c\<rparr>) cmds)"

lemma bot_conversion: "bot_wireCmdsToSimCmds (fbCmds fb) = frame_cmds fb"
  by (simp add: bot_wireCmdsToSimCmds_def frame_cmds_def wireCmdsToSimCmds_def wireCmdToSimCmd_def)

definition fake_client_world :: "Client \<Rightarrow> World" where
  "fake_client_world c =
     (let (mapW, mapH) = MapSize c; playerCount = 2; unitsPerPlayer = 5
      in client_world (Seed c) mapW mapH playerCount unitsPerPlayer)"

text \<open>The arguments are the answers of the network to \<^verbatim>\<open>Connect\<close>, the flags, and what the
  loop meets; nothing but a panic can stop the loop early. The result is what was sent, by the handshake and then, and the world and tick at the end.\<close>

definition fake_client_main ::
  "connect_env \<Rightarrow> gostring \<Rightarrow> gostring \<Rightarrow> addr \<Rightarrow> int \<Rightarrow> client_event list \<Rightarrow>
    client_error fault + datagram list \<times> client_send list \<times> Player" where
  "fake_client_main env playerName roomID serverAddr now evs =
     and_then (Connect env playerName roomID (NewClient serverAddr False now)) (\<lambda>(ds, c).
       let (mapW, mapH) = MapSize c; myID = PlayerID c
       in case client_loop (fake_client_command myID mapW mapH) evs
              \<lparr>plWorld = fake_client_world c, plLastTick = 0\<rparr> :: unit fault + client_send list \<times> Player of
            Inl e \<Rightarrow> Inl Panic
          | Inr (out, p) \<Rightarrow> Inr (ds, out, p))"

section \<open>The number of players\<close>

lemma spawned_units: "length (wUnits (foldl spawn_one w ps)) = length (wUnits w) + length ps"
  by (induction ps arbitrary: w) (simp_all add: spawn_one_def SpawnUnit_def Let_def split: prod.split)

lemma client_world_units: "length (wUnits (client_world seed mapW mapH n u)) = n * u"
  by (simp add: client_world_def spawned_units NewWorld_def length_concat comp_def sum_list_triv)

theorem fake_client_assumes_two:
  assumes "(NewRoom D :: unit fault + Room) = Inr r0" and "Seed c = rcSeed D" and "MapSize c = (rcMapW D, rcMapH D)"
    and "0 < rcPlayerCount D"
  shows "fake_client_world c = rmWorld (SpawnInitialUnits 5 r0) \<longleftrightarrow> rcPlayerCount D = 2"
proof
  have w: "rmWorld (SpawnInitialUnits 5 r0) = client_world (Seed c) (rcMapW D) (rcMapH D) (nat (rcPlayerCount D)) 5"
    using initial_worlds_agree [OF assms(1)] assms(2) by simp
  have f: "fake_client_world c = client_world (Seed c) (rcMapW D) (rcMapH D) 2 5"
    using assms(3) by (simp add: fake_client_world_def)
  show "rcPlayerCount D = 2 \<Longrightarrow> fake_client_world c = rmWorld (SpawnInitialUnits 5 r0)" by (simp add: w f)
  assume "fake_client_world c = rmWorld (SpawnInitialUnits 5 r0)"
  then have "length (wUnits (client_world (Seed c) (rcMapW D) (rcMapH D) 2 5)) =
      length (wUnits (client_world (Seed c) (rcMapW D) (rcMapH D) (nat (rcPlayerCount D)) 5))" unfolding w f by (rule arg_cong)
  with assms(4) show "rcPlayerCount D = 2" by (simp add: client_world_units)
qed

section \<open>Properties\<close>

text \<open>C25: the fake client follows its room. When it has joined a room of two players and its loop meets the
  frames of the room from the first on, in order, with its own command ticks anywhere between them, it reports for
  each frame the hash of the simulation, and its world is the room's but for the generator, from which it
  draws its commands.\<close>

theorem fake_client_follows_room:
  assumes "cfg_ok D" and "rcPlayerCount D = 2" and "(NewRoom D :: unit fault + Room) = Inr r0"
    and "room_run (SpawnInitialUnits 5 r0) (frames_in evs) r" and "length (frames_in evs) < 2 ^ 32"
    and "Connect env name i (NewClient addr False now) = Inr (ds, c)"
    and "Seed c = rcSeed D" and "MapSize c = (rcMapW D, rcMapH D)"
  shows "\<exists>out p hs. fake_client_main env name i addr now evs = Inr (ds, out, p) \<and>
    hashes_in out = zip (map fbTick (frames_in evs)) hs \<and>
    (sim.trace (rmWorld (SpawnInitialUnits 5 r0)) (map frame_cmds (frames_in evs)) :: unit fault + _) = Inr hs \<and>
    plWorld p = (rmWorld r)\<lparr>wRand := wRand (plWorld p)\<rparr> \<and> plLastTick p = rmTick r"
proof -
  let ?r = "SpawnInitialUnits 5 r0" and ?fs = "frames_in evs"
  let ?p = "\<lparr>plWorld = rmWorld ?r, plLastTick = 0\<rparr>"
  have "rcPlayerCount D \<le> 65536" using assms(2) by simp
  from started_room_live [OF assms(1) this assms(3)] have l: "room_live ?r" "rmTick ?r = 0" by auto
  from room_run_sealed [OF assms(4) l(1)] have s: "sealed_by ?r ?fs r" by blast
  have "sim_ok (rmWorld ?r)" using l(1) by (simp add: sim_ok_iff room_live_def room_ok_def)
  with on_frames_run [of ?p ?fs, where 'e = unit] s l(2) assms(5)
  obtain hs w where c: "(sim.run (rmWorld ?r) (map frame_cmds ?fs) :: unit fault + _) = Inr w"
    "(sim.trace (rmWorld ?r) (map frame_cmds ?fs) :: unit fault + _) = Inr hs"
    "(on_frames ?fs ?p :: unit fault + _) = Inr (zip (map fbTick ?fs) hs, \<lparr>plWorld = w, plLastTick = of_nat (length ?fs)\<rparr>)"
    by (auto simp: sealed_by_def)
  have w: "w = rmWorld r" "rmTick r = of_nat (length ?fs)" using s c(1) by (simp_all add: sealed_by_def l(2))
  have m: "0 <s rcMapW D" "0 <s rcMapH D" using assms(1,2) by (simp_all add: cfg_ok_def word_sless_alt)
  note draw = bot_commands_draw_twice(1) [OF m, of "PlayerID c"]
  from client_loop_on_frames [OF draw, of evs ?p, where 'e = unit] c(3) obtain out q where
    o: "(client_loop (fake_client_command (PlayerID c) (rcMapW D) (rcMapH D)) evs ?p :: unit fault + _) = Inr (out, q)"
      "hashes_in out = zip (map fbTick ?fs) hs" "q = set_rand (after_draws (length (cmds_in out)) (wRand (rmWorld ?r))) \<lparr>plWorld = w, plLastTick = of_nat (length ?fs)\<rparr>"
    by auto
  have "fake_client_world c = rmWorld ?r"
    using initial_worlds_agree [OF assms(3), of 5] assms(2,7,8) by (simp add: fake_client_world_def)
  with o(1) assms(6,8) have "fake_client_main env name i addr now evs = Inr (ds, out, q)"
    by (simp add: fake_client_main_def)
  then show ?thesis using o(2,3) c(2) w by (intro exI [of _ out] exI [of _ q] exI [of _ hs]) (simp add: set_rand_def)
qed

definition server_answers :: connect_env where
  "server_answers = \<lparr>ceSynOk = True, ceSynAck = Some (encodePacket \<lparr>pkFlags = FlagSYN OR FlagACK, pkConnID = 1, pkSeq = 0, pkAck = 0,
       pkAckBitmask = 0, pkPayload = []\<rparr>), ceHello = no_loss 0,
     ceHelloReads = [(0, encodePacket (data_at 1 (encode_or_nil (MHelloAck
       (helloAck two_players \<lparr>heProtocolVersion = ProtocolVersion, hePlayerName = [98]\<rparr>)))))],
     ceJoin = no_loss 0, ceJoinReads = [(0, encodePacket (data_at 2 (encode_or_nil (MJoinAck
       \<lparr>jaRoomID = [97], jaPlayerID = 0, jaSeed = 42, jaMapW = 100, jaMapH = 100, jaAccepted = True\<rparr>))))]\<rparr>"

lemma server_answers_run:
  "case Connect server_answers [98] [97] (NewClient ''s'' False 0) of Inl e \<Rightarrow> False
    | Inr (ds, c) \<Rightarrow> length ds = 2 \<and> Seed c = 42 \<and> MapSize c = (100, 100)"
  by code_simp

theorem fake_client_follows_room_witness:
  "\<exists>evs fs r ds out p hs. room_run arena fs r \<and> length fs = 3 \<and> evs = CommandTick # map FrameArrives fs \<and>
    fake_client_main server_answers [98] [97] ''s'' 0 evs = Inr (ds, out, p) \<and> hashes_in out = zip (map fbTick fs) hs \<and>
    plWorld p = (rmWorld r)\<lparr>wRand := wRand (plWorld p)\<rparr> \<and> plLastTick p = rmTick r"
proof -
  obtain r0 where r0: "(NewRoom two_players :: unit fault + Room) = Inr r0" "arena = SpawnInitialUnits 5 r0"
    using arena_eq by blast
  obtain fs r where f: "room_run arena fs r" "length fs = 3" using room_can_run [OF arena_live(1)] by blast
  let ?evs = "CommandTick # map FrameArrives fs"
  have fs: "frames_in ?evs = fs" by (simp add: frames_in_def comp_def)
  obtain ds c where c: "Connect server_answers [98] [97] (NewClient ''s'' False 0) = Inr (ds, c)" "Seed c = 42" "MapSize c = (100, 100)"
    using server_answers_run by (cases "Connect server_answers [98] [97] (NewClient ''s'' False 0)") auto
  have "rcPlayerCount two_players = 2" "rcSeed two_players = 42" "rcMapW two_players = 100" "rcMapH two_players = 100"
    by (simp_all add: two_players_def)
  with fake_client_follows_room [OF two_players_ok(1) _ r0(1), of ?evs r server_answers "[98]" "[97]" "''s''" 0 ds c] f c
  have "\<exists>out p hs. fake_client_main server_answers [98] [97] ''s'' 0 ?evs = Inr (ds, out, p) \<and> hashes_in out = zip (map fbTick fs) hs \<and>
    plWorld p = (rmWorld r)\<lparr>wRand := wRand (plWorld p)\<rparr> \<and> plLastTick p = rmTick r"
    unfolding fs r0(2) [symmetric] by auto
  with f show ?thesis by blast
qed

end
