(* ===== verification/Pace.thy ===== *)
theory Pace
  imports System
begin

text \<open>
  The clock of a room: \<^verbatim>\<open>Room.Run\<close> in \<^verbatim>\<open>internal/lockstep/room.go\<close>. A turn
  of its loop sleeps until the next tick is due or a message wakes it; due times count from the start, so
  that a late tick does not delay the ones after it. Times are nanoseconds of the monotonic clock.
\<close>

section \<open>The loop\<close>

text \<open>\<^verbatim>\<open>startTime.Add(time.Duration(r.tick+1) * r.tickInterval)\<close>: the tick is a uint32, the
  product an int64.\<close>

definition next_due :: "int \<Rightarrow> Room \<Rightarrow> int" where
  "next_due startTime r =
     startTime + sint (word_of_int (uint (rmTick r + 1)) * word_of_int (rmTickInterval r) :: i64)"

text \<open>
  What a turn that begins at \<open>now\<close> does. \<open>woken\<close> says that a message is received before the timer
  fires; \<open>late\<close> is the delay with which the goroutine goes on after its timer, or at once. The result
  is the broadcast and the frame when a tick was sealed, its time, and the room.
\<close>

definition Run_turn ::
  "int \<Rightarrow> int \<Rightarrow> int \<Rightarrow> bool \<Rightarrow> Room \<Rightarrow> unit fault + ((nat \<times> byte list) list \<times> FrameBundle) option \<times> int \<times> Room" where
  "Run_turn startTime now late woken r =
     (let sleepDur = next_due startTime r - now
      in if 0 < sleepDur \<and> woken \<and> rmInbox r \<noteq> []
         then and_then (handleMsg (hd (rmInbox r)) (r\<lparr>rmInbox := tl (rmInbox r)\<rparr>)) (\<lambda>r.
              and_then (drainInbox r) (\<lambda>r. Inr (None, now + late, r)))
         else (let now = (if 0 < sleepDur then now + sleepDur else now) + late
               in and_then (drainInbox r) (\<lambda>r.
                  and_then (sealTick now True r) (\<lambda>(out, r'). Inr (Some (out, next_frame r), now, r')))))"

text \<open>Runs of the loop, with the times at which frames were sealed. Between its turns other goroutines put
  messages into the channel, add players and call the reconnection methods.\<close>

definition sealed_at :: "int \<Rightarrow> ((nat \<times> byte list) list \<times> FrameBundle) option \<Rightarrow> (int \<times> FrameBundle) list" where
  "sealed_at t res = (case res of None \<Rightarrow> [] | Some (out, fb) \<Rightarrow> [(t, fb)])"

inductive clocked :: "int \<Rightarrow> int \<Rightarrow> Room \<Rightarrow> int \<Rightarrow> Room \<Rightarrow> (int \<times> FrameBundle) list \<Rightarrow> bool" for startTime t0 r0 where
  begins: "clocked startTime t0 r0 t0 r0 []"
| turn: "clocked startTime t0 r0 t r log \<Longrightarrow> t \<le> now \<Longrightarrow> 0 \<le> late \<Longrightarrow>
    Run_turn startTime now late woken r = Inr (res, t', r') \<Longrightarrow> clocked startTime t0 r0 t' r' (log @ sealed_at t' res)"
| enqueue: "clocked startTime t0 r0 t r log \<Longrightarrow> length (rmInbox r) < 1024 \<Longrightarrow> Decode d = Inr (ty, m) \<Longrightarrow>
    clocked startTime t0 r0 t (r\<lparr>rmInbox := rmInbox r @ [\<lparr>rgPlayerID = pid, rgType = ty, rgData = m\<rparr>]\<rparr>) log"
| join: "clocked startTime t0 r0 t r log \<Longrightarrow> clocked startTime t0 r0 t (snd (AddPlayer conn r)) log"
| leave: "clocked startTime t0 r0 t r log \<Longrightarrow> clocked startTime t0 r0 t (HandleDisconnect now pid r) log"
| resume: "clocked startTime t0 r0 t r log \<Longrightarrow> clocked startTime t0 r0 t (snd (HandleResume msg conn r)) log"

section \<open>A turn\<close>

lemma roster_interval:
  "rmTickInterval (snd (AddPlayer c r)) = rmTickInterval r" "rmTickInterval (HandleDisconnect now pid r) = rmTickInterval r"
  "rmTickInterval (snd (HandleResume m c r)) = rmTickInterval r"
  by (simp_all add: AddPlayer_def HandleDisconnect_def HandleResume_def Let_def split: option.split prod.split)

lemma room_run_step: "room_run r fs r' \<Longrightarrow> room_step r' gs r'' \<Longrightarrow> hs = fs @ gs \<Longrightarrow> room_run r hs r''"
  by (auto intro: room_run.more)

lemma Run_turn_wakes:
  assumes "Run_turn startTime now late woken r = Inr (None, t', r')"
  shows "t' = now + late \<and> room_step r [] r' \<and> rmTickInterval r' = rmTickInterval r"
proof -
  from assms obtain m ms r1 where r1: "rmInbox r = m # ms" "handleMsg m (r\<lparr>rmInbox := ms\<rparr>) = (Inr r1 :: unit fault + _)"
      "drainInbox r1 = (Inr r' :: unit fault + _)" "t' = now + late"
    by (auto simp: Run_turn_def Let_def and_then_eq_Inr neq_Nil_conv split: if_splits)
  with handleMsg_keeps [OF r1(2)] drainInbox_keeps [OF r1(3)] show ?thesis
    by (simp add: room_step.wake [OF r1(1-3)])
qed

lemma Run_turn_seals:
  assumes "Run_turn startTime now late woken r = Inr (Some (out, fb), t', r')" and "0 \<le> late" and "room_live r"
  shows "room_step r [fb] r' \<and> fbTick fb = rmTick r + 1 \<and> rmTickInterval r' = rmTickInterval r \<and>
    next_due startTime r \<le> t' \<and> now \<le> t'"
proof -
  define now' where "now' = (if 0 < next_due startTime r - now then next_due startTime r else now) + late"
  from assms(1) obtain r1 where r1: "drainInbox r = (Inr r1 :: unit fault + _)"
      "sealTick now' True r1 = (Inr (out, r') :: unit fault + _)" "fb = next_frame r1" "t' = now'"
    by (auto simp: Run_turn_def Let_def and_then_eq_Inr now'_def split: if_splits)
  have "rmTick r1 = rmTick r" using drainInbox_ok [OF assms(3), where 'e = unit] r1(1) by auto
  moreover have "next_due startTime r \<le> now'" "now \<le> now'" using assms(2) by (simp_all add: now'_def)
  ultimately show ?thesis
    using drainInbox_keeps [OF r1(1)] sealTick_keeps [OF r1(2)] room_step.tick [OF r1(1,2)]
    by (simp add: r1(3,4)) (simp add: next_frame_def)
qed

text \<open>A turn never panics; when the tick is due it seals, whatever waits in the channel.\<close>

lemma Run_turn_total:
  assumes "room_live r"
  shows "\<exists>res t' r'. Run_turn startTime now late woken r = Inr (res, t', r')"
    and "next_due startTime r \<le> now \<Longrightarrow> \<exists>out fb r'. Run_turn startTime now late woken r = Inr (Some (out, fb), now + late, r')"
proof -
  have seal: "\<exists>out fb r'. and_then (drainInbox r) (\<lambda>r. and_then (sealTick t True r) (\<lambda>(out, r'). Inr (Some (out, next_frame r), t, r'))) =
      (Inr (Some (out, fb), t, r') :: unit fault + _)" for t
  proof -
    from drainInbox_ok [OF assms, where 'e = unit] obtain r1 where r1: "drainInbox r = (Inr r1 :: unit fault + _)" "room_live r1" by blast
    from sealTick_ok [of r1 t True, where 'e = unit] r1(2) show ?thesis using r1(1) by (auto simp: room_live_def)
  qed
  then show "next_due startTime r \<le> now \<Longrightarrow> \<exists>out fb r'. Run_turn startTime now late woken r = Inr (Some (out, fb), now + late, r')"
    using seal [of "now + late"] by (simp add: Run_turn_def Let_def)
  show "\<exists>res t' r'. Run_turn startTime now late woken r = Inr (res, t', r')"
  proof (cases "0 < next_due startTime r - now \<and> woken \<and> rmInbox r \<noteq> []")
    case True
    then obtain m ms where m: "rmInbox r = m # ms" by (cases "rmInbox r") simp_all
    with assms have "room_ok (r\<lparr>rmInbox := ms\<rparr>)" "msg_ok m" "list_all msg_ok ms"
      by (simp_all add: room_live_def room_ok_def)
    with handleMsg_ok [of "r\<lparr>rmInbox := ms\<rparr>" m, where 'e = unit] obtain r1 where
      "handleMsg m (r\<lparr>rmInbox := ms\<rparr>) = (Inr r1 :: unit fault + _)" "room_live r1" by (auto simp: room_live_def)
    with drainInbox_ok [of r1, where 'e = unit] True m show ?thesis by (auto simp: Run_turn_def)
  next
    case False
    with seal [of "next_due startTime r + late"] seal [of "now + late"] show ?thesis by (auto simp: Run_turn_def Let_def)
  qed
qed

section \<open>Due times\<close>

lemma next_due_eq:
  assumes "rmTick r = of_nat n" and "Suc n < 2 ^ 32" and "0 \<le> rmTickInterval r" and "int (Suc n) * rmTickInterval r < 2 ^ 63"
  shows "next_due startTime r = startTime + int (Suc n) * rmTickInterval r"
proof -
  have "unat (of_nat (Suc n) :: u32) = Suc n" using assms(2) by (intro of_nat_inverse) simp_all
  then have "uint (rmTick r + 1) = int (Suc n)" by (simp add: assms(1) uint_nat add.commute)
  moreover have "0 \<le> int (Suc n) * rmTickInterval r" using assms(3) by simp
  ultimately show ?thesis
    using assms(4) int_word_sint [of "int (Suc n) * rmTickInterval r", where 'a = 64] by (simp add: next_due_def)
qed

definition on_time :: "int \<Rightarrow> int \<Rightarrow> int \<Rightarrow> (int \<times> FrameBundle) list \<Rightarrow> bool" where
  "on_time startTime interval t log \<longleftrightarrow>
     (\<forall>i < length log. startTime + int (Suc i) * interval \<le> fst (log ! i) \<and> fst (log ! i) \<le> t)"

lemma on_time_later: "on_time startTime interval t log \<Longrightarrow> t \<le> t' \<Longrightarrow> on_time startTime interval t' log"
  by (fastforce simp: on_time_def)

lemma on_time_append:
  "on_time startTime interval t log \<Longrightarrow> t \<le> t' \<Longrightarrow> startTime + int (Suc (length log)) * interval \<le> t' \<Longrightarrow>
    on_time startTime interval t' (log @ [(t', fb)])"
  by (fastforce simp: on_time_def nth_append less_Suc_eq)

lemma clocked_inv:
  assumes "clocked startTime t0 r0 t r log" and "room_live r0" and "rmTick r0 = 0" and "0 \<le> rmTickInterval r0"
    and "Suc (length log) < 2 ^ 32" and "int (Suc (length log)) * rmTickInterval r0 < 2 ^ 63"
  shows "room_run r0 (map snd log) r \<and> rmTickInterval r = rmTickInterval r0 \<and> on_time startTime (rmTickInterval r0) t log"
  using assms
proof (induction rule: clocked.induct)
  case begins
  then show ?case by (simp add: on_time_def room_run.none)
next
  case (turn t r log now late woken res t' r')
  let ?n = "length log" and ?I = "rmTickInterval r0"
  have shorter: "Suc ?n < 2 ^ 32" using turn.prems(4) by simp
  have "int (Suc ?n) * ?I \<le> int (Suc (length (log @ sealed_at t' res))) * ?I"
    using turn.prems(3) by (intro mult_right_mono) simp_all
  then have small: "int (Suc ?n) * ?I < 2 ^ 63" using turn.prems(5) by linarith
  from turn.IH [OF turn.prems(1-3) shorter small] have ih: "room_run r0 (map snd log) r" "rmTickInterval r = ?I"
    "on_time startTime ?I t log" by blast+
  from room_run_sealed [OF ih(1) turn.prems(1)] have live: "room_live r" and "rmTick r = of_nat ?n"
    using turn.prems(2) by (auto simp: sealed_by_def)
  then have due: "next_due startTime r = startTime + int (Suc ?n) * ?I"
    using next_due_eq [of r ?n startTime] shorter small turn.prems(3) ih(2) by simp
  show ?case
  proof (cases res)
    case None
    with Run_turn_wakes turn.hyps(4) have "t' = now + late" "room_step r [] r'" "rmTickInterval r' = rmTickInterval r" by blast+
    with ih turn.hyps(2,3) None show ?thesis
      by (auto simp: sealed_at_def intro: room_run_step on_time_later)
  next
    case (Some x)
    then obtain out fb where x: "res = Some (out, fb)" by (cases x) simp
    from Run_turn_seals [OF turn.hyps(4) [unfolded x] turn.hyps(3) live] have
      "room_step r [fb] r'" "rmTickInterval r' = rmTickInterval r" "next_due startTime r \<le> t'" "now \<le> t'" by auto
    with ih turn.hyps(2) due x show ?thesis
      by (auto simp: sealed_at_def intro: room_run_step on_time_append)
  qed
next
  case (enqueue t r log d ty m pid)
  then show ?case using room_run_step [OF _ room_step.enqueue] by fastforce
next
  case (join t r log conn)
  then show ?case using room_run_step [OF _ room_step.join] by (fastforce simp: roster_interval)
next
  case (leave t r log now pid)
  then show ?case using room_run_step [OF _ room_step.leave] by (fastforce simp: roster_interval)
next
  case (resume t r log msg conn)
  then show ?case using room_run_step [OF _ room_step.resume] by (fastforce simp: roster_interval)
qed

lemma NewRoom_interval:
  assumes "cfg_ok cfg" and "(NewRoom cfg :: 'e fault + Room) = Inr r0"
  shows "rmTickInterval (SpawnInitialUnits 5 r0) = Second div rcTickRate cfg \<and> 0 < Second div rcTickRate cfg"
proof -
  have "go_div Second (rcTickRate cfg) = (Inr (Second div rcTickRate cfg) :: 'e fault + _)"
    using assms(1) by (simp add: go_div_def cfg_ok_def sdiv_nonneg Second_def)
  with assms show ?thesis
    by (auto simp: NewRoom_def SpawnInitialUnits_def cfg_ok_def pos_imp_zdiv_pos_iff)
qed

section \<open>Properties\<close>

text \<open>C10: a room keeps its pace. Whatever messages wake its loop and however late its turns are, it seals
  tick \<open>i\<close> no earlier than \<open>i\<close> intervals after its start; no turn panics; and a turn that begins
  when the next tick is due seals it, whatever waits in the channel, so that neither messages nor late
  ticks put the following ones off.\<close>

theorem room_keeps_pace:
  assumes "cfg_ok cfg" and "rcPlayerCount cfg \<le> 65536" and "(NewRoom cfg :: unit fault + Room) = Inr r0"
    and "clocked startTime t0 (SpawnInitialUnits 5 r0) t r log" and "Suc (length log) < 2 ^ 32"
    and "int (Suc (length log)) * (Second div rcTickRate cfg) < 2 ^ 63"
  shows "room_run (SpawnInitialUnits 5 r0) (map snd log) r \<and>
    (\<forall>i < length log. startTime + int (Suc i) * (Second div rcTickRate cfg) \<le> fst (log ! i) \<and> fst (log ! i) \<le> t \<and>
       fbTick (snd (log ! i)) = of_nat (Suc i)) \<and>
    (\<exists>res t' r'. Run_turn startTime now late woken r = Inr (res, t', r')) \<and>
    (startTime + int (Suc (length log)) * (Second div rcTickRate cfg) \<le> now \<longrightarrow>
      (\<exists>out fb r'. Run_turn startTime now late woken r = Inr (Some (out, fb), now + late, r')))"
proof -
  let ?r0 = "SpawnInitialUnits 5 r0" and ?I = "Second div rcTickRate cfg"
  from started_room_live [OF assms(1-3)] have l: "room_live ?r0" "rmTick ?r0 = 0" by auto
  from NewRoom_interval [OF assms(1,3)] have i: "rmTickInterval ?r0 = ?I" "0 \<le> ?I" by auto
  from clocked_inv [OF assms(4) l] i assms(5,6) have
    c: "room_run ?r0 (map snd log) r" "rmTickInterval r = ?I" "on_time startTime ?I t log" by auto
  from room_run_sealed [OF c(1) l(1)] have s: "room_live r" "rmTick r = of_nat (length log)"
    "map fbTick (map snd log) = map (\<lambda>i. 1 + of_nat i) [0..<length log]"
    using l(2) by (auto simp: sealed_by_def)
  have ticks: "fbTick (snd (log ! i)) = of_nat (Suc i)" if "i < length log" for i
    using that arg_cong [OF s(3), of "\<lambda>xs. xs ! i"] by simp
  have due: "next_due startTime r = startTime + int (Suc (length log)) * ?I"
    using next_due_eq [OF s(2) assms(5), of startTime] c(2) i(2) assms(6) by simp
  show ?thesis using c(1,3) ticks Run_turn_total [OF s(1)] due unfolding on_time_def by (metis (no_types, lifting))
qed

theorem room_keeps_pace_witness:
  "\<exists>t r fb. clocked 0 0 arena t r [(t, fb)] \<and> 50000000 \<le> t \<and> fbTick fb = 1"
proof -
  obtain r0 where r0: "(NewRoom two_players :: unit fault + Room) = Inr r0" "arena = SpawnInitialUnits 5 r0"
    using arena_eq by blast
  have I: "Second div rcTickRate two_players = 50000000" by (simp add: two_players_def Second_def)
  from room_keeps_pace [OF two_players_ok r0(1), of 0 0 0 arena "[]" 50000000 0 False] obtain out fb r' where
    "Run_turn 0 50000000 0 False arena = Inr (Some (out, fb), 50000000, r')"
    using clocked.begins [of 0 0 arena] I by (auto simp: r0(2))
  from clocked.turn [OF clocked.begins _ _ this] have c: "clocked 0 0 arena 50000000 r' [(50000000, fb)]" by (simp add: sealed_at_def)
  from room_keeps_pace [OF two_players_ok r0(1) c [unfolded r0(2)]] I have "fbTick fb = 1" by simp
  with c show ?thesis by auto
qed

end
