(* ===== verification/Inbound.thy ===== *)
theory Inbound
  imports System
begin

text \<open>
  What reaches the rooms of the running server. The messages that the sessions put into a room's channel
  are read off the events; a room's life is a sequence of the acts that the server can do to it, so that
  what holds of every life holds of every room. Two consequences: commands are conserved, and a desync is
  never found where the reports agree.
\<close>

section \<open>The life of a room\<close>

text \<open>What an event puts into which channel.\<close>

definition forwards :: "event \<Rightarrow> system \<Rightarrow> (nat \<times> RoomMsg) list" where
  "forwards ev s =
     (case ev of
        Perform i env \<Rightarrow>
          (if i < length (sySessions s)
           then (case snd (sySessions s ! i) of
                   Forward k msg # as \<Rightarrow> if length (rmInbox (room_at s k)) < 1024 then [(k, msg)] else []
                 | _ \<Rightarrow> [])
           else [])
      | _ \<Rightarrow> [])"

fun run_forwards :: "RoomConfig \<Rightarrow> event list \<Rightarrow> system \<Rightarrow> (nat \<times> RoomMsg) list" where
  "run_forwards D [] s = []"
| "run_forwards D (ev # evs) s =
     forwards ev s @ (case sys_step D ev s of Inl e \<Rightarrow> [] | Inr s' \<Rightarrow> run_forwards D evs s')"

definition to_room :: "nat \<Rightarrow> (nat \<times> RoomMsg) list \<Rightarrow> RoomMsg list" where
  "to_room k kms = map snd (filter (\<lambda>km. fst km = k) kms)"

inductive room_act :: "Room \<Rightarrow> RoomMsg list \<Rightarrow> FrameBundle list \<Rightarrow> Room \<Rightarrow> bool" where
  rest: "room_act r [] [] r"
| forward: "msg_ok m \<Longrightarrow> room_act r [m] [] (r\<lparr>rmInbox := rmInbox r @ [m]\<rparr>)"
| join: "room_act r [] [] (snd (AddPlayer c r))"
| wake: "rmInbox r = m # ms \<Longrightarrow> handleMsg m (r\<lparr>rmInbox := ms\<rparr>) = (Inr r1 :: unit fault + Room) \<Longrightarrow>
    drainInbox r1 = (Inr r2 :: unit fault + Room) \<Longrightarrow> room_act r [] [] r2"
| tick: "drainInbox r = (Inr r1 :: unit fault + Room) \<Longrightarrow>
    sealTick now True r1 = (Inr (out, r2) :: unit fault + _) \<Longrightarrow> room_act r [] [next_frame r1] r2"

inductive room_life :: "Room \<Rightarrow> RoomMsg list \<Rightarrow> FrameBundle list \<Rightarrow> Room \<Rightarrow> bool" for r0 where
  born: "room_life r0 [] [] r0"
| act: "room_life r0 ms fs r \<Longrightarrow> room_act r ms' fs' r' \<Longrightarrow> room_life r0 (ms @ ms') (fs @ fs') r'"

lemma room_life_rest: "room_life r0 ms fs r \<Longrightarrow> room_act r ms' fs' r' \<Longrightarrow> msx = ms @ ms' \<Longrightarrow> fsx = fs @ fs' \<Longrightarrow> room_life r0 msx fsx r'"
  by (simp add: room_life.act)

lemma to_room_simps [simp]: "to_room k [] = []" "to_room k (xs @ ys) = to_room k xs @ to_room k ys"
  "to_room k [(j, m)] = (if j = k then [m] else [])"
  by (simp_all add: to_room_def)

section \<open>Every room of the server lives\<close>

text \<open>What an event does to the registry: nothing, an act on one room, or a new room.\<close>

definition started :: "RoomConfig \<Rightarrow> Room \<Rightarrow> bool" where
  "started D r \<longleftrightarrow> (\<exists>i room. (NewRoom (D\<lparr>rcRoomID := i\<rparr>) :: wire_error fault + Room) = Inr room \<and> r = SpawnInitialUnits 5 room)"

definition rooms_act :: "RoomConfig \<Rightarrow> Room list \<Rightarrow> (nat \<Rightarrow> RoomMsg list) \<Rightarrow> (nat \<Rightarrow> FrameBundle list) \<Rightarrow> Room list \<Rightarrow> bool" where
  "rooms_act D rs ms fs rs' \<longleftrightarrow> length rs \<le> length rs' \<and>
     (\<forall>k < length rs'. if k < length rs then room_act (rs ! k) (ms k) (fs k) (rs' ! k)
        else \<exists>r0. started D r0 \<and> room_act r0 (ms k) (fs k) (rs' ! k)) \<and>
     (\<forall>k \<ge> length rs'. ms k = [] \<and> fs k = [])"

lemma rooms_act_same: "rooms_act D rs (\<lambda>k. []) (\<lambda>k. []) rs"
  by (simp add: rooms_act_def room_act.rest)

lemma rooms_act_one:
  assumes "j < length rs" and "room_act (rs ! j) m f r"
  shows "rooms_act D rs (\<lambda>k. if k = j then m else []) (\<lambda>k. if k = j then f else []) (rs[j := r])"
  using assms by (auto simp: rooms_act_def nth_list_update room_act.rest)

lemma rooms_act_new:
  assumes "started D r0" and "room_act r0 [] [] r"
  shows "rooms_act D rs (\<lambda>k. []) (\<lambda>k. []) (rs @ [r])"
  using assms by (auto simp: rooms_act_def nth_append room_act.rest less_Suc_eq)

lemma GetOrCreate_rooms:
  assumes "GetOrCreate i reg = (Inr (k, reg') :: wire_error fault + _)" and "registry_ok reg" and "rrDefaults reg = D"
  shows "k < length (rrHeap reg') \<and>
    (rrHeap reg' = rrHeap reg \<or> (\<exists>r. started D r \<and> k = length (rrHeap reg) \<and> rrHeap reg' = rrHeap reg @ [r]))"
proof (cases "map_of (rrRooms reg) i")
  case None
  with assms show ?thesis by (fastforce simp: GetOrCreate_def Let_def and_then_eq_Inr started_def)
next
  case (Some x)
  with registry_ok_lookup [OF assms(2) Some] assms(1) show ?thesis by (simp add: GetOrCreate_def)
qed

lemma session_effect_rooms:
  assumes "session_effect reg ss reg' ss'" and "registry_ok reg" and "rrDefaults reg = D"
  shows "rooms_act D (rrHeap reg) (\<lambda>k. []) (\<lambda>k. []) (rrHeap reg')"
  using assms(1)
proof cases
  case (full roomID k)
  from GetOrCreate_rooms [OF full(3) assms(2,3)] show ?thesis
    by (auto intro: rooms_act_same rooms_act_new [OF _ room_act.rest])
next
  case (joined roomID k reg1 pid room)
  have room: "room = snd (AddPlayer (ssConn ss) (rrHeap reg1 ! k))" by (simp add: joined(5))
  from GetOrCreate_rooms [OF joined(4) assms(2,3)] show ?thesis
    unfolding joined(1) room
    using rooms_act_one [of k "rrHeap reg" "[]" "[]" "snd (AddPlayer (ssConn ss) (rrHeap reg ! k))" D] room_act.join
    by (auto intro!: rooms_act_new room_act.join)
qed (simp_all add: rooms_act_same)

lemma run_session_rooms:
  assumes "run_session D i g data s = Inr s'" and "rooms_ok D s" and "cfg_ok D"
  shows "rooms_act D (rrHeap (syRegistry s)) (\<lambda>k. []) (\<lambda>k. []) (rrHeap (syRegistry s')) \<and> syFrames s' = syFrames s"
proof -
  from assms(1) obtain as reg ss where
    "session_step D g data (syRegistry s) (fst (sySessions s ! i)) = Inr (as, reg, ss)"
    and s': "s' = upd_session i (ss, as) (s\<lparr>syRegistry := reg\<rparr>)"
    by (auto simp: run_session_def split: sum.splits prod.splits)
  then have "session_effect (syRegistry s) (fst (sySessions s ! i)) reg ss"
    using session_step_effect(1) assms(2,3) by (simp add: rooms_ok_def)
  from session_effect_rooms [OF this] assms(2) s' show ?thesis by (simp add: rooms_ok_def)
qed

lemma sys_step_rooms:
  assumes "sys_step D ev s = Inr s'" and "sys_ok D s" and "cfg_ok D"
  shows "\<exists>fs. rooms_act D (rrHeap (syRegistry s)) (\<lambda>k. to_room k (forwards ev s)) fs (rrHeap (syRegistry s')) \<and>
    (\<forall>k. frames_at k s' = frames_at k s @ fs k)"
proof -
  let ?rs = "rrHeap (syRegistry s)" and ?rs' = "rrHeap (syRegistry s')"
  from assms(2) have ok: "conns_ok s" "rooms_ok D s" "members_ok s" by (simp_all only: sys_ok_def)
  have quiet: ?thesis if "forwards ev s = []" "rooms_act D ?rs (\<lambda>k. []) (\<lambda>k. []) ?rs' \<and> syFrames s' = syFrames s"
    using that by (intro exI [of _ "\<lambda>k. []"]) (simp add: frames_at_def)
  show ?thesis
  proof (cases ev)
    case (Receive now d a)
    with assms(1) have "syRegistry s' = syRegistry s \<and> syFrames s' = syFrames s"
      by (auto simp: on_receive_def split: prod.splits)
    with Receive show ?thesis by (intro quiet) (simp_all add: forwards_def rooms_act_same)
  next
    case (TimeOut i g)
    with assms(1) have "s' = s \<or> run_session D i g None s = Inr s'" by (auto simp: on_timeout_def split: if_splits)
    with TimeOut run_session_rooms [OF _ ok(2) assms(3), of i g None s'] show ?thesis
      by (intro quiet) (auto simp: forwards_def rooms_act_same)
  next
    case (Take i g)
    let ?c = "ssConn (fst (sySessions s ! i))"
    obtain d cn where t: "take_inbox (conn_at s ?c) = (d, cn)" by fastforce
    have "s' = s \<or> (\<exists>d. run_session D i g (Some d) (upd_conn ?c cn s) = Inr s')"
      using assms(1) Take t by (auto simp: on_take_def Let_def split: if_splits option.splits)
    moreover have "rooms_ok D (upd_conn ?c cn s)"
      using ok(2) rooms_ok_cong [of "upd_conn ?c cn s" s D] by simp
    ultimately show ?thesis
      using Take run_session_rooms [OF _ _ assms(3), of i g _ "upd_conn ?c cn s" s']
      by (intro quiet) (auto simp: forwards_def rooms_act_same)
  next
    case (Wake k)
    show ?thesis
    proof (cases "room_running k s \<and> rmInbox (room_at s k) \<noteq> []")
      case True
      with assms(1) Wake obtain m ms r1 r2 where r: "rmInbox (room_at s k) = m # ms"
          "handleMsg m ((room_at s k)\<lparr>rmInbox := ms\<rparr>) = (Inr r1 :: unit fault + _)" "drainInbox r1 = (Inr r2 :: unit fault + _)"
          "s' = upd_room k r2 s"
        by (auto simp: on_wake_def and_then_eq_Inr neq_Nil_conv)
      with rooms_act_one [OF _ room_act.wake [OF r(1-3)], of D] True Wake show ?thesis
        by (intro quiet) (simp_all add: forwards_def room_running_def)
    next
      case False
      with assms(1) Wake have "s' = s" by (auto simp: on_wake_def split: if_splits list.splits)
      with Wake show ?thesis by (intro quiet) (simp_all add: forwards_def rooms_act_same)
    qed
  next
    case (TickRoom k now env)
    show ?thesis
    proof (cases "room_running k s")
      case True
      with assms(1) TickRoom obtain r1 out r2 where r: "drainInbox (room_at s k) = (Inr r1 :: unit fault + _)"
          "sealTick now True r1 = (Inr (out, r2) :: unit fault + _)"
          "s' = send_all env out ((upd_room k r2 s)\<lparr>syFrames := syFrames s @ [(k, next_frame r1)]\<rparr>)"
        by (auto simp: on_tick_def and_then_eq_Inr)
      have "frames_at j s' = frames_at j s @ (if j = k then [next_frame r1] else [])" for j
        by (simp add: r(3) frames_at_def)
      with rooms_act_one [OF _ room_act.tick [OF r(1,2)], of D] True TickRoom r(3) show ?thesis
        by (intro exI [of _ "\<lambda>j. if j = k then [next_frame r1] else []"]) (simp add: forwards_def room_running_def)
    next
      case False
      with assms(1) TickRoom have "s' = s" by (simp add: on_tick_def)
      with TickRoom show ?thesis by (intro quiet) (simp_all add: forwards_def rooms_act_same)
    qed
  next
    case (Retransmit c now)
    with assms(1) have "syRegistry s' = syRegistry s \<and> syFrames s' = syFrames s"
      by (auto simp: on_retransmit_def split: prod.splits if_splits)
    with Retransmit show ?thesis by (intro quiet) (simp_all add: forwards_def rooms_act_same)
  next
    case (Perform i env)
    show ?thesis
    proof (cases "\<exists>k msg as. i < length (sySessions s) \<and> snd (sySessions s ! i) = Forward k msg # as \<and> length (rmInbox (room_at s k)) < 1024")
      case True
      then obtain k msg as where x: "i < length (sySessions s)" "snd (sySessions s ! i) = Forward k msg # as"
        "length (rmInbox (room_at s k)) < 1024" by blast
      then have a: "action_ok (ssPhase (fst (sySessions s ! i))) (Forward k msg)"
        using ok(1) by (auto simp: conns_ok_def)
      then have m: "msg_ok msg" "room_of s i = Some k" using x(1) by (auto simp: action_ok_def room_of_def)
      then have k: "k < length ?rs" using ok(3) by (simp add: members_ok_def)
      have s': "rrHeap (syRegistry s') = ?rs[k := (room_at s k)\<lparr>rmInbox := rmInbox (room_at s k) @ [msg]\<rparr>]" "syFrames s' = syFrames s"
        using assms(1) Perform x by (auto simp: on_perform_def Let_def split: prod.splits list.splits)
      have f: "(\<lambda>j. to_room j (forwards ev s)) = (\<lambda>j. if j = k then [msg] else [])"
        using x Perform by (auto simp: forwards_def fun_eq_iff)
      from rooms_act_one [OF k room_act.forward [OF m(1)], of D] show ?thesis
        unfolding s'(1) f using s'(2) by (intro exI [of _ "\<lambda>j. if j = k then [] else []"]) (simp add: frames_at_def)
    next
      case False
      with assms(1) Perform have "syRegistry s' = syRegistry s \<and> syFrames s' = syFrames s"
        by (auto simp: on_perform_def Let_def split: prod.splits list.splits action.splits if_splits)
      moreover have "forwards ev s = []"
        using False Perform by (auto simp: forwards_def split: list.split action.split)
      ultimately show ?thesis by (intro quiet) (simp_all add: rooms_act_same)
    qed
  qed
qed

definition lives :: "RoomConfig \<Rightarrow> (nat \<times> RoomMsg) list \<Rightarrow> system \<Rightarrow> bool" where
  "lives D ms s \<longleftrightarrow>
     (\<forall>k < length (rrHeap (syRegistry s)). \<exists>r0. started D r0 \<and> room_life r0 (to_room k ms) (frames_at k s) (room_at s k)) \<and>
     (\<forall>k \<ge> length (rrHeap (syRegistry s)). to_room k ms = [] \<and> frames_at k s = [])"

lemma lives_step:
  assumes "lives D ms s" and "sys_step D ev s = Inr s'" and "sys_ok D s" and "cfg_ok D"
  shows "lives D (ms @ forwards ev s) s'"
proof -
  from sys_step_rooms [OF assms(2-4)] obtain fs where
    r: "rooms_act D (rrHeap (syRegistry s)) (\<lambda>k. to_room k (forwards ev s)) fs (rrHeap (syRegistry s'))"
    and f: "\<And>k. frames_at k s' = frames_at k s @ fs k" by blast
  have "\<exists>r0. started D r0 \<and> room_life r0 (to_room k (ms @ forwards ev s)) (frames_at k s') (room_at s' k)"
    if k: "k < length (rrHeap (syRegistry s'))" for k
  proof (cases "k < length (rrHeap (syRegistry s))")
    case True
    with assms(1) obtain r0 where "started D r0" "room_life r0 (to_room k ms) (frames_at k s) (room_at s k)"
      by (auto simp: lives_def)
    moreover have "room_act (room_at s k) (to_room k (forwards ev s)) (fs k) (room_at s' k)"
      using r k True by (simp add: rooms_act_def)
    ultimately show ?thesis using room_life.act by (auto simp: f)
  next
    case False
    with r k obtain r0 where "started D r0" "room_act r0 (to_room k (forwards ev s)) (fs k) (room_at s' k)"
      by (auto simp: rooms_act_def dest!: spec [of _ k])
    with False assms(1) room_life.act [OF room_life.born] show ?thesis by (fastforce simp: lives_def f)
  qed
  moreover have "to_room k (ms @ forwards ev s) = [] \<and> frames_at k s' = []" if k: "k \<ge> length (rrHeap (syRegistry s'))" for k
    using r k assms(1) by (auto simp: rooms_act_def lives_def f)
  ultimately show ?thesis by (simp add: lives_def)
qed

lemma lives_run:
  assumes "sys_run D evs s = Inr s'" and "lives D ms s" and "sys_ok D s" and "cfg_ok D" and "rcPlayerCount D \<le> 65536"
  shows "lives D (ms @ run_forwards D evs s) s'"
  using assms(1-3)
proof (induction evs arbitrary: ms s)
  case (Cons ev evs)
  from Cons.prems(1) obtain s1 where s1: "sys_step D ev s = Inr s1" "sys_run D evs s1 = Inr s'"
    by (auto simp: and_then_eq_Inr)
  have "sys_ok D s1" using sys_step_ok [OF Cons.prems(3) assms(4,5), of ev] s1(1) by auto
  from Cons.IH [OF s1(2) lives_step [OF Cons.prems(2) s1(1) Cons.prems(3) assms(4)] this] s1(1) show ?case by simp
qed simp

lemma server_room_life:
  assumes "cfg_ok D" and "rcPlayerCount D \<le> 65536" and "sys_run D evs (start D) = Inr s"
    and "k < length (rrHeap (syRegistry s))"
  shows "\<exists>r0. started D r0 \<and> room_life r0 (to_room k (run_forwards D evs (start D))) (frames_at k s) (room_at s k)"
proof -
  have "lives D [] (start D)" by (simp add: lives_def start_def NewRegistry_def frames_at_def)
  from lives_run [OF assms(3) this sys_ok_start assms(1,2)] assms(4) show ?thesis by (simp add: lives_def)
qed

lemma started_fresh:
  assumes "started D r0" and "cfg_ok D" and "rcPlayerCount D \<le> 65536"
  shows "room_live r0" and "rmInputBuf r0 = NewInputBuf" and "rmInbox r0 = []" and "hgWindow (rmHashAgg r0) = []"
proof -
  from assms(1) obtain i room where r: "(NewRoom (D\<lparr>rcRoomID := i\<rparr>) :: wire_error fault + Room) = Inr room"
    "r0 = SpawnInitialUnits 5 room" by (auto simp: started_def)
  have "cfg_ok (D\<lparr>rcRoomID := i\<rparr>)" using assms(2) by (simp add: cfg_ok_def)
  from started_room_live [OF this _ r(1)] assms(3) show "room_live r0" by (simp add: r(2))
  from r show "rmInputBuf r0 = NewInputBuf" "rmInbox r0 = []" "hgWindow (rmHashAgg r0) = []"
    by (auto simp: NewRoom_def SpawnInitialUnits_def NewHashAgg_def and_then_eq_Inr split: if_splits)
qed

section \<open>Commands\<close>

definition cmds_of :: "RoomMsg list \<Rightarrow> Cmd list" where
  "cmds_of ms = concat (map (\<lambda>m. case rgData m of MCmd c \<Rightarrow> [c] | _ \<Rightarrow> []) ms)"

definition buffered :: "InputBuf \<Rightarrow> Cmd multiset" where
  "buffered ib = mset (concat (map snd ib))"

lemma cmds_of_simps [simp]: "cmds_of [] = []" "cmds_of (xs @ ys) = cmds_of xs @ cmds_of ys"
  by (simp_all add: cmds_of_def)

lemma cmds_of_Cons: "cmds_of (m # ms) = cmds_of [m] @ cmds_of ms"
  by (simp add: cmds_of_def)

lemma buffered_new [simp]: "buffered NewInputBuf = {#}"
  by (simp add: buffered_def NewInputBuf_def)

lemma buffered_delete: "distinct (map fst ib) \<Longrightarrow> buffered ib = mset (bucket ib t) + buffered (AList.delete t ib)"
  by (induction ib) (force simp: buffered_def bucket_def delete_filter split: option.split dest: map_of_SomeD)+

lemma buffered_Seal: "ib_ok ib \<Longrightarrow> buffered ib = mset (bucket ib t) + buffered (snd (ibSeal t ib))"
  by (simp add: ibSeal_def buffered_delete ib_ok_def)

lemma buffered_Add:
  assumes "ib_ok ib"
  shows "buffered (ibAdd c ib) = add_mset c (buffered ib)"
proof -
  have d: "distinct (map fst ib)" "distinct (map fst (ibAdd c ib))" using assms ib_ok_Add [OF assms] by (simp_all add: ib_ok_def)
  have "AList.delete (cmTick c) (ibAdd c ib) = AList.delete (cmTick c) ib"
    by (simp add: ibAdd_def AList.delete_update_same)
  moreover have "bucket (ibAdd c ib) (cmTick c) = bucket ib (cmTick c) @ [c]" by (simp add: bucket_Add)
  ultimately show ?thesis using buffered_delete [OF d(1), of "cmTick c"] buffered_delete [OF d(2), of "cmTick c"] by simp
qed

lemma handleMsg_cmds:
  assumes "handleMsg m r = (Inr r' :: unit fault + _)" and "msg_ok m" and "ib_ok (rmInputBuf r)"
  shows "buffered (rmInputBuf r') = mset (cmds_of [m]) + buffered (rmInputBuf r) \<and> ib_ok (rmInputBuf r') \<and> rmInbox r' = rmInbox r"
  using assms
  by (cases "rgData m") (auto simp: handleMsg_def msg_ok_def msg_type_defs cmds_of_def buffered_Add ib_ok_Add Let_def)

lemma handle_all_cmds:
  "handle_all ms r = (Inr r' :: unit fault + _) \<Longrightarrow> list_all msg_ok ms \<Longrightarrow> ib_ok (rmInputBuf r) \<Longrightarrow>
    buffered (rmInputBuf r') = mset (cmds_of ms) + buffered (rmInputBuf r) \<and> rmInbox r' = rmInbox r"
proof (induction ms arbitrary: r)
  case (Cons m ms)
  from Cons.prems(1) obtain r1 where r1: "handleMsg m r = (Inr r1 :: unit fault + _)" "handle_all ms r1 = (Inr r' :: unit fault + _)"
    by (auto simp: and_then_eq_Inr)
  from handleMsg_cmds [OF r1(1)] Cons.prems(2,3) Cons.IH [OF r1(2)] show ?case
    by (simp only: cmds_of_Cons [of m ms]) simp
qed simp

definition waiting :: "Room \<Rightarrow> Cmd multiset" where
  "waiting r = buffered (rmInputBuf r) + mset (cmds_of (rmInbox r))"

lemma drainInbox_cmds:
  assumes "drainInbox r = (Inr r' :: unit fault + _)" and "room_live r"
  shows "waiting r' = waiting r \<and> rmInbox r' = []"
  using handle_all_cmds [of "rmInbox r" "r\<lparr>rmInbox := []\<rparr>" r'] assms
  by (simp add: drainInbox_def waiting_def room_live_def room_ok_def add.commute)

lemma sealTick_inbox:
  assumes "sealTick now ok r = Inr (out, r')"
  shows "rmInbox r' = rmInbox r \<and>
    rmHashAgg r' = snd (CheckTimeouts (rmTick r + 1) 60 (CreateSlot (rmTick r + 1) (rmHashAgg r)))"
  using assms
  by (auto simp: sealTick_def seal_frame_eq seal_periodic_def CleanupLimbo_def Let_def and_then_eq_Inr split: if_splits)

lemma sealTick_cmds:
  assumes "sealTick now True r = (Inr (out, r') :: unit fault + _)" and "room_ok r"
  shows "waiting r = mset (fbCmds (next_frame r)) + waiting r' \<and> (\<forall>c \<in> set (fbCmds (next_frame r)). cmTick c = fbTick (next_frame r))"
proof -
  have i: "ib_ok (rmInputBuf r)" using assms(2) by (simp add: room_ok_def)
  have "rmInputBuf r' = snd (ibSeal (rmTick r + 1) (rmInputBuf r))"
    using sealTick_ok [OF assms(2), of now True, where 'e = unit] assms(1) by auto
  with buffered_Seal [OF i, of "rmTick r + 1"] bucket_ticks [OF i] sealTick_inbox [OF assms(1)] show ?thesis
    by (auto simp: waiting_def next_frame_def)
qed

lemma room_act_live: "room_act r ms fs r' \<Longrightarrow> room_live r \<Longrightarrow> room_live r'"
proof (induction rule: room_act.induct)
  case (forward m r)
  then show ?case by (simp add: room_live_def room_ok_def)
next
  case (join r c)
  then show ?case using room_step_sealed [OF room_step.join] by blast
next
  case (wake r m ms r1 r2)
  from room_step_sealed [OF room_step.wake [OF wake(1-3)] wake(4)] show ?case by blast
next
  case (tick r r1 now out r2)
  from room_step_sealed [OF room_step.tick [OF tick(1,2)] tick(3)] show ?case by blast
qed

lemma room_act_cmds:
  assumes "room_act r ms fs r'" and "room_live r"
  shows "mset (cmds_of ms) + waiting r = mset (concat (map fbCmds fs)) + waiting r' \<and>
    (\<forall>fb \<in> set fs. \<forall>c \<in> set (fbCmds fb). cmTick c = fbTick fb)"
  using assms
proof (induction rule: room_act.induct)
  case (forward m r)
  then show ?case by (simp add: waiting_def add.commute)
next
  case (join r c)
  then show ?case by (simp add: waiting_def roster_frame AddPlayer_def split: option.split)
next
  case (wake r m ms r1 r2)
  from wake(1,4) have l: "msg_ok m" "list_all msg_ok ms" "room_ok (r\<lparr>rmInbox := ms\<rparr>)" by (simp_all add: room_live_def room_ok_def)
  from handleMsg_ok [OF l(3,1), where 'e = unit] wake(2) l(2) have "room_live r1" by (auto simp: room_live_def)
  from drainInbox_cmds [OF wake(3) this] handleMsg_cmds [OF wake(2) l(1)] l(3) wake(1) show ?case
    by (auto simp: waiting_def room_ok_def cmds_of_Cons [of m ms] ac_simps)
next
  case (tick r r1 now out r2)
  from drainInbox_ok [OF tick(3), where 'e = unit] tick(1) have "room_ok r1" by (auto simp: room_live_def)
  from sealTick_cmds [OF tick(2) this] drainInbox_cmds [OF tick(1,3)] show ?case by simp
qed simp

lemma room_life_cmds:
  "room_life r0 ms fs r \<Longrightarrow> room_live r0 \<Longrightarrow> room_live r \<and>
    mset (cmds_of ms) + waiting r0 = mset (concat (map fbCmds fs)) + waiting r \<and>
    (\<forall>fb \<in> set fs. \<forall>c \<in> set (fbCmds fb). cmTick c = fbTick fb)"
proof (induction rule: room_life.induct)
  case (act ms fs r ms' fs' r')
  then have ih: "room_live r" "mset (cmds_of ms) + waiting r0 = mset (concat (map fbCmds fs)) + waiting r"
    "\<forall>fb \<in> set fs. \<forall>c \<in> set (fbCmds fb). cmTick c = fbTick fb" by blast+
  from room_act_cmds [OF act(2) ih(1)] room_act_live [OF act(2) ih(1)] ih(2,3) show ?case
    by (auto simp: ac_simps) (metis add.assoc add.commute)
qed simp

section \<open>Hash reports\<close>

text \<open>Every hash that the aggregator holds was reported, and a desync has two that differ.\<close>

definition reported :: "RoomMsg list \<Rightarrow> u32 \<Rightarrow> u8 \<times> u64 \<Rightarrow> bool" where
  "reported ms t pv \<longleftrightarrow> (\<exists>m \<in> set ms. rgPlayerID m = fst pv \<and> rgData m = MHashAck \<lparr>hkTick = t, hkHash = snd pv\<rparr>)"

definition entry_from :: "RoomMsg list \<Rightarrow> u32 \<times> tickHash \<Rightarrow> bool" where
  "entry_from ms x \<longleftrightarrow> (\<forall>pv \<in> set (thHashes (snd x)). reported ms (fst x) pv) \<and>
     (thState (snd x) = HashDesync \<longrightarrow>
       (\<exists>p \<in> set (thHashes (snd x)). \<exists>q \<in> set (thHashes (snd x)). snd p \<noteq> snd q))"

definition agg_from :: "RoomMsg list \<Rightarrow> HashAgg \<Rightarrow> bool" where
  "agg_from ms h \<longleftrightarrow> (\<forall>x \<in> set (hgWindow h). entry_from ms x)"

lemma reported_more: "reported ms t pv \<Longrightarrow> set ms \<subseteq> set ms' \<Longrightarrow> reported ms' t pv"
  by (auto simp: reported_def)

lemma agg_from_more: "agg_from ms h \<Longrightarrow> set ms \<subseteq> set ms' \<Longrightarrow> agg_from ms' h"
  by (auto simp: agg_from_def entry_from_def intro: reported_more)

lemma agg_from_update:
  assumes "agg_from ms h" and "entry_from ms (t, th)"
  shows "agg_from ms (h\<lparr>hgWindow := AList.update t th (hgWindow h)\<rparr>)"
  using assms set_update [of t th "hgWindow h"] unfolding agg_from_def by simp blast

lemma agg_from_filter: "agg_from ms h \<Longrightarrow> agg_from ms (h\<lparr>hgWindow := filter P (hgWindow h)\<rparr>)"
  by (simp add: agg_from_def)

lemma entry_fromI:
  assumes "\<forall>pv \<in> set hs. reported ms t pv" and "st = HashDesync \<Longrightarrow> \<exists>p \<in> set hs. \<exists>q \<in> set hs. snd p \<noteq> snd q"
  shows "entry_from ms (t, th\<lparr>thHashes := hs, thState := st\<rparr>)"
  using assms by (simp add: entry_from_def)

lemma scan_desync: "scan_hashes vs None = HashDesync \<Longrightarrow> \<exists>x \<in> set vs. \<exists>y \<in> set vs. x \<noteq> y"
  by (simp add: scan_hashes_None split: if_splits)

lemma agg_from_Report:
  assumes "agg_from ms h" and "reported ms t (p, v)"
  shows "agg_from ms (snd (Report t p v h))"
proof (cases "map_of (hgWindow h) t")
  case (Some th)
  let ?hs = "AList.update p v (thHashes th)"
  let ?st = "if int (length ?hs) < thExpected th then HashPartial else scan_hashes (map snd ?hs) None"
  from Some have "entry_from ms (t, th)" using assms(1) by (auto simp: agg_from_def dest: map_of_SomeD)
  then have "\<forall>pv \<in> set ?hs. reported ms t pv"
    using set_update [of p v "thHashes th"] assms(2) unfolding entry_from_def fst_conv snd_conv by blast
  moreover have "\<exists>x \<in> set ?hs. \<exists>y \<in> set ?hs. snd x \<noteq> snd y" if "?st = HashDesync"
  proof -
    have "scan_hashes (map snd ?hs) None = HashDesync" using that by (simp split: if_splits)
    from scan_desync [OF this] show ?thesis by (simp only: set_map) blast
  qed
  ultimately have "entry_from ms (t, th\<lparr>thHashes := ?hs, thState := ?st\<rparr>)"
    by (rule entry_fromI)
  from agg_from_update [OF assms(1) this] Some show ?thesis by (simp only: Report_def Let_def option.case snd_conv)
qed (simp add: Report_def assms(1))

lemma agg_from_slot:
  assumes "agg_from ms h"
  shows "agg_from ms (snd (CheckTimeouts t n (CreateSlot t h)))"
proof -
  let ?new = "\<lparr>thTick = t, thHashes = [], thExpected = hgPlayerCount h, thState = HashPending\<rparr>"
  have "entry_from ms (t, ?new)" by (simp add: entry_from_def)
  from agg_from_update [OF assms this] agg_from_filter [OF agg_from_update [OF assms this]] have "agg_from ms (CreateSlot t h)"
    by (simp add: CreateSlot_def Let_def)
  then show ?thesis by (auto simp: agg_from_def CheckTimeouts_def entry_from_def)
qed

lemma agg_from_handleMsg:
  assumes "handleMsg m r = (Inr r' :: unit fault + _)" and "agg_from ms (rmHashAgg r)" and "m \<in> set ms"
  shows "agg_from ms (rmHashAgg r')"
proof (cases "rgData m")
  case (MHashAck ha)
  have "reported ms (hkTick ha) (rgPlayerID m, hkHash ha)" using assms(3) MHashAck by (auto simp: reported_def)
  from agg_from_Report [OF assms(2) this] assms(1,2) MHashAck show ?thesis
    by (auto simp: handleMsg_def msg_type_defs split: if_splits)
qed (use assms in \<open>auto simp: handleMsg_def Let_def split: if_splits\<close>)

lemma agg_from_handle_all:
  "handle_all ns r = (Inr r' :: unit fault + _) \<Longrightarrow> agg_from ms (rmHashAgg r) \<Longrightarrow> set ns \<subseteq> set ms \<Longrightarrow>
    agg_from ms (rmHashAgg r')"
proof (induction ns arbitrary: r)
  case (Cons n ns)
  then show ?case using agg_from_handleMsg by (fastforce simp: and_then_eq_Inr)
qed simp

lemma agg_from_drain:
  "drainInbox r = (Inr r' :: unit fault + _) \<Longrightarrow> agg_from ms (rmHashAgg r) \<Longrightarrow> set (rmInbox r) \<subseteq> set ms \<Longrightarrow> agg_from ms (rmHashAgg r')"
  using agg_from_handle_all by (fastforce simp: drainInbox_def)

lemma room_act_hashes:
  assumes "room_act r ms' fs r'" and "room_live r" and "agg_from ms (rmHashAgg r)" and "set (rmInbox r) \<subseteq> set ms"
  shows "agg_from (ms @ ms') (rmHashAgg r') \<and> set (rmInbox r') \<subseteq> set (ms @ ms')"
  using assms
proof (induction rule: room_act.induct)
  case (forward m r)
  then show ?case using agg_from_more [of ms "rmHashAgg r" "ms @ [m]"] by auto
next
  case (join r c)
  then show ?case by (simp add: AddPlayer_def split: option.split)
next
  case (wake r m ns r1 r2)
  from wake(1,4) have l: "msg_ok m" "list_all msg_ok ns" "room_ok (r\<lparr>rmInbox := ns\<rparr>)" by (simp_all add: room_live_def room_ok_def)
  from handleMsg_ok [OF l(3,1), where 'e = unit] wake(2) l(2) have r1: "room_live r1" "rmInbox r1 = ns" by (auto simp: room_live_def)
  have "agg_from ms (rmHashAgg r1)" using agg_from_handleMsg [OF wake(2)] wake(1,5,6) by simp
  from agg_from_drain [OF wake(3) this] drainInbox_cmds [OF wake(3) r1(1)] wake(1,6) r1(2) show ?case by simp
next
  case (tick r r1 now out r2)
  from agg_from_drain [OF tick(1,4,5)] have "agg_from ms (rmHashAgg r1)" .
  from agg_from_slot [OF this] sealTick_inbox [OF tick(2)] drainInbox_cmds [OF tick(1,3)] show ?case by simp
qed simp

lemma room_life_hashes:
  assumes "room_life r0 ms fs r" and "room_live r0" and "rmInbox r0 = []" and "hgWindow (rmHashAgg r0) = []"
  shows "agg_from ms (rmHashAgg r) \<and> set (rmInbox r) \<subseteq> set ms"
  using assms
proof (induction rule: room_life.induct)
  case born
  then show ?case by (simp add: agg_from_def)
next
  case (act ms fs r ms' fs' r')
  then have "agg_from ms (rmHashAgg r)" "set (rmInbox r) \<subseteq> set ms" "room_live r" using room_life_cmds by blast+
  from room_act_hashes [OF act(2) this(3,1,2)] show ?case .
qed

section \<open>A game with a command, and a room with two reports\<close>

definition a_halt :: Cmd where
  "a_halt = \<lparr>cmTick = 1, cmPlayer = 0, cmOp = CmdStop, cmUnitID = 1, cmTargetX = 0, cmTargetY = 0, cmTargetID = 0\<rparr>"

definition one_player :: RoomConfig where
  "one_player = two_players\<lparr>rcPlayerCount := 1\<rparr>"

lemma one_player_ok: "cfg_ok one_player" "rcPlayerCount one_player \<le> 65536"
  using two_players_ok by (auto simp: cfg_ok_def one_player_def two_players_def)

definition commanding :: "event list" where
  "commanding = joining @ [Receive 0 (encodePacket (data_at 3 (encode_or_nil (MCmd a_halt)))) ''a'', Perform 0 no_loss, Take 0 [],
     Perform 0 no_loss, TickRoom 0 0 no_loss]"

lemma commanding_run:
  "case sys_run one_player commanding (start one_player) of Inl e \<Rightarrow> False
    | Inr s \<Rightarrow> length (rrHeap (syRegistry s)) = 1 \<and> map fbCmds (frames_at 0 s) = [[a_halt]] \<and>
        rmInputBuf (room_at s 0) = [] \<and> rmInbox (room_at s 0) = []"
  by code_simp

definition hash_report :: "u8 \<Rightarrow> u64 \<Rightarrow> RoomMsg" where
  "hash_report p h = \<lparr>rgPlayerID = p, rgType = MsgHashAck, rgData = MHashAck \<lparr>hkTick = 1, hkHash = h\<rparr>\<rparr>"

text \<open>A room is woken by one message.\<close>

definition hear :: "RoomMsg \<Rightarrow> Room \<Rightarrow> unit fault + Room" where
  "hear m r = and_then (handleMsg m (r\<lparr>rmInbox := []\<rparr>)) drainInbox"

lemma room_life_hear:
  assumes "room_life r0 ms fs r" and "msg_ok m" and "rmInbox r = []" and "hear m r = Inr r'"
  shows "room_life r0 (ms @ [m]) fs r'"
proof -
  from room_life_rest [OF assms(1) room_act.forward [OF assms(2)]] have
    f: "room_life r0 (ms @ [m]) fs (r\<lparr>rmInbox := [m]\<rparr>)" using assms(3) by simp
  from assms(4) obtain r1 where "(handleMsg m (r\<lparr>rmInbox := []\<rparr>) :: unit fault + _) = Inr r1" "(drainInbox r1 :: unit fault + _) = Inr r'"
    by (auto simp: hear_def and_then_eq_Inr)
  then have "room_act (r\<lparr>rmInbox := [m]\<rparr>) [] [] r'" using room_act.wake [of "r\<lparr>rmInbox := [m]\<rparr>" m "[]" r1 r'] by simp
  from room_life_rest [OF f this] show ?thesis by simp
qed

lemma disagreeing_run:
  "rmInbox arena = [] \<and> (case (sealTick 0 True arena :: unit fault + _) of Inl e \<Rightarrow> False
    | Inr (out, r) \<Rightarrow> rmInbox r = [] \<and> (case hear (hash_report 0 7) r of Inl e \<Rightarrow> False
        | Inr r \<Rightarrow> rmInbox r = [] \<and> (case hear (hash_report 1 8) r of Inl e \<Rightarrow> False
            | Inr r \<Rightarrow> fst (GetState 1 (rmHashAgg r)) = HashDesync)))"
  by code_simp

lemma startedI: "(NewRoom D :: unit fault + Room) = Inr r \<Longrightarrow> started D (SpawnInitialUnits 5 r)"
  unfolding started_def
  by (rule exI [of _ "rcRoomID D"], rule exI [of _ r]) (auto simp: NewRoom_def go_div_def and_then_eq_Inr split: if_splits)

section \<open>Properties\<close>

text \<open>C8: commands are conserved. The commands that the sessions have forwarded to a room are those of the
  frames it has sealed, those in its buffer and those in its channel, each as often as it was forwarded;
  and a frame has only commands that name its tick. So a command is executed at most once, by
  everyone, at the tick it names, and none is made up.\<close>

theorem commands_executed_once:
  assumes "cfg_ok D" and "rcPlayerCount D \<le> 65536" and "sys_run D evs (start D) = Inr s"
    and "k < length (rrHeap (syRegistry s))"
  shows "mset (cmds_of (to_room k (run_forwards D evs (start D)))) =
      mset (concat (map fbCmds (frames_at k s))) + buffered (rmInputBuf (room_at s k)) + mset (cmds_of (rmInbox (room_at s k))) \<and>
    (\<forall>fb \<in> set (frames_at k s). \<forall>c \<in> set (fbCmds fb). cmTick c = fbTick fb)"
proof -
  from server_room_life [OF assms] obtain r0 where
    r: "started D r0" "room_life r0 (to_room k (run_forwards D evs (start D))) (frames_at k s) (room_at s k)" by blast
  note fresh = started_fresh [OF r(1) assms(1,2)]
  from room_life_cmds [OF r(2) fresh(1)] fresh(2,3) show ?thesis by (simp add: waiting_def add.assoc)
qed

lemma commands_executed_once_witness:
  "\<exists>s. sys_run one_player commanding (start one_player) = Inr s \<and>
    concat (map fbCmds (frames_at 0 s)) = [a_halt] \<and>
    mset (cmds_of (to_room 0 (run_forwards one_player commanding (start one_player)))) = {#a_halt#}"
proof -
  from commanding_run obtain s where s: "sys_run one_player commanding (start one_player) = Inr s"
    "length (rrHeap (syRegistry s)) = 1" "map fbCmds (frames_at 0 s) = [[a_halt]]" "rmInputBuf (room_at s 0) = []"
    "rmInbox (room_at s 0) = []" by (auto split: sum.splits)
  then have "0 < length (rrHeap (syRegistry s))" by simp
  from commands_executed_once [OF one_player_ok s(1) this] s show ?thesis by (simp add: buffered_def)
qed

text \<open>C9: a desync is real. When the aggregator of a room, in any life it can have on the server
  (lemma server_room_life), says of a tick that the worlds differ, two players have reported different
  hashes for that tick.\<close>

theorem desync_is_real:
  assumes "cfg_ok D" and "rcPlayerCount D \<le> 65536" and "started D r0" and "room_life r0 ms fs r"
    and "fst (GetState t (rmHashAgg r)) = HashDesync"
  shows "\<exists>p q g h. p \<noteq> q \<and> g \<noteq> h \<and> reported ms t (p, g) \<and> reported ms t (q, h)"
proof -
  note fresh = started_fresh [OF assms(3,1,2)]
  have agg: "agg_from ms (rmHashAgg r)"
    using room_life_hashes [OF assms(4) fresh(1,3,4)] by blast
  from assms(5) obtain th where th: "map_of (hgWindow (rmHashAgg r)) t = Some th" "thState th = HashDesync"
    by (auto simp: GetState_def split: option.splits)
  then have "(t, th) \<in> set (hgWindow (rmHashAgg r))" by (auto dest: map_of_SomeD)
  with agg th(2) obtain x y where xy: "x \<in> set (thHashes th)" "y \<in> set (thHashes th)" "snd x \<noteq> snd y"
      "reported ms t x" "reported ms t y"
    by (fastforce simp: agg_from_def entry_from_def)
  have "room_live r" using room_life_cmds [OF assms(4) fresh(1)] by blast
  then have "distinct (map fst (thHashes th))" using th_ok_lookup th(1) by (auto simp: room_live_def room_ok_def)
  with xy(1-3) have "fst x \<noteq> fst y" by (metis eq_key_imp_eq_value prod.collapse)
  with xy show ?thesis by (metis prod.collapse)
qed

lemma desync_is_real_witness:
  "\<exists>fs r p q g h. room_life arena [hash_report 0 7, hash_report 1 8] fs r \<and> p \<noteq> q \<and> g \<noteq> h \<and>
    reported [hash_report 0 7, hash_report 1 8] 1 (p, g) \<and> reported [hash_report 0 7, hash_report 1 8] 1 (q, h)"
proof -
  let ?m = "hash_report 0 7" and ?n = "hash_report 1 8"
  obtain r0 where "(NewRoom two_players :: unit fault + Room) = Inr r0" "arena = SpawnInitialUnits 5 r0" using arena_eq by blast
  then have a: "started two_players arena" by (metis startedI)
  note run = disagreeing_run
  then obtain out r1 where r: "rmInbox arena = []" "(sealTick 0 True arena :: unit fault + _) = Inr (out, r1)" "rmInbox r1 = []"
    by (cases "sealTick 0 True arena :: unit fault + _") auto
  with run obtain r2 where r2: "hear ?m r1 = Inr r2" "rmInbox r2 = []" by (cases "hear ?m r1") auto
  with run r obtain r3 where r3: "hear ?n r2 = Inr r3" "fst (GetState 1 (rmHashAgg r3)) = HashDesync" by (cases "hear ?n r2") auto
  have "(drainInbox arena :: unit fault + _) = Inr arena" using r(1) by (simp add: drainInbox_def)
  from room_life_rest [OF room_life.born room_act.tick [OF this r(2)]] have "room_life arena [] [next_frame arena] r1" by simp
  from room_life_hear [OF room_life_hear [OF this _ r(3) r2(1)] _ r2(2) r3(1)] have
    "room_life arena [?m, ?n] [next_frame arena] r3" by (simp add: hash_report_def msg_ok_def)
  from this desync_is_real [OF two_players_ok a this r3(2)] show ?thesis by blast
qed

end
