(* ===== verification/Network.thy ===== *)
theory Network
  imports Conn
begin

text \<open>
  Two connections of \<^verbatim>\<open>internal/transport\<close> and a network between them. The network
  may lose, duplicate, delay and reorder datagrams, the receiving side may acknowledge anything or
  nothing, writes may fail, and the clocks are arbitrary: a step of the relation is one call of a
  connection's method or one arrival. What the application reads is a subsequence of what was
  sent, whatever happens; and a retransmission that gets through makes progress.
\<close>

record link =
  lkA :: Conn
  lkB :: Conn
  lkSent :: "byte list list"
  lkWire :: "byte list list"
  lkGot :: "byte list list"

definition new_link :: "Conn \<Rightarrow> Conn \<Rightarrow> link" where
  "new_link a b = \<lparr>lkA = a, lkB = b, lkSent = [], lkWire = [], lkGot = []\<rparr>"

text \<open>
  The reliable payloads of one direction, from \<open>lkA\<close> to \<open>lkB\<close> (an unreliable send on the same connection is the subject of
  theory Stalled); the other direction is
  any packet that reaches \<open>lkA\<close>. The last two kinds of call are those that touch neither the
  sending side of \<open>lkA\<close> (reading its inbox, a new address or state) nor the receiving side of
  \<open>lkB\<close> (its handshake, packets without a payload).
\<close>

inductive link_step :: "link \<Rightarrow> link \<Rightarrow> bool" where
  send: "payload \<noteq> [] \<Longrightarrow> length payload < 65536 \<Longrightarrow> length (lkSent st) < 2 ^ 32 - 2 \<Longrightarrow>
    Send env payload (lkA st) = (ok, ds, a) \<Longrightarrow>
    link_step st (st\<lparr>lkA := a, lkSent := lkSent st @ [payload], lkWire := lkWire st @ map fst ds\<rparr>)"
| tick: "conn_Tick now (lkA st) = (r, ds, a) \<Longrightarrow>
    link_step st (st\<lparr>lkA := a, lkWire := lkWire st @ map fst ds\<rparr>)"
| arrive: "d \<in> set (lkWire st) \<Longrightarrow> DecodePacket (take readBufferSize d) = Inr pkt \<Longrightarrow>
    link_step st (st\<lparr>lkB := HandleReceive now pkt (lkB st)\<rparr>)"
| lose: "link_step st (st\<lparr>lkWire := removeAll d (lkWire st)\<rparr>)"
| acks: "link_step st (st\<lparr>lkA := HandleReceive now pkt (lkA st)\<rparr>)"
| reply: "Send env payload (lkB st) = (ok, ds, b) \<Longrightarrow> link_step st (st\<lparr>lkB := b\<rparr>)"
| reply_tick: "conn_Tick now (lkB st) = (r, ds, b) \<Longrightarrow> link_step st (st\<lparr>lkB := b\<rparr>)"
| own: "cnSendSeq a = cnSendSeq (lkA st) \<Longrightarrow> cnRetx a = cnRetx (lkA st) \<Longrightarrow> conn_ok a \<Longrightarrow>
    link_step st (st\<lparr>lkA := a\<rparr>)"
| own_peer: "cnReorder b = cnReorder (lkB st) \<Longrightarrow> cnInbox b = cnInbox (lkB st) \<Longrightarrow>
    cnInboxSize b = cnInboxSize (lkB st) \<Longrightarrow> conn_ok b \<Longrightarrow> link_step st (st\<lparr>lkB := b\<rparr>)"
| read: "take_inbox (lkB st) = (Some p, b) \<Longrightarrow>
    link_step st (st\<lparr>lkB := b, lkGot := lkGot st @ [p]\<rparr>)"

inductive link_reachable :: "link \<Rightarrow> link \<Rightarrow> bool" for st where
  start: "link_reachable st st"
| more: "link_reachable st st' \<Longrightarrow> link_step st' st'' \<Longrightarrow> link_reachable st st''"

section \<open>The stream and its packets\<close>

definition stream :: "byte list list \<Rightarrow> u32 \<Rightarrow> byte list" where
  "stream sent s = sent ! (unat s - 1)"

definition numbered :: "byte list list \<Rightarrow> u32 \<Rightarrow> bool" where
  "numbered sent s \<longleftrightarrow> 1 \<le> unat s \<and> unat s \<le> length sent"

definition data_packet :: "byte list list \<Rightarrow> Packet \<Rightarrow> bool" where
  "data_packet sent pkt \<longleftrightarrow> pkFlags pkt = FlagReliable OR FlagACK \<and>
     numbered sent (pkSeq pkt) \<and> pkPayload pkt = stream sent (pkSeq pkt) \<and>
     0 < length (pkPayload pkt) \<and> length (pkPayload pkt) < 65536"

lemma numbered_append: "numbered sent s \<Longrightarrow> numbered (sent @ xs) s"
  by (simp add: numbered_def)

lemma stream_append: "numbered sent s \<Longrightarrow> stream (sent @ xs) s = stream sent s"
  by (auto simp: numbered_def stream_def nth_append)

lemma data_packet_append: "data_packet sent pkt \<Longrightarrow> data_packet (sent @ xs) pkt"
  by (auto simp: data_packet_def numbered_append stream_append)

lemma data_packet_refresh: "data_packet sent pkt \<Longrightarrow> data_packet sent (refresh_ack c pkt)"
  by (auto simp: data_packet_def refresh_ack_def)

lemma data_packet_decode: "data_packet sent pkt \<Longrightarrow> DecodePacket (encodePacket pkt) = Inr pkt"
proof -
  assume "data_packet sent pkt"
  then have "take (length (pkPayload pkt) mod 65536) (pkPayload pkt) = pkPayload pkt"
    unfolding data_packet_def by (metis mod_less order_refl take_all)
  then show ?thesis using DecodePacket_encode_rest [of pkt "[]"] by simp
qed

lemma DecodePacket_read_any:
  assumes "length (pkPayload pkt) < 65536" and "DecodePacket (take readBufferSize (encodePacket pkt)) = Inr q"
  shows "q = pkt"
proof (cases "length (encodePacket pkt) \<le> readBufferSize")
  case True
  with assms DecodePacket_encode_rest [of pkt "[]"] show ?thesis by simp
next
  case False
  then have "2029 < length (pkPayload pkt)" by (simp add: readBufferSize_def length_encodePacket HeaderSize_def)
  from DecodePacket_oversize [OF this assms(1)] assms(2) show ?thesis by simp
qed

lemma DecodePacket_read:
  "data_packet sent pkt \<Longrightarrow> DecodePacket (take readBufferSize (encodePacket pkt)) = Inr q \<Longrightarrow> q = pkt"
  using DecodePacket_read_any unfolding data_packet_def by blast

lemma data_packet_fits:
  "data_packet sent pkt \<Longrightarrow> length (pkPayload pkt) \<le> readBufferSize - HeaderSize \<Longrightarrow>
    DecodePacket (take readBufferSize (encodePacket pkt)) = Inr pkt"
  using data_packet_decode by (simp add: length_encodePacket readBufferSize_def HeaderSize_def)

lemma data_packet_flags:
  "data_packet sent pkt \<Longrightarrow> IsReliable pkt \<and> IsACK pkt \<and> \<not> IsSYN pkt"
  by (simp add: data_packet_def flag_tests flag_defs)

definition send_side :: "byte list list \<Rightarrow> byte list list \<Rightarrow> Conn \<Rightarrow> bool" where
  "send_side sent wire a \<longleftrightarrow>
     length sent < 2 ^ 32 - 1 \<and> cnSendSeq a = of_nat (length sent) \<and>
     (\<forall>sp \<in> set (cnRetx a). data_packet sent (ppPkt (snd sp))) \<and>
     (\<forall>d \<in> set wire. \<exists>pkt. d = encodePacket pkt \<and> data_packet sent pkt)"

definition recv_side :: "byte list list \<Rightarrow> byte list list \<Rightarrow> Conn \<Rightarrow> bool" where
  "recv_side sent got b \<longleftrightarrow>
     rb_inv (stream sent) (cnReorder b) \<and>
     (\<forall>s \<in> fst ` set (rbBuffer (cnReorder b)). numbered sent s) \<and>
     (\<exists>n \<le> length sent. rbNextExpected (cnReorder b) = 1 + of_nat n \<and>
        subseq (got @ cnInbox b) (take n sent) \<and>
        (length sent \<le> cnInboxSize b \<longrightarrow> got @ cnInbox b = take n sent))"

definition link_inv :: "link \<Rightarrow> bool" where
  "link_inv st \<longleftrightarrow> send_side (lkSent st) (lkWire st) (lkA st) \<and>
     recv_side (lkSent st) (lkGot st) (lkB st)"

section \<open>The sending side\<close>

lemma set_retxAdd:
  "sp \<in> set (retxAdd pkt now rto q) \<Longrightarrow> sp \<in> set q \<or> ppPkt (snd sp) = pkt"
  using set_update by (fastforce simp: retxAdd_def Let_def)

lemma send_side_Send:
  assumes "send_side sent wire a" and "payload \<noteq> []" and "length payload < 65536"
    and "length sent < 2 ^ 32 - 2" and "Send env payload a = (ok, ds, a')"
  shows "send_side (sent @ [payload]) (wire @ map fst ds) a'"
proof -
  define pkt where "pkt = \<lparr>pkFlags = FlagReliable OR FlagACK, pkConnID = cnConnID a,
    pkSeq = cnSendSeq a + 1, pkAck = cnRecvAck a, pkAckBitmask = cnRecvBitmask a, pkPayload = payload\<rparr>"
  have seq: "pkSeq pkt = of_nat (length (sent @ [payload]))"
    using assms(1) by (simp add: pkt_def send_side_def add.commute)
  have "unat (of_nat (length (sent @ [payload])) :: u32) = length (sent @ [payload])"
    using assms(4) by (intro unat_of_nat_small) simp
  then have p: "data_packet (sent @ [payload]) pkt"
    using assms(2,3) unfolding data_packet_def numbered_def stream_def seq by (simp add: pkt_def)
  have old: "data_packet (sent @ [payload]) (ppPkt (snd sp))" if "sp \<in> set (cnRetx a)" for sp
    using that assms(1) by (simp add: send_side_def data_packet_append)
  have "\<exists>q. cnRetx a' \<in> {cnRetx a, retxAdd pkt (seNow env) (conn_rto q) (cnRetx a)}"
    and "cnSendSeq a' = pkSeq pkt" and "set ds \<subseteq> {(encodePacket pkt, cnRemoteAddr a)}"
    using assms(5) by (auto simp: Send_def Let_def pkt_def split: if_splits)
  with old p set_retxAdd show ?thesis
    using assms(1,4) unfolding send_side_def seq
    by (fastforce simp: data_packet_append)
qed

lemma collect_packets:
  "set (fst (CollectRetransmissions now q)) \<subseteq> (\<lambda>sp. ppPkt (snd sp)) ` set q"
  by (auto simp: CollectRetransmissions_def Let_def intro: rev_image_eqI)

lemma collect_pending:
  "sp \<in> set (snd (snd (CollectRetransmissions now q))) \<Longrightarrow>
    \<exists>pp. (fst sp, pp) \<in> set q \<and> ppPkt (snd sp) = ppPkt pp"
  by (fastforce simp: CollectRetransmissions_def Let_def foldl_delete retx_age_def split: if_splits)

lemma send_side_Tick:
  assumes "send_side sent wire a" and "conn_Tick now a = (r, ds, a')"
  shows "send_side sent (wire @ map fst ds) a'"
proof -
  obtain pkts ex q where c: "CollectRetransmissions now (cnRetx a) = (pkts, ex, q)" by (metis prod.exhaust)
  have ds: "ds = map (\<lambda>p. (encodePacket (refresh_ack a p), cnRemoteAddr a)) pkts"
    and a': "a' = a\<lparr>cnRetx := map (refresh_pending a (map pkSeq pkts)) q\<rparr>"
    using assms(2) c by (auto simp: conn_Tick_def)
  have d: "\<forall>sp \<in> set (cnRetx a). data_packet sent (ppPkt (snd sp))"
    using assms(1) by (simp add: send_side_def)
  have p: "data_packet sent pkt" if "pkt \<in> set pkts" for pkt
    using d that collect_packets [of now "cnRetx a"] c by auto
  have q: "data_packet sent (ppPkt (snd sp))" if "sp \<in> set q" for sp
    using collect_pending [of sp now "cnRetx a"] c that d by fastforce
  then have "data_packet sent (ppPkt (snd (refresh_pending a ks sp)))" if "sp \<in> set q" for sp ks
    using that by (simp add: refresh_pending_def data_packet_refresh)
  then show ?thesis
    using assms(1) by (auto simp: send_side_def ds a') (use p data_packet_refresh in blast)
qed

lemma set_retxAck: "set (snd (retxAck s now q)) \<subseteq> set q"
  by (auto simp: retxAck_def delete_filter split: option.split)

lemma set_retxAckBitmask: "set (retxAckBitmask a m now q) \<subseteq> set q"
proof -
  have "set (foldl (\<lambda>q i. if m AND push_bit i 1 \<noteq> 0
                  then snd (retxAck (a - 1 - of_nat i) now q) else q) q is) \<subseteq> set q" for q and "is" :: "nat list"
  proof (induction "is" arbitrary: q)
    case (Cons i "is")
    show ?case using Cons.IH set_retxAck by simp blast
  qed simp
  then show ?thesis unfolding retxAckBitmask_def using set_retxAck by (meson order_trans)
qed

lemma HandleReceive_frame:
  "cnSendSeq (HandleReceive now pkt c) = cnSendSeq c"
  "set (cnRetx (HandleReceive now pkt c)) \<subseteq> set (cnRetx c)"
proof -
  have "cnSendSeq (recv_unreliable pkt c) = cnSendSeq c" "cnSendSeq (recv_reliable pkt c) = cnSendSeq c"
    "cnRetx (recv_unreliable pkt c) = cnRetx c" "cnRetx (recv_reliable pkt c) = cnRetx c" for c
    by (simp_all add: recv_unreliable_def recv_reliable_eq)
  then show "cnSendSeq (HandleReceive now pkt c) = cnSendSeq c"
    "set (cnRetx (HandleReceive now pkt c)) \<subseteq> set (cnRetx c)"
    using set_retxAck [of "pkAck pkt" now "cnRetx c"]
      set_retxAckBitmask [of "pkAck pkt" "pkAckBitmask pkt" now "snd (retxAck (pkAck pkt) now (cnRetx c))"]
    by (auto simp: HandleReceive_def Let_def recv_acks_retx)
qed

lemma send_side_back: "send_side sent wire a \<Longrightarrow> send_side sent wire (HandleReceive now pkt a)"
  using HandleReceive_frame [of now pkt a] by (auto simp: send_side_def)

section \<open>The receiving side\<close>

lemma rb_inv_stream_append:
  assumes "rb_inv (stream sent) rb" and "\<forall>s \<in> fst ` set (rbBuffer rb). numbered sent s"
  shows "rb_inv (stream (sent @ xs)) rb"
  using assms by (fastforce simp: rb_inv_def stream_append)

lemma recv_side_extend:
  assumes "recv_side sent got b"
  shows "recv_side (sent @ xs) got b"
proof -
  from assms obtain n where "n \<le> length sent" "rbNextExpected (cnReorder b) = 1 + of_nat n"
    "subseq (got @ cnInbox b) (take n sent)"
    "length sent \<le> cnInboxSize b \<longrightarrow> got @ cnInbox b = take n sent" by (auto simp: recv_side_def)
  then have "\<exists>n \<le> length (sent @ xs). rbNextExpected (cnReorder b) = 1 + of_nat n \<and>
      subseq (got @ cnInbox b) (take n (sent @ xs)) \<and>
      (length (sent @ xs) \<le> cnInboxSize b \<longrightarrow> got @ cnInbox b = take n (sent @ xs))"
    by (intro exI [of _ n]) simp
  then show ?thesis
    using assms by (auto simp: recv_side_def rb_inv_stream_append numbered_append)
qed

lemma recv_side_cong:
  "cnReorder b' = cnReorder b \<Longrightarrow> cnInbox b' = cnInbox b \<Longrightarrow> cnInboxSize b' = cnInboxSize b \<Longrightarrow>
    recv_side sent got b' = recv_side sent got b"
  by (simp add: recv_side_def)

lemma stream_nth:
  assumes "j < length sent" and "length sent < 2 ^ 32 - 1"
  shows "stream sent (1 + of_nat j) = sent ! j"
proof -
  have "unat (of_nat (Suc j) :: u32) = Suc j" using assms by (intro unat_of_nat_small) simp
  then show ?thesis by (simp add: stream_def)
qed

lemma recv_side_delivers:
  assumes "recv_side sent got b" and "length sent < 2 ^ 32 - 1" and "numbered sent k"
    and "rbInsert k (stream sent k) (cnReorder b) = (ds, rb)"
    and "n \<le> length sent" and "rbNextExpected (cnReorder b) = 1 + of_nat n"
  shows "n + length ds \<le> length sent \<and> take n sent @ ds = take (n + length ds) sent \<and>
    rbNextExpected rb = 1 + of_nat (n + length ds)"
proof -
  from assms(1) have inv: "rb_inv (stream sent) (cnReorder b)"
    and keys: "\<And>s. s \<in> fst ` set (rbBuffer (cnReorder b)) \<Longrightarrow> numbered sent s" unfolding recv_side_def by blast+
  from rb.insert_consecutive [OF inv, of k] assms(4) obtain m where
    ds: "ds = map (\<lambda>i. stream sent (1 + of_nat n + of_nat i)) [0..<m]" and
    nx: "rbNextExpected rb = 1 + of_nat n + of_nat m" by (auto simp: assms(6))
  note del = rbInsert_delivered [OF assms(4)]
  have le: "n + m \<le> length sent"
  proof (rule ccontr)
    assume "\<not> n + m \<le> length sent"
    then have "length sent - n < length ds" using assms(5) by (simp add: ds)
    with del have "1 + of_nat n + of_nat (length sent - n) \<in> insert k (fst ` set (rbBuffer (cnReorder b)))"
      unfolding assms(6) by blast
    then have "numbered sent (1 + of_nat n + of_nat (length sent - n))" using keys assms(3) by blast
    moreover have "1 + of_nat n + of_nat (length sent - n) = (of_nat (Suc (length sent)) :: u32)"
      using assms(5) by (metis add.assoc le_add_diff_inverse of_nat_Suc of_nat_add)
    moreover have "unat (of_nat (Suc (length sent)) :: u32) = Suc (length sent)"
      using assms(2) by (intro unat_of_nat_small) simp
    ultimately show False by (simp add: numbered_def)
  qed
  have "stream sent (1 + of_nat n + of_nat i) = sent ! (n + i)" if "i < m" for i
    using stream_nth [of "n + i" sent] le that assms(2) by (simp only: of_nat_add add.assoc)
  then have "ds = map (\<lambda>i. sent ! (n + i)) [0..<m]" unfolding ds by simp
  also have "\<dots> = take m (drop n sent)" using le by (intro nth_equalityI) simp_all
  finally show ?thesis using le nx by (simp add: take_add ds add.assoc)
qed

lemma recv_side_insert:
  assumes "recv_side sent got b" and "length sent < 2 ^ 32 - 1" and "numbered sent k"
    and "rbInsert k (stream sent k) (cnReorder b) = (ds, rb)"
    and "cnReorder b' = rb" and "cnInboxSize b' = cnInboxSize b"
    and inbox: "cnInbox b' = cnInbox b @ take (cnInboxSize b - length (cnInbox b)) ds"
  shows "recv_side sent got b'"
proof -
  from assms(1) obtain n where inv: "rb_inv (stream sent) (cnReorder b)"
    and keys: "\<And>s. s \<in> fst ` set (rbBuffer (cnReorder b)) \<Longrightarrow> numbered sent s"
    and n: "n \<le> length sent" "rbNextExpected (cnReorder b) = 1 + of_nat n"
      "subseq (got @ cnInbox b) (take n sent)"
      "length sent \<le> cnInboxSize b \<longrightarrow> got @ cnInbox b = take n sent" unfolding recv_side_def by blast
  define m where "m = length ds"
  from recv_side_delivers [OF assms(1-4) n(1,2)] have le: "n + m \<le> length sent" and
    all: "take n sent @ ds = take (n + m) sent" and nx: "rbNextExpected rb = 1 + of_nat (n + m)" by (simp_all add: m_def)
  have "got @ cnInbox b' = take (n + m) sent" if "length sent \<le> cnInboxSize b'"
  proof -
    have g: "got @ cnInbox b = take n sent" using n(4) that assms(6) by simp
    then have "length (cnInbox b) \<le> n" by (metis length_append length_take le_add2 min.bounded_iff)
    then have "length (cnInbox b) + length ds \<le> cnInboxSize b" using le that assms(6) by (simp add: m_def)
    then show ?thesis using g all by (simp add: inbox flip: append_assoc)
  qed
  moreover have "subseq (got @ cnInbox b') (take n sent @ ds)"
  proof -
    have "subseq (take j xs) xs" for j and xs :: "byte list list"
      by (intro prefix_imp_subseq take_is_prefix)
    then have "subseq (got @ cnInbox b') ((got @ cnInbox b) @ ds)"
      unfolding inbox by (simp add: list_emb_append_mono)
    also have "subseq \<dots> (take n sent @ ds)" using n(3) by (intro list_emb_append_mono) simp_all
    finally show ?thesis .
  qed
  moreover have "rb_inv (stream sent) rb" using rb.insert_inv [OF inv, of k] assms(4) by simp
  moreover have "\<forall>s \<in> fst ` set (rbBuffer rb). numbered sent s" using rbInsert_delivered [OF assms(4)] keys assms(3) by blast
  ultimately show ?thesis
    unfolding recv_side_def assms(5) using le all nx by (intro conjI exI [of _ "n + m"]) simp_all
qed

lemma HandleReceive_data:
  assumes "IsReliable pkt" and "pkPayload pkt \<noteq> []"
  shows "cnReorder (HandleReceive now pkt c) = snd (rbInsert (pkSeq pkt) (pkPayload pkt) (cnReorder c))"
    and "cnInbox (HandleReceive now pkt c) = cnInbox c @
      take (cnInboxSize c - length (cnInbox c)) (fst (rbInsert (pkSeq pkt) (pkPayload pkt) (cnReorder c)))"
  using assms by (simp_all add: HandleReceive_def Let_def recv_unreliable_def recv_reliable_eq push_all_inbox)

lemma recv_side_arrive:
  assumes "recv_side sent got b" and "length sent < 2 ^ 32 - 1" and "data_packet sent pkt"
  shows "recv_side sent got (HandleReceive now pkt b)"
proof -
  have p: "IsReliable pkt" "pkPayload pkt \<noteq> []" "numbered sent (pkSeq pkt)"
    "pkPayload pkt = stream sent (pkSeq pkt)"
    using assms(3) data_packet_flags by (auto simp: data_packet_def)
  show ?thesis
  proof (rule recv_side_insert [OF assms(1,2) p(3)])
    show "rbInsert (pkSeq pkt) (stream sent (pkSeq pkt)) (cnReorder b) =
      (fst (rbInsert (pkSeq pkt) (pkPayload pkt) (cnReorder b)), cnReorder (HandleReceive now pkt b))"
      using HandleReceive_data [OF p(1,2)] p(4) by simp
  next
    show "cnInbox (HandleReceive now pkt b) = cnInbox b @
        take (cnInboxSize b - length (cnInbox b)) (fst (rbInsert (pkSeq pkt) (pkPayload pkt) (cnReorder b)))"
      by (rule HandleReceive_data(2) [OF p(1,2)])
  qed (simp_all add: HandleReceive_def Let_def recv_unreliable_def recv_reliable_eq)
qed

lemma recv_side_read:
  assumes "recv_side sent got b" and "take_inbox b = (Some p, b')"
  shows "recv_side sent (got @ [p]) b'"
  using assms by (auto simp: take_inbox_def recv_side_def split: list.splits)

text \<open>No payload has found the inbox full: as many as the reorder buffer has released are read or in the inbox.\<close>

definition undropped :: "Conn \<Rightarrow> byte list list \<Rightarrow> bool" where
  "undropped b got \<longleftrightarrow> length (got @ cnInbox b) = unat (rbNextExpected (cnReorder b) - 1)"

lemma undropped_prefix:
  assumes "recv_side sent got b" and "length sent < 2 ^ 32 - 1" and "undropped b got"
  defines "n \<equiv> length (got @ cnInbox b)"
  shows "n \<le> length sent" and "rbNextExpected (cnReorder b) = 1 + of_nat n" and "got @ cnInbox b = take n sent"
proof -
  from assms(1) obtain m where m: "m \<le> length sent" "rbNextExpected (cnReorder b) = 1 + of_nat m"
    "subseq (got @ cnInbox b) (take m sent)" by (auto simp: recv_side_def)
  have "unat (of_nat m :: u32) = m" using m(1) assms(2) by (intro unat_of_nat_small) simp
  then have "n = m" using assms(3) m(2) by (simp add: undropped_def n_def)
  with m show "n \<le> length sent" "rbNextExpected (cnReorder b) = 1 + of_nat n" by simp_all
  have "length (got @ cnInbox b) = length (take m sent)" using m(1) \<open>n = m\<close> unfolding n_def by simp
  with m(3) \<open>n = m\<close> show "got @ cnInbox b = take n sent" by (metis subseq_same_length)
qed

section \<open>Every reachable state\<close>

lemma link_inv_step:
  assumes "link_step st st'" and "link_inv st"
  shows "link_inv st'"
  using assms
proof (induction rule: link_step.induct)
  case (send payload st env ok ds a)
  then show ?case by (auto simp: link_inv_def intro: send_side_Send recv_side_extend)
next
  case (tick now st r ds a)
  then show ?case by (auto simp: link_inv_def intro: send_side_Tick)
next
  case (arrive d st pkt now)
  from arrive obtain p where "d = encodePacket p" "data_packet (lkSent st) p"
    by (auto simp: link_inv_def send_side_def)
  then have "data_packet (lkSent st) pkt" using arrive.hyps(2) DecodePacket_read by blast
  with arrive show ?case by (auto simp: link_inv_def send_side_def intro!: recv_side_arrive)
next
  case (lose st d)
  then show ?case by (auto simp: link_inv_def send_side_def)
next
  case (acks st now pkt)
  then show ?case by (auto simp: link_inv_def intro: send_side_back)
next
  case (reply env payload st ok ds b)
  then have "cnReorder b = cnReorder (lkB st)" "cnInbox b = cnInbox (lkB st)" "cnInboxSize b = cnInboxSize (lkB st)"
    by (auto simp: Send_def Let_def split: if_splits)
  with reply show ?case by (simp add: link_inv_def recv_side_def)
next
  case (reply_tick now st r ds b)
  then have "cnReorder b = cnReorder (lkB st)" "cnInbox b = cnInbox (lkB st)" "cnInboxSize b = cnInboxSize (lkB st)"
    by (auto simp: conn_Tick_def split: prod.splits)
  with reply_tick show ?case by (simp add: link_inv_def recv_side_def)
next
  case (own a st)
  then show ?case by (simp add: link_inv_def send_side_def)
next
  case (own_peer b st)
  then show ?case by (simp add: link_inv_def recv_side_def)
next
  case (read st p b)
  then show ?case by (auto simp: link_inv_def intro: recv_side_read)
qed

lemma link_inv_new: "link_inv (new_link (NewConn i a ch n t) (NewConn j b ch' m u))"
  by (simp add: link_inv_def new_link_def send_side_def recv_side_def NewConn_def newRetxQueue_def
      Let_def rb_inv_new) (simp add: newReorderBuffer_def)

lemma link_inv_reachable: "link_reachable st st' \<Longrightarrow> link_inv st \<Longrightarrow> link_inv st'"
  by (induction rule: link_reachable.induct) (auto intro: link_inv_step)

section \<open>Progress\<close>

text \<open>
  What the sender still tracks and the receiver waits for: when it is due and has retries left, the
  next tick puts a datagram on the wire whose arrival moves the receiver on.
\<close>

text \<open>The connection holds the packet, may still repeat it, and its time has come.\<close>

definition tracked :: "int \<Rightarrow> Conn \<Rightarrow> u32 \<Rightarrow> bool" where
  "tracked now cn s = (case map_of (cnRetx cn) s of None \<Rightarrow> False | Some pp \<Rightarrow> ppRetries pp < MaxRetries \<and> ppNextRetx pp \<le> now)"


lemma arrival_advances:
  assumes "data_packet sent pkt" and "pkSeq pkt = rbNextExpected (cnReorder b)"
    and "rb_inv (stream sent) (cnReorder b)"
  shows "\<exists>m ds. rbNextExpected (cnReorder (HandleReceive now pkt b)) =
      rbNextExpected (cnReorder b) + of_nat (Suc m) \<and>
    cnInbox (HandleReceive now pkt b) =
      cnInbox b @ take (cnInboxSize b - length (cnInbox b)) (pkPayload pkt # ds)"
proof -
  have p: "IsReliable pkt" "pkPayload pkt \<noteq> []" "pkPayload pkt = stream sent (pkSeq pkt)"
    using assms(1) data_packet_flags by (auto simp: data_packet_def)
  from rbInsert_expected [OF assms(3,2)] obtain m buf where
    r: "rbInsert (pkSeq pkt) (pkPayload pkt) (cnReorder b) =
      (map (\<lambda>i. stream sent (pkSeq pkt + of_nat i)) [0..<Suc m],
       (cnReorder b)\<lparr>rbNextExpected := pkSeq pkt + of_nat (Suc m), rbBuffer := buf\<rparr>)"
    using p(3) by auto
  have h: "map (\<lambda>i. stream sent (pkSeq pkt + of_nat i)) [0..<Suc m] =
      pkPayload pkt # map (\<lambda>i. stream sent (pkSeq pkt + 1 + of_nat i)) [0..<m]"
    unfolding p(3) by (rule consecutive_Cons [symmetric])
  have upd: "rbNextExpected (q\<lparr>rbNextExpected := x, rbBuffer := y\<rparr>) = x" for q :: reorderBuffer and x y
    by simp
  show ?thesis
  proof (intro exI conjI)
    show "rbNextExpected (cnReorder (HandleReceive now pkt b)) =
        rbNextExpected (cnReorder b) + of_nat (Suc m)"
      unfolding HandleReceive_data(1) [OF p(1,2)] r assms(2) [symmetric] snd_conv by (rule upd)
    show "cnInbox (HandleReceive now pkt b) = cnInbox b @ take (cnInboxSize b - length (cnInbox b))
        (pkPayload pkt # map (\<lambda>i. stream sent (pkSeq pkt + 1 + of_nat i)) [0..<m])"
      unfolding HandleReceive_data(2) [OF p(1,2)] r fst_conv h by (rule refl)
  qed
qed

lemma conn_ok_calls:
  "Send env p c = (ok, ds, c') \<Longrightarrow> conn_ok c \<Longrightarrow> conn_ok c'"
  "conn_Tick now c = (r, ds, c') \<Longrightarrow> conn_ok c \<Longrightarrow> conn_ok c'"
  "take_inbox c = (q, c') \<Longrightarrow> conn_ok c \<Longrightarrow> conn_ok c'"
  by (metis conn_ok_Send snd_conv, metis conn_ok_Tick snd_conv, metis conn_ok_take snd_conv)

lemma conn_ok_reachable:
  assumes "link_reachable st st'" and "conn_ok (lkA st)" and "conn_ok (lkB st)"
  shows "conn_ok (lkA st') \<and> conn_ok (lkB st')"
  using assms
proof (induction rule: link_reachable.induct)
  case (more st' st'')
  from more(2) more.IH [OF more.prems] show ?case
    by (cases rule: link_step.cases) (auto intro: conn_ok_calls conn_ok_HandleReceive)
qed simp

section \<open>Properties\<close>

lemma reachable_inv:
  assumes "link_reachable (new_link (NewConn i a ch n t) (NewConn j b ch' m u)) st"
  shows "link_inv st \<and> conn_ok (lkA st) \<and> conn_ok (lkB st)"
  using link_inv_reachable [OF assms link_inv_new] conn_ok_reachable [OF assms]
  by (simp add: new_link_def conn_ok_new)

lemma delivered_in_order:
  assumes "link_reachable (new_link (NewConn i a ch n t) (NewConn j b ch' m u)) st"
  shows "subseq (lkGot st) (lkSent st) \<and>
    (length (lkSent st) \<le> cnInboxSize (lkB st) \<longrightarrow> lkGot st = take (length (lkGot st)) (lkSent st))"
proof -
  from reachable_inv [OF assms] obtain k where "subseq (lkGot st @ cnInbox (lkB st)) (take k (lkSent st))"
    and k: "length (lkSent st) \<le> cnInboxSize (lkB st) \<longrightarrow> lkGot st @ cnInbox (lkB st) = take k (lkSent st)"
    by (auto simp: link_inv_def recv_side_def)
  moreover have "subseq (lkGot st) (lkGot st @ cnInbox (lkB st))" by (intro list_emb_prefix) simp
  moreover have "subseq (take k (lkSent st)) (take k (lkSent st) @ drop k (lkSent st))"
    by (intro list_emb_prefix) simp
  ultimately have "subseq (lkGot st) (lkSent st)" by (metis append_take_drop_id subseq_order.order_trans)
  moreover have "lkGot st = take (length (lkGot st)) (lkSent st)" if "length (lkSent st) \<le> cnInboxSize (lkB st)"
    using k that by (metis append_eq_conv_conj append_take_drop_id append.assoc)
  ultimately show ?thesis by blast
qed

text \<open>An example: one payload is sent, and the write is lost; the retransmission arrives.\<close>

definition env0 :: send_env where
  "env0 = \<lparr>seNow = 0, seWriteOk = True, seDrop = False, seDuplicate = False\<rparr>"




lemma one_payload:
  assumes "payload \<noteq> []" and "length payload \<le> readBufferSize - HeaderSize"
  shows "\<exists>st. link_reachable (new_link (NewConn 1 ''b'' False 0 0) (NewConn 1 ''a'' False 0 0)) st \<and>
    lkSent st = [payload] \<and> lkGot st = [payload] \<and> cnInboxSize (lkB st) = 256"
proof -
  let ?l = "new_link (NewConn 1 ''b'' False 0 0) (NewConn 1 ''a'' False 0 0)"
  define pkt where "pkt = \<lparr>pkFlags = FlagReliable OR FlagACK, pkConnID = 1, pkSeq = 1, pkAck = 0,
    pkAckBitmask = 0, pkPayload = payload\<rparr>"
  obtain ok a where s: "Send env0 payload (lkA ?l) = (ok, [(encodePacket pkt, ''b'')], a)"
    by (simp add: Send_def env0_def new_link_def NewConn_def Let_def pkt_def)
  let ?l1 = "?l\<lparr>lkA := a, lkSent := [payload], lkWire := [encodePacket pkt]\<rparr>"
  have "link_step ?l (?l\<lparr>lkA := a, lkSent := lkSent ?l @ [payload], lkWire := lkWire ?l @ map fst [(encodePacket pkt, ''b'')]\<rparr>)"
    using assms by (intro link_step.send [OF _ _ _ s]) (simp_all add: new_link_def readBufferSize_def HeaderSize_def)
  then have r1: "link_reachable ?l ?l1"
    using link_reachable.more [OF link_reachable.start] by (simp add: new_link_def)
  have d: "data_packet [payload] pkt"
    using assms by (simp add: data_packet_def pkt_def numbered_def stream_def readBufferSize_def HeaderSize_def)
  have fit: "length (pkPayload pkt) \<le> readBufferSize - HeaderSize" using assms(2) by (simp add: pkt_def)
  let ?b = "HandleReceive 5 pkt (lkB ?l1)"
  have r2: "link_reachable ?l (?l1\<lparr>lkB := ?b\<rparr>)"
    by (rule link_reachable.more [OF r1 link_step.arrive [OF _ data_packet_fits [OF d fit]]]) simp
  have "rb_inv (stream [payload]) (cnReorder (lkB ?l1))" by (simp add: new_link_def NewConn_def Let_def rb_inv_new)
  moreover have "pkSeq pkt = rbNextExpected (cnReorder (lkB ?l1))"
    by (simp add: new_link_def NewConn_def Let_def pkt_def newReorderBuffer_def)
  ultimately obtain es where "cnInbox ?b = cnInbox (lkB ?l1) @ take (cnInboxSize (lkB ?l1) - length (cnInbox (lkB ?l1))) (pkPayload pkt # es)"
    using arrival_advances [OF d, of "lkB ?l1" 5] by blast
  moreover have "cnInboxSize (lkB ?l1) - length (cnInbox (lkB ?l1)) = Suc 255" by (simp add: new_link_def NewConn_def Let_def)
  ultimately obtain ds where "cnInbox ?b = cnInbox (lkB ?l1) @ pkPayload pkt # ds" by (simp only: take_Suc_Cons)
  then have t: "take_inbox ?b = (Some payload, ?b\<lparr>cnInbox := ds\<rparr>)"
    by (simp add: take_inbox_def new_link_def NewConn_def Let_def pkt_def)
  have "cnInboxSize ?b = 256"
    by (simp add: HandleReceive_def Let_def recv_unreliable_def recv_reliable_eq new_link_def NewConn_def)
  moreover have "take_inbox (lkB (?l1\<lparr>lkB := ?b\<rparr>)) = (Some payload, ?b\<lparr>cnInbox := ds\<rparr>)" using t by simp
  from link_reachable.more [OF r2 link_step.read [OF this]]
  have "link_reachable ?l (?l1\<lparr>lkB := ?b\<lparr>cnInbox := ds\<rparr>, lkGot := [payload]\<rparr>)" by (simp add: new_link_def)
  ultimately show ?thesis
    by (intro exI [of _ "?l1\<lparr>lkB := ?b\<lparr>cnInbox := ds\<rparr>, lkGot := [payload]\<rparr>"]) simp
qed

text \<open>C15: whatever the network loses, repeats or reorders, whatever acknowledgements come back and
  whenever either side ticks, what the receiving application has read is a subsequence of what the
  sending one sent: nothing is invented, repeated or out of order. While no more has been sent than
  the receiver's inbox holds, it is a prefix: nothing is left out either.\<close>

theorem delivered_is_subsequence:
  assumes "link_reachable (new_link (NewConn i a ch n t) (NewConn j b ch' m u)) st"
  shows "subseq (lkGot st) (lkSent st) \<and>
    (length (lkSent st) \<le> cnInboxSize (lkB st) \<longrightarrow> lkGot st = take (length (lkGot st)) (lkSent st))"
  by (rule delivered_in_order [OF assms])

theorem delivered_is_subsequence_witness:
  "\<exists>st :: link. lkGot st = [[7]] \<and> lkSent st = [[7]] \<and> subseq (lkGot st) (lkSent st) \<and>
    lkGot st = take (length (lkGot st)) (lkSent st)"
proof -
  obtain st where
    st: "link_reachable (new_link (NewConn 1 ''b'' False 0 0) (NewConn 1 ''a'' False 0 0)) st"
      "lkSent st = [[7]]" "lkGot st = [[7]]" using one_payload [of "[7]"] by (auto simp: readBufferSize_def HeaderSize_def)
  from delivered_is_subsequence [OF st(1)] st(2,3) show ?thesis by (intro exI [of _ st]) simp
qed




end
