(* ===== verification/EndToEnd.thy ===== *)
theory EndToEnd
  imports Network System
begin

text \<open>
  The server and one of its clients over a network that loses, repeats and reorders datagrams: the
  part of the server that belongs to the client's connection behaves as the sending side of the link
  of theory Network, whatever else the server does, so what is shown of links holds of the whole.
\<close>

section \<open>One connection of the server\<close>

definition wire_to :: "nat \<Rightarrow> system \<Rightarrow> byte list list" where
  "wire_to c s = map snd (filter (\<lambda>cd. fst cd = c) (syWire s))"

text \<open>Only connections that exist have been used; no empty payload is sent.\<close>

definition logs_ok :: "system \<Rightarrow> bool" where
  "logs_ok s \<longleftrightarrow>
     (\<forall>cd \<in> set (sySent s). fst cd < length (lsHeap (syListener s)) \<and> snd cd \<noteq> []) \<and>
     (\<forall>cd \<in> set (syWire s). fst cd < length (lsHeap (syListener s)))"

text \<open>What can happen to one connection: its state, the payloads sent on it, its datagrams.\<close>

type_synonym side = "Conn \<times> byte list list \<times> byte list list"

inductive side_step :: "side \<Rightarrow> side \<Rightarrow> bool" where
  send: "Send env d cn = (ok, ds, cn') \<Longrightarrow> side_step (cn, sent, wire) (cn', sent @ [d], wire @ map fst ds)"
| tick: "conn_Tick now cn = (r, ds, cn') \<Longrightarrow> side_step (cn, sent, wire) (cn', sent, wire @ map fst ds)"
| arrive: "side_step (cn, sent, wire) (HandleReceive now pkt cn, sent, wire)"
| own: "cnSendSeq cn' = cnSendSeq cn \<Longrightarrow> cnRetx cn' = cnRetx cn \<Longrightarrow> conn_ok cn' \<Longrightarrow>
    side_step (cn, sent, wire) (cn', sent, wire)"

lemma upd_wire [simp]:
  "syWire (upd_conn c cn s) = syWire s" "syWire (upd_room k r s) = syWire s" "syWire (upd_session i x s) = syWire s"
  by (simp_all add: upd_conn_def upd_room_def upd_session_def)

definition side_of :: "nat \<Rightarrow> system \<Rightarrow> side" where
  "side_of c s = (conn_at s c, sent_to c s, wire_to c s)"

lemma side_of_cong:
  "conn_at s' c = conn_at s c \<Longrightarrow> sySent s' = sySent s \<Longrightarrow> syWire s' = syWire s \<Longrightarrow> side_of c s' = side_of c s"
  by (simp add: side_of_def sent_to_def wire_to_def)

lemma side_send_to:
  assumes "fst cd < length (lsHeap (syListener s))"
  shows "side_step\<^sup>*\<^sup>* (side_of c s) (side_of c (send_to env cd s))"
proof (cases "fst cd = c")
  case True
  obtain ok ds cn where s: "Send (env (length (sySent s))) (snd cd) (conn_at s c) = (ok, ds, cn)" by (metis prod.exhaust)
  have "side_of c (send_to env cd s) = (cn, sent_to c s @ [snd cd], wire_to c s @ map fst ds)"
    using True assms s by (simp add: side_of_def send_to_def sent_to_def wire_to_def filter_map o_def)
  with side_step.send [OF s] show ?thesis unfolding side_of_def by auto
next
  case False
  then have "side_of c (send_to env cd s) = side_of c s"
    by (auto simp: side_of_def send_to_def sent_to_def wire_to_def filter_map o_def split: prod.split)
  then show ?thesis by simp
qed

lemma side_send_all:
  "\<forall>cd \<in> set cds. fst cd < length (lsHeap (syListener s)) \<Longrightarrow>
    side_step\<^sup>*\<^sup>* (side_of c s) (side_of c (send_all env cds s))"
proof (induction cds arbitrary: s)
  case (Cons cd cds)
  have "length (lsHeap (syListener (send_to env cd s))) = length (lsHeap (syListener s))" by simp
  with Cons.prems have "\<forall>x \<in> set cds. fst x < length (lsHeap (syListener (send_to env cd s)))" by simp
  from rtranclp_trans [OF side_send_to Cons.IH [OF this]] Cons.prems show ?case by (simp add: send_all_def)
qed (simp add: send_all_def)

lemma send_all_heap: "length (lsHeap (syListener (send_all env cds s))) = length (lsHeap (syListener s))"
  by (induction cds arbitrary: s) (simp_all add: send_all_def)

lemma handlePacket_conn:
  assumes "handlePacket now d a l = (l', out, new)" and "c < length (lsHeap l)"
  shows "lsHeap l' ! c = lsHeap l ! c \<or>
    (\<exists>pkt. lsHeap l' ! c = HandleReceive now pkt ((lsHeap l ! c)\<lparr>cnRemoteAddr := a\<rparr>))"
proof (cases "\<exists>pkt r. DecodePacket d = Inr pkt \<and> route l pkt = Some r")
  case True
  then obtain pkt r where "DecodePacket d = Inr pkt" "route l pkt = Some r" by blast
  with assms show ?thesis by (cases "r = c") (auto simp: handlePacket_def)
next
  case False
  with assms show ?thesis
    by (auto simp: handlePacket_def handleSYN_def Let_def nth_append split: sum.splits option.splits if_splits)
qed

lemma run_session_frame:
  assumes "run_session D i g d s = Inr s'"
  shows "syListener s' = syListener s \<and> sySent s' = sySent s \<and> syWire s' = syWire s"
  using assms by (auto simp: run_session_def upd_session_def split: sum.splits)

lemma on_wake_frame:
  assumes "on_wake k s = Inr s'"
  shows "syListener s' = syListener s \<and> sySent s' = sySent s \<and> syWire s' = syWire s"
  using assms by (auto simp: on_wake_def upd_room_def and_then_eq_Inr split: if_splits list.splits)

text \<open>A tick sends to members only, which are connections that exist.\<close>

lemma on_tick_sends:
  assumes "sys_ok D s" and "on_tick k now env s = Inr s'"
  shows "s' = s \<or> (\<exists>out s1. s' = send_all env out s1 \<and> syListener s1 = syListener s \<and> sySent s1 = sySent s \<and>
    syWire s1 = syWire s \<and> (\<forall>cd \<in> set out. fst cd < length (lsHeap (syListener s)) \<and> snd cd \<noteq> []))"
proof (cases "room_running k s")
  case True
  then have k: "k < length (rrHeap (syRegistry s))" by (simp add: room_running_def)
  from assms(2) True obtain r1 out r2 where r: "drainInbox (room_at s k) = (Inr r1 :: unit fault + Room)"
    "sealTick now True r1 = (Inr (out, r2) :: unit fault + _)"
    and s': "s' = send_all env out ((upd_room k r2 s)\<lparr>syFrames := syFrames s @ [(k, next_frame r1)]\<rparr>)"
    by (auto simp: on_tick_def and_then_eq_Inr)
  have "recipients r1 = recipients (room_at s k)" using drainInbox_keeps [OF r(1)] by (simp add: recipients_def)
  moreover have "enc_frame (next_frame r1) \<noteq> []" using is_frame_frame unfolding is_frame_def by blast
  ultimately have "\<forall>cd \<in> set out. fst cd \<in> set (recipients (room_at s k)) \<and> snd cd \<noteq> []"
    using sealTick_out [OF r(2)] by fastforce
  moreover have "set (recipients (room_at s k)) = {c. room_of s c = Some k}"
    using assms(1) k by (simp add: sys_ok_def members_ok_def)
  moreover have "c < length (lsHeap (syListener s))" if "room_of s c = Some k" for c
    using assms(1) that by (simp add: sys_ok_def conns_ok_def room_of_def split: if_splits)
  ultimately have "\<forall>cd \<in> set out. fst cd < length (lsHeap (syListener s)) \<and> snd cd \<noteq> []" by auto
  with s' show ?thesis by (intro disjI2 exI [of _ out] exI) (auto simp: upd_room_def)
next
  case False
  with assms(2) show ?thesis by (simp add: on_tick_def)
qed

lemma side_sys_step:
  assumes "sys_ok D s" and "sys_step D ev s = Inr s'" and "c < length (lsHeap (syListener s))"
  shows "side_step\<^sup>*\<^sup>* (side_of c s) (side_of c s')"
proof (cases ev)
  case (Receive now d a)
  obtain l out new where h: "handlePacket now (take readBufferSize d) a (syListener s) = (l, out, new)" by (metis prod.exhaust)
  have l: "listener_ok (syListener s)" using assms(1) by (simp add: sys_ok_def conns_ok_def)
  have s': "side_of c s' = (lsHeap l ! c, sent_to c s, wire_to c s)"
    using assms(2) h Receive by (auto simp: on_receive_def side_of_def sent_to_def wire_to_def)
  let ?cn = "(conn_at s c)\<lparr>cnRemoteAddr := a\<rparr>"
  have "side_step (side_of c s) (?cn, sent_to c s, wire_to c s)"
    unfolding side_of_def by (rule side_step.own) (simp_all add: conn_ok_addr listener_conn_ok [OF l assms(3)])
  moreover have "side_step (?cn, sent_to c s, wire_to c s) (HandleReceive now pkt ?cn, sent_to c s, wire_to c s)" for pkt
    by (rule side_step.arrive)
  ultimately have "side_step\<^sup>*\<^sup>* (side_of c s) (HandleReceive now pkt ?cn, sent_to c s, wire_to c s)" for pkt
    by (meson converse_rtranclp_into_rtranclp r_into_rtranclp)
  with handlePacket_conn [OF h assms(3)] show ?thesis unfolding s' by (auto simp: side_of_def)
next
  case (TimeOut i g)
  with assms(2) have "syListener s' = syListener s \<and> sySent s' = sySent s \<and> syWire s' = syWire s"
    using run_session_frame [of D i g None s s'] by (auto simp: on_timeout_def split: if_splits)
  then have "side_of c s' = side_of c s" by (intro side_of_cong) simp_all
  then show ?thesis by simp
next
  case (Take i g)
  let ?c = "ssConn (fst (sySessions s ! i))"
  obtain d cn where t: "take_inbox (conn_at s ?c) = (d, cn)" by fastforce
  have "s' = s \<or> (\<exists>d. run_session D i g (Some d) (upd_conn ?c cn s) = Inr s')"
    using assms(2) Take t by (auto simp: on_take_def Let_def split: if_splits option.splits)
  moreover have "side_step\<^sup>*\<^sup>* (side_of c s) (side_of c (upd_conn ?c cn s))"
  proof (cases "?c = c")
    case True
    have "conn_ok (conn_at s c)" using assms(1,3) by (auto simp: sys_ok_def conns_ok_def intro: listener_conn_ok)
    then have "conn_ok cn" using conn_ok_take [of "conn_at s c"] t True by simp
    moreover have "cnSendSeq cn = cnSendSeq (conn_at s c)" "cnRetx cn = cnRetx (conn_at s c)"
      using t True by (auto simp: take_inbox_def split: list.splits)
    ultimately have "side_step (side_of c s) (cn, sent_to c s, wire_to c s)"
      unfolding side_of_def by (intro side_step.own)
    then show ?thesis using True assms(3) by (simp add: side_of_def sent_to_def wire_to_def r_into_rtranclp)
  next
    case False
    then have "side_of c (upd_conn ?c cn s) = side_of c s" by (intro side_of_cong) simp_all
    then show ?thesis by simp
  qed
  moreover have "side_of c s' = side_of c (upd_conn ?c cn s)" if "run_session D i g (Some d) (upd_conn ?c cn s) = Inr s'" for d
    using run_session_frame [OF that] by (intro side_of_cong) simp_all
  ultimately show ?thesis by auto
next
  case (Perform i env)
  then have s': "s' = on_perform i env s" using assms(2) by simp
  show ?thesis
  proof (cases "i < length (sySessions s)")
    case True
    then have "ssConn (fst (sySessions s ! i)) < length (lsHeap (syListener s))"
      using assms(1) by (simp add: sys_ok_def conns_ok_def)
    moreover have "side_of c (upd_session i x s1) = side_of c s1" "side_of c (upd_room k r s1) = side_of c s1" for x s1 k r
      by (simp_all add: side_of_def sent_to_def wire_to_def upd_session_def upd_room_def)
    ultimately show ?thesis using side_send_to unfolding s' on_perform_def
      by (auto simp: Let_def split: prod.split list.split action.split)
  qed (simp add: s' on_perform_def)
next
  case (Wake k)
  with assms(2) on_wake_frame [of k s s'] have "side_of c s' = side_of c s" by (intro side_of_cong) simp_all
  then show ?thesis by simp
next
  case (TickRoom k now env)
  with assms(2) have "on_tick k now env s = Inr s'" by simp
  from on_tick_sends [OF assms(1) this] show ?thesis
  proof (elim disjE exE conjE)
    fix out s1
    assume s1: "s' = send_all env out s1" "syListener s1 = syListener s" "sySent s1 = sySent s" "syWire s1 = syWire s"
      "\<forall>cd \<in> set out. fst cd < length (lsHeap (syListener s)) \<and> snd cd \<noteq> []"
    then have "side_of c s1 = side_of c s" by (intro side_of_cong) simp_all
    with side_send_all [of out s1 c env] s1 show ?thesis by simp
  qed simp
next
  case (Retransmit i now)
  show ?thesis
  proof (cases "i \<in> set (Conns (syListener s)) \<and> i = c")
    case True
    obtain r ds cn where t: "conn_Tick now (conn_at s c) = (r, ds, cn)" by (metis prod.exhaust)
    have "side_of c s' = (cn, sent_to c s, wire_to c s @ map fst ds)"
      using True Retransmit assms(2,3) t
      by (auto simp: on_retransmit_def side_of_def sent_to_def wire_to_def filter_map o_def)
    with side_step.tick [OF t] show ?thesis unfolding side_of_def by auto
  next
    case False
    then have "side_of c s' = side_of c s"
      using Retransmit assms(2)
      by (auto simp: on_retransmit_def side_of_def sent_to_def wire_to_def filter_map o_def split: prod.splits if_splits)
    then show ?thesis by simp
  qed
qed

text \<open>The logs mention existing connections only.\<close>

lemma logs_ok_cong:
  "logs_ok s \<Longrightarrow> sySent s' = sySent s \<Longrightarrow> syWire s' = syWire s \<Longrightarrow>
    length (lsHeap (syListener s)) \<le> length (lsHeap (syListener s')) \<Longrightarrow> logs_ok s'"
  by (fastforce simp: logs_ok_def)

lemma logs_ok_send_to:
  "logs_ok s \<Longrightarrow> fst cd < length (lsHeap (syListener s)) \<Longrightarrow> snd cd \<noteq> [] \<Longrightarrow> logs_ok (send_to env cd s)"
  by (auto simp: logs_ok_def send_to_def split: prod.split)

lemma logs_ok_send_all:
  "logs_ok s \<Longrightarrow> \<forall>cd \<in> set cds. fst cd < length (lsHeap (syListener s)) \<and> snd cd \<noteq> [] \<Longrightarrow> logs_ok (send_all env cds s)"
proof (induction cds arbitrary: s)
  case (Cons cd cds)
  have "length (lsHeap (syListener (send_to env cd s))) = length (lsHeap (syListener s))" by simp
  with Cons.prems Cons.IH [of "send_to env cd s"] logs_ok_send_to [of s cd env] show ?case by (simp add: send_all_def)
qed (simp add: send_all_def)

lemma logs_ok_step:
  assumes "sys_ok D s" and "sys_step D ev s = Inr s'" and "logs_ok s"
  shows "logs_ok s' \<and> length (lsHeap (syListener s)) \<le> length (lsHeap (syListener s'))"
proof (cases ev)
  case (Receive now d a)
  obtain l out new where h: "handlePacket now (take readBufferSize d) a (syListener s) = (l, out, new)" by (metis prod.exhaust)
  with assms(2) Receive have s': "syListener s' = l" "sySent s' = sySent s" "syWire s' = syWire s"
    by (auto simp: on_receive_def)
  then have "length (lsHeap (syListener s)) \<le> length (lsHeap (syListener s'))" using handlePacket_heap(1) [OF h] by simp
  with logs_ok_cong [OF assms(3) s'(2,3)] show ?thesis by simp
next
  case (TimeOut i g)
  with assms(2) have "syListener s' = syListener s \<and> sySent s' = sySent s \<and> syWire s' = syWire s"
    using run_session_frame [of D i g None s s'] by (auto simp: on_timeout_def split: if_splits)
  with logs_ok_cong [OF assms(3), of s'] show ?thesis by simp
next
  case (Take i g)
  let ?c = "ssConn (fst (sySessions s ! i))"
  obtain d cn where t: "take_inbox (conn_at s ?c) = (d, cn)" by fastforce
  have "s' = s \<or> (\<exists>d. run_session D i g (Some d) (upd_conn ?c cn s) = Inr s')"
    using assms(2) Take t by (auto simp: on_take_def Let_def split: if_splits option.splits)
  then have "length (lsHeap (syListener s')) = length (lsHeap (syListener s)) \<and> sySent s' = sySent s \<and> syWire s' = syWire s"
    using run_session_frame by fastforce
  with logs_ok_cong [OF assms(3), of s'] show ?thesis by simp
next
  case (Perform i env)
  then have s': "s' = on_perform i env s" using assms(2) by simp
  show ?thesis
  proof (cases "i < length (sySessions s) \<and> (\<exists>ss d as. sySessions s ! i = (ss, Reply d # as))")
    case True
    then obtain ss d as where x: "i < length (sySessions s)" "sySessions s ! i = (ss, Reply d # as)" by blast
    have "\<forall>c < length (sySessions s). ssConn (fst (sySessions s ! c)) = c \<and>
        list_all (action_ok (ssPhase (fst (sySessions s ! c)))) (snd (sySessions s ! c))"
      "length (sySessions s) = length (lsHeap (syListener s))"
      using assms(1) by (simp_all add: sys_ok_def conns_ok_def)
    with x have "ssConn ss < length (lsHeap (syListener s))" "d \<noteq> []" by (auto simp: action_ok_def dest!: spec [of _ i])
    then have "logs_ok (send_to env (ssConn ss, d) s)" by (intro logs_ok_send_to [OF assms(3)]) simp_all
    then have "logs_ok s'" unfolding s' using x by (auto simp: on_perform_def intro: logs_ok_cong)
    then show ?thesis unfolding s' using x by (simp add: on_perform_def)
  next
    case False
    then have "syListener s' = syListener s" "sySent s' = sySent s" "syWire s' = syWire s"
      unfolding s' by (auto simp: on_perform_def Let_def split: prod.split list.split action.split)
    with logs_ok_cong [OF assms(3), of s'] show ?thesis by simp
  qed
next
  case (Wake k)
  with assms(2) on_wake_frame [of k s s'] logs_ok_cong [OF assms(3), of s'] show ?thesis by simp
next
  case (TickRoom k now env)
  with assms(2) have "on_tick k now env s = Inr s'" by simp
  from on_tick_sends [OF assms(1) this] show ?thesis
  proof (elim disjE exE conjE)
    fix out s1
    assume s1: "s' = send_all env out s1" "syListener s1 = syListener s" "sySent s1 = sySent s" "syWire s1 = syWire s"
      "\<forall>cd \<in> set out. fst cd < length (lsHeap (syListener s)) \<and> snd cd \<noteq> []"
    then have "logs_ok s1" by (intro logs_ok_cong [OF assms(3)]) simp_all
    with logs_ok_send_all [of s1 out env] s1 send_all_heap [of env out s1] show ?thesis by simp
  qed (simp add: assms(3))
next
  case (Retransmit i now)
  have c: "length (sySessions s) = length (lsHeap (syListener s))" "listener_ok (syListener s)"
    using assms(1) by (simp_all add: sys_ok_def conns_ok_def)
  have "i < length (lsHeap (syListener s))" if "i \<in> set (Conns (syListener s))"
    using c(2) that by (auto simp: Conns_def listener_ok_def list_all_iff conn_entry_def)
  with Retransmit assms(2,3) show ?thesis
    by (fastforce simp: on_retransmit_def logs_ok_def split: prod.splits if_splits)
qed

section \<open>The server's connection is a link's sending side\<close>

text \<open>Payloads that the packet header can carry, and fewer than the sequence numbers.\<close>

definition fits :: "byte list list \<Rightarrow> bool" where
  "fits sent \<longleftrightarrow> list_all (\<lambda>d. d \<noteq> [] \<and> length d < 65536) sent \<and> length sent \<le> 2 ^ 32 - 2"

definition link_of :: "side \<Rightarrow> Conn \<Rightarrow> byte list list \<Rightarrow> link \<Rightarrow> bool" where
  "link_of x b got st \<longleftrightarrow> (case x of (cn, sent, wire) \<Rightarrow>
     lkA st = cn \<and> lkSent st = sent \<and> set wire \<subseteq> set (lkWire st) \<and> lkB st = b \<and> lkGot st = got)"

lemma side_step_sent: "side_step x y \<Longrightarrow> \<exists>ds. fst (snd y) = fst (snd x) @ ds"
  by (auto elim!: side_step.cases)

lemma fits_prefix: "fits (xs @ ys) \<Longrightarrow> fits xs"
  by (simp add: fits_def)

lemma side_step_link:
  assumes "side_step x y" and "link_of x b got st" and "link_reachable l st" and "fits (fst (snd y))"
  shows "\<exists>st'. link_of y b got st' \<and> link_reachable l st'"
  using assms
proof (cases rule: side_step.cases)
  case (send env d cn ok ds cn' sent wire)
  let ?st = "st\<lparr>lkA := cn', lkSent := lkSent st @ [d], lkWire := lkWire st @ map fst ds\<rparr>"
  have "link_step st ?st"
    using send assms(2,4) by (intro link_step.send [of d st env ok ds cn']) (auto simp: link_of_def fits_def)
  moreover have "link_of y b got ?st" using send assms(2) by (auto simp: link_of_def)
  ultimately show ?thesis using link_reachable.more [OF assms(3)] by blast
next
  case (tick now cn r ds cn' sent wire)
  let ?st = "st\<lparr>lkA := cn', lkWire := lkWire st @ map fst ds\<rparr>"
  have "link_step st ?st" using tick assms(2) by (intro link_step.tick) (auto simp: link_of_def)
  moreover have "link_of y b got ?st" using tick assms(2) by (auto simp: link_of_def)
  ultimately show ?thesis using link_reachable.more [OF assms(3)] by blast
next
  case (arrive cn sent wire now pkt)
  have "link_of y b got (st\<lparr>lkA := HandleReceive now pkt (lkA st)\<rparr>)" using arrive assms(2) by (auto simp: link_of_def)
  with link_reachable.more [OF assms(3) link_step.acks] show ?thesis by blast
next
  case (own cn' cn sent wire)
  have "link_step st (st\<lparr>lkA := cn'\<rparr>)" using own assms(2) by (intro link_step.own) (auto simp: link_of_def)
  moreover have "link_of y b got (st\<lparr>lkA := cn'\<rparr>)" using own assms(2) by (auto simp: link_of_def)
  ultimately show ?thesis using link_reachable.more [OF assms(3)] by blast
qed

lemma side_steps_link:
  assumes "side_step\<^sup>*\<^sup>* x y" and "link_of x b got st" and "link_reachable l st" and "fits (fst (snd y))"
  shows "\<exists>st'. link_of y b got st' \<and> link_reachable l st'"
  using assms(1,4)
proof (induction rule: rtranclp_induct)
  case base
  with assms(2,3) show ?case by blast
next
  case (step y z)
  from side_step_sent [OF step.hyps(2)] step.prems have "fits (fst (snd y))" by (auto dest: fits_prefix)
  with step.IH obtain st' where "link_of y b got st'" "link_reachable l st'" by blast
  from side_step_link [OF step.hyps(2) this step.prems] show ?case .
qed

section \<open>Server and client\<close>

text \<open>
  The client of connection \<open>c\<close> reads datagrams that the server wrote for it, in any order and
  any number of times, and packets without payload (the handshake's, pings, acknowledgements); it sends,
  retransmits, completes its handshake and reads its inbox. What it sends reaches the server, if at all,
  as datagrams like any others.
\<close>

record joint =
  jtServer :: system
  jtClient :: Conn
  jtGot :: "byte list list"

inductive joint_step :: "RoomConfig \<Rightarrow> nat \<Rightarrow> joint \<Rightarrow> joint \<Rightarrow> bool" for D c where
  server: "sys_step D ev (jtServer j) = Inr s \<Longrightarrow> joint_step D c j (j\<lparr>jtServer := s\<rparr>)"
| arrive: "d \<in> set (wire_to c (jtServer j)) \<Longrightarrow> DecodePacket (take readBufferSize d) = Inr pkt \<Longrightarrow>
    joint_step D c j (j\<lparr>jtClient := HandleReceive now pkt (jtClient j)\<rparr>)"
| control: "pkPayload pkt = [] \<Longrightarrow> joint_step D c j (j\<lparr>jtClient := HandleReceive now pkt (jtClient j)\<rparr>)"
| send: "Send env p (jtClient j) = (ok, ds, b) \<Longrightarrow> joint_step D c j (j\<lparr>jtClient := b\<rparr>)"
| tick: "conn_Tick now (jtClient j) = (r, ds, b) \<Longrightarrow> joint_step D c j (j\<lparr>jtClient := b\<rparr>)"
| handshake: "joint_step D c j (j\<lparr>jtClient := (jtClient j)\<lparr>cnConnID := i, cnState := StateEstablished\<rparr>\<rparr>)"
| read: "take_inbox (jtClient j) = (Some p, b) \<Longrightarrow> joint_step D c j (j\<lparr>jtClient := b, jtGot := jtGot j @ [p]\<rparr>)"

definition joint_start :: "RoomConfig \<Rightarrow> Conn \<Rightarrow> joint" where
  "joint_start D b = \<lparr>jtServer = start D, jtClient = b, jtGot = []\<rparr>"

definition conns :: "system \<Rightarrow> nat" where
  "conns s = length (lsHeap (syListener s))"

text \<open>Before the connection exists nothing has reached the client through it.\<close>

definition joint_inv :: "RoomConfig \<Rightarrow> nat \<Rightarrow> Conn \<Rightarrow> joint \<Rightarrow> bool" where
  "joint_inv D c b0 j \<longleftrightarrow> sys_ok D (jtServer j) \<and> logs_ok (jtServer j) \<and>
     (fits (sent_to c (jtServer j)) \<longrightarrow>
       (if c < conns (jtServer j) then \<exists>i a ch n t st. link_reachable (new_link (NewConn i a ch n t) b0) st \<and>
          link_of (side_of c (jtServer j)) (jtClient j) (jtGot j) st
        else \<forall>i a ch n t. \<exists>st. link_reachable (new_link (NewConn i a ch n t) b0) st \<and>
          link_of (NewConn i a ch n t, [], []) (jtClient j) (jtGot j) st))"

lemma logs_absent:
  assumes "logs_ok s" and "\<not> c < conns s"
  shows "sent_to c s = []" and "wire_to c s = []"
  using assms by (auto simp: logs_ok_def conns_def sent_to_def wire_to_def filter_empty_conv)

lemma handlePacket_new:
  assumes "handlePacket now d a l = (l', out, new)" and "length (lsHeap l) \<le> c" and "c < length (lsHeap l')"
  shows "\<exists>i ch. lsHeap l' ! c = (NewConn i a ch 0 now)\<lparr>cnState := StateEstablished\<rparr>"
proof -
  from handlePacket_heap(1) [OF assms(1)] assms(2,3) have new: "new \<noteq> None" "c = length (lsHeap l)"
    by (auto split: option.splits)
  with assms(1) show ?thesis
    by (auto simp: handlePacket_def handleSYN_def Let_def split: sum.splits option.splits if_splits) blast
qed

lemma conns_grow:
  assumes "sys_step D ev s = Inr s'" and "sys_ok D s" and "conns s \<le> c" and "c < conns s'"
  shows "\<exists>i a ch t. conn_at s' c = (NewConn i a ch 0 t)\<lparr>cnState := StateEstablished\<rparr> \<and>
    sySent s' = sySent s \<and> syWire s' = syWire s"
proof (cases ev)
  case (Receive now d a)
  obtain l out new where h: "handlePacket now (take readBufferSize d) a (syListener s) = (l, out, new)" by (metis prod.exhaust)
  with assms(1) Receive have s': "syListener s' = l" "sySent s' = sySent s" "syWire s' = syWire s"
    by (auto simp: on_receive_def)
  with handlePacket_new [OF h] assms(3,4) show ?thesis by (fastforce simp: conns_def)
next
  case (TimeOut i g)
  with assms(1) have "syListener s' = syListener s"
    using run_session_frame [of D i g None s s'] by (auto simp: on_timeout_def split: if_splits)
  with assms(3,4) show ?thesis by (simp add: conns_def)
next
  case (Take i g)
  let ?c = "ssConn (fst (sySessions s ! i))"
  obtain d cn where t: "take_inbox (conn_at s ?c) = (d, cn)" by fastforce
  have "s' = s \<or> (\<exists>d. run_session D i g (Some d) (upd_conn ?c cn s) = Inr s')"
    using assms(1) Take t by (auto simp: on_take_def Let_def split: if_splits option.splits)
  then have "conns s' = conns s" using run_session_frame by (fastforce simp: conns_def)
  with assms(3,4) show ?thesis by simp
next
  case (Perform i env)
  with assms(1) have "conns s' = conns s"
    by (auto simp: conns_def on_perform_def Let_def split: prod.split list.split action.split)
  with assms(3,4) show ?thesis by simp
next
  case (Wake k)
  with assms(1) on_wake_frame [of k s s'] assms(3,4) show ?thesis by (simp add: conns_def)
next
  case (TickRoom k now env)
  with assms(1) have "on_tick k now env s = Inr s'" by simp
  from on_tick_sends [OF assms(2) this] have "conns s' = conns s" by (auto simp: conns_def send_all_heap)
  with assms(3,4) show ?thesis by simp
next
  case (Retransmit i now)
  with assms(1) have "conns s' = conns s" by (auto simp: conns_def on_retransmit_def split: prod.splits if_splits)
  with assms(3,4) show ?thesis by simp
qed

lemma sys_step_sent: "sys_ok D s \<Longrightarrow> sys_step D ev s = Inr s' \<Longrightarrow> c < conns s \<Longrightarrow> fits (sent_to c s') \<Longrightarrow> fits (sent_to c s)"
proof -
  assume a: "sys_ok D s" "sys_step D ev s = Inr s'" "c < conns s" "fits (sent_to c s')"
  have "\<exists>ds. fst (snd y) = fst (snd x) @ ds" if "side_step\<^sup>*\<^sup>* x y" for x y
    using that by (induction rule: rtranclp_induct) (auto dest!: side_step_sent)
  from this [OF side_sys_step [OF a(1,2), of c]] a(3,4) show ?thesis
    by (auto simp: side_of_def conns_def dest: fits_prefix)
qed

lemma joint_inv_server:
  assumes "joint_inv D c b0 j" and "sys_step D ev (jtServer j) = Inr s" and "cfg_ok D" and "rcPlayerCount D \<le> 65536"
  shows "joint_inv D c b0 (j\<lparr>jtServer := s\<rparr>)"
proof -
  let ?s = "jtServer j"
  from assms(1) have ok: "sys_ok D ?s" "logs_ok ?s" by (simp_all add: joint_inv_def)
  have ok': "sys_ok D s" using sys_step_ok [OF ok(1) assms(3,4), of ev] assms(2) by auto
  from logs_ok_step [OF ok(1) assms(2) ok(2)] have l: "logs_ok s" "conns ?s \<le> conns s" by (simp_all add: conns_def)
  have "if c < conns s then \<exists>i a ch n t st. link_reachable (new_link (NewConn i a ch n t) b0) st \<and>
          link_of (side_of c s) (jtClient j) (jtGot j) st
        else \<forall>i a ch n t. \<exists>st. link_reachable (new_link (NewConn i a ch n t) b0) st \<and>
          link_of (NewConn i a ch n t, [], []) (jtClient j) (jtGot j) st"
    if f: "fits (sent_to c s)"
  proof (cases "c < conns ?s")
    case True
    with sys_step_sent [OF ok(1) assms(2) _ f] assms(1) obtain i a ch n t st where
      st: "link_reachable (new_link (NewConn i a ch n t) b0) st" "link_of (side_of c ?s) (jtClient j) (jtGot j) st"
      unfolding joint_inv_def by (auto split: if_splits)
    have "fits (fst (snd (side_of c s)))" using f by (simp add: side_of_def)
    from side_steps_link [OF side_sys_step [OF ok(1) assms(2)] st(2,1) this] True l(2) show ?thesis
      by (fastforce simp: conns_def)
  next
    case False
    with logs_absent [OF ok(2)] assms(1) have
      all: "\<And>i a ch n t. \<exists>st. link_reachable (new_link (NewConn i a ch n t) b0) st \<and>
          link_of (NewConn i a ch n t, [], []) (jtClient j) (jtGot j) st"
      by (simp add: joint_inv_def fits_def)
    show ?thesis
    proof (cases "c < conns s")
      case True
      from conns_grow [OF assms(2) ok(1) _ True] False obtain i a ch t where
        n: "conn_at s c = (NewConn i a ch 0 t)\<lparr>cnState := StateEstablished\<rparr>"
          "sySent s = sySent ?s" "syWire s = syWire ?s" by auto
      then have sd: "side_of c s = ((NewConn i a ch 0 t)\<lparr>cnState := StateEstablished\<rparr>, [], [])"
        using logs_absent [OF ok(2) False] by (simp add: side_of_def sent_to_def wire_to_def)
      have "side_step (NewConn i a ch 0 t, [], []) (side_of c s)"
        unfolding sd by (rule side_step.own) (simp_all add: conn_ok_state conn_ok_new)
      moreover from all obtain st where "link_reachable (new_link (NewConn i a ch 0 t) b0) st"
        "link_of (NewConn i a ch 0 t, [], []) (jtClient j) (jtGot j) st" by blast
      ultimately show ?thesis using side_step_link True f by (fastforce simp: side_of_def)
    qed (use all in simp)
  qed
  with ok' l show ?thesis by (simp add: joint_inv_def)
qed

text \<open>The client's calls are steps of the link's receiving side.\<close>

definition client_move :: "nat \<Rightarrow> system \<Rightarrow> Conn \<Rightarrow> byte list list \<Rightarrow> Conn \<Rightarrow> byte list list \<Rightarrow> bool" where
  "client_move c s b got b' got' \<longleftrightarrow>
     (\<forall>st. set (wire_to c s) \<subseteq> set (lkWire st) \<longrightarrow> link_inv st \<longrightarrow> conn_ok b \<longrightarrow> lkB st = b \<longrightarrow> lkGot st = got \<longrightarrow>
        link_step st (st\<lparr>lkB := b', lkGot := got'\<rparr>))"

lemma joint_inv_client:
  assumes "joint_inv D c (NewConn p q ch' m u) j" and "client_move c (jtServer j) (jtClient j) (jtGot j) b' got'"
  shows "joint_inv D c (NewConn p q ch' m u) (j\<lparr>jtClient := b', jtGot := got'\<rparr>)"
proof -
  let ?s = "jtServer j" and ?b0 = "NewConn p q ch' m u"
  have move: "\<exists>st'. link_reachable (new_link (NewConn i a ch n t) ?b0) st' \<and> link_of x b' got' st'"
    if "link_reachable (new_link (NewConn i a ch n t) ?b0) st" "link_of x (jtClient j) (jtGot j) st"
      "set (snd (snd x)) = set (wire_to c ?s)" for i a ch n t st x
  proof -
    have x: "set (wire_to c ?s) \<subseteq> set (lkWire st)" "lkB st = jtClient j" "lkGot st = jtGot j"
      using that(2,3) by (auto simp: link_of_def)
    from reachable_inv [OF that(1)] have "link_inv st" "conn_ok (jtClient j)" by (simp_all add: x(2) [symmetric])
    with assms(2) x have "link_step st (st\<lparr>lkB := b', lkGot := got'\<rparr>)" unfolding client_move_def by blast
    moreover have "link_of x b' got' (st\<lparr>lkB := b', lkGot := got'\<rparr>)" using that(2) by (auto simp: link_of_def)
    ultimately show ?thesis using link_reachable.more [OF that(1)] by blast
  qed
  show ?thesis
  proof (cases "c < conns ?s")
    case True
    then show ?thesis using assms(1) move [where x = "side_of c ?s"] by (fastforce simp: joint_inv_def side_of_def)
  next
    case False
    from logs_absent [OF _ False] assms(1) have "wire_to c ?s = []" by (simp add: joint_inv_def)
    with False assms(1) move [where x = "(_, [], [])"] show ?thesis
      unfolding joint_inv_def by (simp del: split_paired_Ex split_paired_All) metis
  qed
qed

lemma link_stay:
  assumes "link_step st (st\<lparr>lkB := b\<rparr>)" and "lkGot st = g"
  shows "link_step st (st\<lparr>lkB := b, lkGot := g\<rparr>)"
proof -
  have "st\<lparr>lkB := b, lkGot := g\<rparr> = st\<lparr>lkB := b\<rparr>" using assms(2) by (cases st) simp
  with assms(1) show ?thesis by (simp only:)
qed

lemma HandleReceive_control:
  assumes "pkPayload pkt = []"
  shows "cnReorder (HandleReceive now pkt b) = cnReorder b" "cnInbox (HandleReceive now pkt b) = cnInbox b"
    "cnInboxSize (HandleReceive now pkt b) = cnInboxSize b"
  using assms by (simp_all add: HandleReceive_def Let_def recv_reliable_def recv_unreliable_def)

lemma joint_inv_step:
  assumes "joint_step D c j j'" and "joint_inv D c (NewConn p q ch' m u) j" and "cfg_ok D" and "rcPlayerCount D \<le> 65536"
  shows "joint_inv D c (NewConn p q ch' m u) j'"
  using assms(1)
proof cases
  case (server ev s)
  with joint_inv_server [OF assms(2) server(2) assms(3,4)] show ?thesis by simp
next
  case (arrive d pkt now)
  have "client_move c (jtServer j) (jtClient j) (jtGot j) (HandleReceive now pkt (jtClient j)) (jtGot j)"
    unfolding client_move_def
  proof (intro allI impI)
    fix st :: link assume st: "set (wire_to c (jtServer j)) \<subseteq> set (lkWire st)" "link_inv st" "lkB st = jtClient j" "lkGot st = jtGot j"
    then have d: "d \<in> set (lkWire st)" using arrive by auto
    from link_step.arrive [OF d arrive(3), of now] st(3,4)
    show "link_step st (st\<lparr>lkB := HandleReceive now pkt (jtClient j), lkGot := jtGot j\<rparr>)"
      by (intro link_stay) simp_all
  qed
  from joint_inv_client [OF assms(2) this] arrive show ?thesis by simp
next
  case (control pkt now)
  let ?b = "HandleReceive now pkt (jtClient j)"
  have "client_move c (jtServer j) (jtClient j) (jtGot j) ?b (jtGot j)"
    unfolding client_move_def
  proof (intro allI impI)
    fix st :: link assume "conn_ok (jtClient j)" "lkB st = jtClient j" "lkGot st = jtGot j"
    with link_step.own_peer [of ?b st] HandleReceive_control [OF control(2)] conn_ok_HandleReceive
    show "link_step st (st\<lparr>lkB := ?b, lkGot := jtGot j\<rparr>)" by (intro link_stay) simp_all
  qed
  from joint_inv_client [OF assms(2) this] control show ?thesis by simp
next
  case (send env pl ok ds b)
  have "client_move c (jtServer j) (jtClient j) (jtGot j) b (jtGot j)"
    unfolding client_move_def
  proof (intro allI impI)
    fix st :: link assume "lkB st = jtClient j" "lkGot st = jtGot j"
    with link_step.reply [of env pl st ok ds b] send(2) show "link_step st (st\<lparr>lkB := b, lkGot := jtGot j\<rparr>)" by (intro link_stay) simp_all
  qed
  from joint_inv_client [OF assms(2) this] send show ?thesis by simp
next
  case (tick now r ds b)
  have "client_move c (jtServer j) (jtClient j) (jtGot j) b (jtGot j)"
    unfolding client_move_def
  proof (intro allI impI)
    fix st :: link assume "lkB st = jtClient j" "lkGot st = jtGot j"
    with link_step.reply_tick [of now st r ds b] tick(2) show "link_step st (st\<lparr>lkB := b, lkGot := jtGot j\<rparr>)" by (intro link_stay) simp_all
  qed
  from joint_inv_client [OF assms(2) this] tick show ?thesis by simp
next
  case (handshake i)
  let ?b = "(jtClient j)\<lparr>cnConnID := i, cnState := StateEstablished\<rparr>"
  have "client_move c (jtServer j) (jtClient j) (jtGot j) ?b (jtGot j)"
    unfolding client_move_def
  proof (intro allI impI)
    fix st :: link assume "conn_ok (jtClient j)" "lkB st = jtClient j" "lkGot st = jtGot j"
    with link_step.own_peer [of ?b st] show "link_step st (st\<lparr>lkB := ?b, lkGot := jtGot j\<rparr>)"
      by (intro link_stay) (simp_all add: conn_ok_def)
  qed
  from joint_inv_client [OF assms(2) this] handshake show ?thesis by simp
next
  case (read pl b)
  have "client_move c (jtServer j) (jtClient j) (jtGot j) b (jtGot j @ [pl])"
    unfolding client_move_def
  proof (intro allI impI)
    fix st :: link assume "lkB st = jtClient j" "lkGot st = jtGot j"
    with link_step.read [of st pl b] read(2) show "link_step st (st\<lparr>lkB := b, lkGot := jtGot j @ [pl]\<rparr>)" by simp
  qed
  from joint_inv_client [OF assms(2) this] read show ?thesis by simp
qed

lemma joint_inv_start: "joint_inv D c (NewConn p q ch' m u) (joint_start D (NewConn p q ch' m u))"
proof -
  have "link_of (NewConn i a ch n t, [], []) (NewConn p q ch' m u) []
      (new_link (NewConn i a ch n t) (NewConn p q ch' m u))" for i a ch n t
    by (simp add: link_of_def new_link_def)
  with link_reachable.start have "\<exists>st. link_reachable (new_link (NewConn i a ch n t) (NewConn p q ch' m u)) st \<and>
      link_of (NewConn i a ch n t, [], []) (NewConn p q ch' m u) [] st" for i a ch n t by blast
  moreover have "logs_ok (start D)" "conns (start D) = 0" by (simp_all add: logs_ok_def start_def conns_def Listen_def)
  ultimately show ?thesis by (simp add: joint_inv_def joint_start_def sys_ok_start)
qed

lemma joint_run_inv:
  assumes "(joint_step D c)\<^sup>*\<^sup>* (joint_start D (NewConn p q ch' m u)) j" and "cfg_ok D" and "rcPlayerCount D \<le> 65536"
  shows "joint_inv D c (NewConn p q ch' m u) j"
  using assms(1) by (induction rule: rtranclp_induct) (auto intro: joint_inv_start joint_inv_step assms(2,3))

section \<open>What the client does with what it reads\<close>

lemma Decode_tag: "Decode d = Inr (t, m) \<Longrightarrow> d \<noteq> [] \<and> t = hd d"
  by (cases d) (auto simp: Decode_def byte_at_def tag_def and_then_eq_Inr Let_def split: if_splits)

lemma dispatch_frame: "wire_ok (MFrameBundle fb) \<Longrightarrow> dispatch (enc_frame fb) = Inr (Some (OnFrame fb))"
  using Decode_Encode_or_nil [of "MFrameBundle fb"] by (simp add: dispatch_def enc_frame_def msg_type_defs)

lemma dispatch_other: "\<not> is_frame d \<Longrightarrow> dispatch d = Inr cb \<Longrightarrow> cb \<noteq> Some (OnFrame fb)"
  using Decode_tag [of d] by (auto simp: dispatch_def is_frame_def split: sum.splits fault.splits if_splits WireMsg.splits)

lemma on_frame_calls_simps [simp]:
  "on_frame_calls [] = []" "on_frame_calls (OnFrame fb # cbs) = fb # on_frame_calls cbs"
  by (simp_all add: on_frame_calls_def)

lemma on_frame_calls_other: "\<forall>fb. cb \<noteq> OnFrame fb \<Longrightarrow> on_frame_calls (cb # cbs) = on_frame_calls cbs"
  by (cases cb) (simp_all add: on_frame_calls_def)

lemma RunDispatchLoop_payloads:
  assumes "filter is_frame ds = map enc_frame fs" and "list_all (\<lambda>fb. wire_ok (MFrameBundle fb)) fs"
  shows "\<exists>cbs. RunDispatchLoop ds = Inr cbs \<and> on_frame_calls cbs = fs"
  using assms
proof (induction ds arbitrary: fs)
  case (Cons d ds)
  show ?case
  proof (cases "is_frame d")
    case True
    with Cons.prems(1) obtain fb gs where f: "fs = fb # gs" "d = enc_frame fb" "filter is_frame ds = map enc_frame gs"
      by (cases fs) auto
    with Cons.IH [OF f(3)] Cons.prems(2) dispatch_frame [of fb] show ?thesis by auto
  next
    case False
    with Cons.IH [of fs] Cons.prems obtain cbs where c: "RunDispatchLoop ds = Inr cbs" "on_frame_calls cbs = fs" by auto
    from RunDispatchLoop_total [of "[d]"] obtain cb where cb: "dispatch d = Inr cb" by (auto simp: and_then_eq_Inr)
    with dispatch_other [OF False cb] c show ?thesis
      by (cases cb) (auto simp: on_frame_calls_other)
  qed
qed simp

text \<open>A client that starts with frame \<open>n + 1\<close>: the ticks before it are stepped without commands.\<close>

lemma on_frames_from:
  assumes "sim_ok w0" and "map fbTick fs = map (\<lambda>i. 1 + of_nat i) [0..<length fs]" and "length fs < 2 ^ 32"
    and "gs = take m (drop n fs)" and "gs \<noteq> []"
  shows "\<exists>hs w. (on_frames gs \<lparr>plWorld = w0, plLastTick = 0\<rparr> :: unit fault + _) =
      Inr (hs, \<lparr>plWorld = w, plLastTick = of_nat (n + length gs)\<rparr>) \<and>
    sim.run w0 (replicate n [] @ map frame_cmds gs) = (Inr w :: unit fault + World)"
proof -
  obtain fb hs where g: "gs = fb # hs" using assms(5) by (cases gs) auto
  have len: "n + length gs \<le> length fs" using assms(4,5) by (auto simp: g)
  have t: "fbTick (gs ! i) = of_nat (n + i) + 1" if "i < length gs" for i
  proof -
    have "gs ! i = fs ! (n + i)" using that assms(4) len by simp
    moreover have "map fbTick fs ! (n + i) = 1 + of_nat (n + i)" unfolding assms(2) using that len by simp
    ultimately show ?thesis using that len by simp
  qed
  have u: "unat (of_nat k + 1 :: u32) = Suc k" if "k < length fs" for k
  proof -
    have "unat (of_nat (Suc k) :: u32) = Suc k" using that assms(3) by (intro unat_of_nat_small) simp
    then show ?thesis by (simp add: add.commute)
  qed
  let ?p = "\<lparr>plWorld = w0, plLastTick = 0\<rparr>"
  have f: "fbTick fb = of_nat n + 1" "unat (fbTick fb) = Suc n" using t [of 0] u [of n] len g by auto
  obtain w1 where w1: "sim.run w0 (replicate n [] @ [frame_cmds fb]) = (Inr w1 :: unit fault + World)" "sim_ok w1"
    using sim.run_total [OF assms(1), of "replicate n [] @ [frame_cmds fb]"] by blast
  have "(catch_up fb 0 w0 :: unit fault + World) = Inr w1" using catch_up_gap [OF assms(1), of fb 0 n, where 'e = unit] f(2) w1(1) by simp
  moreover have "(0 :: u32) < fbTick fb" unfolding word_less_nat_alt f(2) by simp
  ultimately have o: "(on_frame fb ?p :: unit fault + _) = Inr ((fbTick fb, Hash w1), \<lparr>plWorld = w1, plLastTick = fbTick fb\<rparr>)"
    by (simp add: on_frame_def)
  let ?q = "\<lparr>plWorld = w1, plLastTick = fbTick fb\<rparr>"
  have "map fbTick hs = map (\<lambda>i. plLastTick ?q + 1 + of_nat i) [0..<length hs]"
    using t [of "Suc _"] g f(1) by (intro nth_equalityI) (auto simp: algebra_simps)
  moreover have "unat (plLastTick ?q) + length hs < 2 ^ 32" using f(2) len assms(3) g by simp
  ultimately obtain xs w where w: "(sim.run w1 (map frame_cmds hs) :: unit fault + _) = Inr w"
    "(on_frames hs ?q :: unit fault + _) = Inr (zip (map fbTick hs) xs, \<lparr>plWorld = w, plLastTick = plLastTick ?q + of_nat (length hs)\<rparr>)"
    using on_frames_run [of ?q hs, where 'e = unit] w1(2) by auto
  have "sim.run w0 (replicate n [] @ map frame_cmds gs) = (Inr w :: unit fault + World)"
  proof -
    have "replicate n [] @ map frame_cmds gs = (replicate n [] @ [frame_cmds fb]) @ map frame_cmds hs" by (simp add: g)
    then show ?thesis using w1(1) w(1) by (simp only: sim.run_append and_then_simps)
  qed
  moreover have "plLastTick ?q + of_nat (length hs) = (of_nat (n + length gs) :: u32)" by (simp add: f(1) g)
  ultimately show ?thesis using o w(2) by (simp add: g)
qed

lemma client_world_ok:
  assumes "cfg_ok D" and "rcPlayerCount D \<le> 65536"
  shows "world_ok (client_world (rcSeed D) (rcMapW D) (rcMapH D) (nat (rcPlayerCount D)) 5)"
proof -
  obtain r where r: "(NewRoom D :: unit fault + Room) = Inr r"
    using NewRoom_ok [of D, where 'e = unit] assms(1) by (auto simp: cfg_ok_def)
  from started_room_live [OF assms r] initial_worlds_agree [OF r, of 5] show ?thesis
    by (simp add: room_live_def room_ok_def)
qed

section \<open>A game\<close>

text \<open>Runs of the parts are runs of the whole.\<close>

lemma joint_server_run:
  "sys_run D evs (jtServer j) = Inr s \<Longrightarrow> (joint_step D c)\<^sup>*\<^sup>* j (j\<lparr>jtServer := s\<rparr>)"
proof (induction evs arbitrary: j)
  case (Cons ev evs)
  from Cons.prems obtain s1 where s1: "sys_step D ev (jtServer j) = Inr s1" "sys_run D evs s1 = Inr s"
    by (auto simp: and_then_eq_Inr)
  from Cons.IH [of "j\<lparr>jtServer := s1\<rparr>"] s1 joint_step.server [OF s1(1)] show ?case
    by (auto intro: converse_rtranclp_into_rtranclp)
next
  case Nil
  then have "j\<lparr>jtServer := s\<rparr> = j" by (cases j) simp
  then show ?case by simp
qed

fun recv_all :: "byte list list \<Rightarrow> Conn \<Rightarrow> Conn" where
  "recv_all [] b = b"
| "recv_all (d # ds) b =
     (case DecodePacket (take readBufferSize d) of Inl e \<Rightarrow> recv_all ds b | Inr pkt \<Rightarrow> recv_all ds (HandleReceive 0 pkt b))"

lemma recv_all_size: "cnInboxSize (recv_all ds b) = cnInboxSize b"
proof (induction ds b rule: recv_all.induct)
  case (2 d ds b)
  then show ?case
    by (cases "DecodePacket (take readBufferSize d)")
      (simp_all add: HandleReceive_def Let_def recv_unreliable_def recv_reliable_eq)
qed simp

lemma joint_recv_all:
  "set ds \<subseteq> set (wire_to c (jtServer j)) \<Longrightarrow> (joint_step D c)\<^sup>*\<^sup>* j (j\<lparr>jtClient := recv_all ds (jtClient j)\<rparr>)"
proof (induction ds arbitrary: j)
  case (Cons d ds)
  show ?case
  proof (cases "DecodePacket (take readBufferSize d)")
    case (Inr pkt)
    from Cons.prems joint_step.arrive [OF _ Inr, of c j D 0]
      Cons.IH [of "j\<lparr>jtClient := HandleReceive 0 pkt (jtClient j)\<rparr>"] Inr
    show ?thesis by (auto intro: converse_rtranclp_into_rtranclp)
  qed (use Cons in simp)
qed simp

lemma joint_read_all:
  "cnInbox (jtClient j) = ps \<Longrightarrow>
    (joint_step D c)\<^sup>*\<^sup>* j (j\<lparr>jtClient := (jtClient j)\<lparr>cnInbox := []\<rparr>, jtGot := jtGot j @ ps\<rparr>)"
proof (induction ps arbitrary: j)
  case Nil
  then have "(jtClient j)\<lparr>cnInbox := []\<rparr> = jtClient j" by simp
  then show ?case by simp
next
  case (Cons p ps)
  let ?b = "(jtClient j)\<lparr>cnInbox := ps\<rparr>"
  have "take_inbox (jtClient j) = (Some p, ?b)" by (simp add: take_inbox_def Cons.prems)
  from joint_step.read [OF this] Cons.IH [of "j\<lparr>jtClient := ?b, jtGot := jtGot j @ [p]\<rparr>"]
  show ?case by (auto intro: converse_rtranclp_into_rtranclp)
qed

lemma filter_take_prefix: "filter P (take g xs) = take (length (filter P (take g xs))) (filter P xs)"
  by (metis append_eq_conv_conj append_take_drop_id filter_append)

lemma subseq_map_split: "subseq xs (map f ys) \<Longrightarrow> \<exists>zs. xs = map f zs \<and> subseq zs ys"
proof (induction ys arbitrary: xs)
  case (Cons y ys)
  show ?case
  proof (cases xs)
    case (Cons x xs')
    show ?thesis
    proof (cases "x = f y")
      case True
      with Cons.prems Cons have "subseq xs' (map f ys)" by (simp add: subseq_Cons2_iff)
      with Cons.IH obtain zs where "xs' = map f zs" "subseq zs ys" by blast
      with Cons True show ?thesis by (intro exI [of _ "y # zs"]) simp
    next
      case False
      with Cons.prems Cons have "subseq xs (map f ys)" by (simp add: subseq_Cons2_iff)
      with Cons.IH show ?thesis by (blast intro: list_emb_Cons)
    qed
  qed (auto intro: exI [of _ "[]"])
qed (auto dest: list_emb_Nil2)

lemma joint_sys_run:
  assumes "(joint_step D c)\<^sup>*\<^sup>* (joint_start D b) j"
  shows "\<exists>evs. sys_run D evs (start D) = Inr (jtServer j)"
  using assms
proof (induction rule: rtranclp_induct)
  case base
  show ?case by (intro exI [of _ "[]"]) (simp add: joint_start_def)
next
  case (step j j')
  then obtain evs where evs: "sys_run D evs (start D) = Inr (jtServer j)" by blast
  from step(2) consider "jtServer j' = jtServer j" | ev where "sys_step D ev (jtServer j) = Inr (jtServer j')"
    by cases auto
  then show ?case
  proof cases
    case (2 ev)
    with evs have "sys_run D (evs @ [ev]) (start D) = Inr (jtServer j')" by (simp add: sys_run_append)
    then show ?thesis by blast
  qed (use evs in metis)
qed

lemma wire_ok_frames:
  assumes "frames_to c s = map enc_frame gs" and "fits (sent_to c s)"
  shows "list_all (\<lambda>fb. wire_ok (MFrameBundle fb)) gs"
  unfolding list_all_iff
proof
  fix fb assume "fb \<in> set gs"
  then have "enc_frame fb \<in> set (frames_to c s)" using assms(1) by simp
  then have "length (enc_frame fb) < 65536" using assms(2) by (auto simp: frames_to_def fits_def list_all_iff)
  then show "wire_ok (MFrameBundle fb)" by (simp add: enc_frame_def encode_or_nil_def length_encodeFrameBundle)
qed

text \<open>What the client of a room's member has been given and what it has read: the frames since the member joined, or
  some of them where its inbox was full.\<close>

lemma joint_frames:
  assumes "cfg_ok D" and "rcPlayerCount D \<le> 65536"
    and "(joint_step D c)\<^sup>*\<^sup>* (joint_start D (NewConn p q ch' m u)) j"
    and "room_of (jtServer j) c = Some k" and "fits (sent_to c (jtServer j))"
  shows "\<exists>s1 gs hs. joined_from D c k s1 (jtServer j) \<and> frames_at k (jtServer j) = frames_at k s1 @ gs \<and>
    frames_to c (jtServer j) = map enc_frame gs \<and> filter is_frame (jtGot j) = map enc_frame hs \<and> subseq hs gs \<and>
    list_all (\<lambda>fb. wire_ok (MFrameBundle fb)) gs \<and>
    (undropped (jtClient j) (jtGot j) \<longrightarrow> filter is_frame (jtGot j) = map enc_frame (take (length hs) gs))"
proof -
  let ?s = "jtServer j"
  from joint_run_inv [OF assms(3,1,2)] have inv: "joint_inv D c (NewConn p q ch' m u) j" .
  then have ok: "conns_ok ?s" by (simp add: joint_inv_def sys_ok_def)
  have "c < conns ?s" using assms(4) ok by (simp add: room_of_def conns_ok_def conns_def split: if_splits)
  with inv assms(5) obtain i a ch n' t st where
    st: "link_reachable (new_link (NewConn i a ch n' t) (NewConn p q ch' m u)) st"
      "lkSent st = sent_to c ?s" "lkGot st = jtGot j" "lkB st = jtClient j"
    by (auto simp: joint_inv_def link_of_def side_of_def)
  from joint_sys_run [OF assms(3)] member_joined [OF _ assms(4,1,2)] obtain s1 where s1: "joined_from D c k s1 ?s" by blast
  from joined_from_frames [OF this assms(1,2)] obtain gs where
    gs: "frames_at k ?s = frames_at k s1 @ gs" "frames_to c ?s = map enc_frame gs" by blast
  have "subseq (filter is_frame (jtGot j)) (frames_to c ?s)"
    using delivered_in_order [OF st(1)] subseq_filter unfolding frames_to_def by (auto simp: st)
  from subseq_map_split [OF this [unfolded gs(2)]] obtain hs where
    hs: "filter is_frame (jtGot j) = map enc_frame hs" "subseq hs gs" by blast
  note ok = wire_ok_frames [OF gs(2) assms(5)]
  have "filter is_frame (jtGot j) = map enc_frame (take (length hs) gs)" if u: "undropped (jtClient j) (jtGot j)"
  proof -
    have r: "recv_side (sent_to c ?s) (jtGot j) (jtClient j)" using reachable_inv [OF st(1)] by (simp add: link_inv_def st)
    have "length (sent_to c ?s) < 2 ^ 32 - 1" using assms(5) by (simp add: fits_def)
    from undropped_prefix(3) [OF r this u] have g: "jtGot j = take (length (jtGot j)) (sent_to c ?s)"
      by (metis append_eq_conv_conj append_take_drop_id append.assoc)
    have "filter is_frame (jtGot j) = take (length (filter is_frame (jtGot j))) (frames_to c ?s)"
      unfolding frames_to_def by (subst (1 2) g) (rule filter_take_prefix)
    then show ?thesis using arg_cong [OF hs(1), of length] by (simp add: gs(2) take_map)
  qed
  with s1 gs hs ok show ?thesis by blast
qed

text \<open>And the world of its room is the simulation run on the frames.\<close>

lemma joint_room_world:
  assumes "cfg_ok D" and "rcPlayerCount D \<le> 65536"
    and "(joint_step D c)\<^sup>*\<^sup>* (joint_start D (NewConn p q ch' m u)) j" and "room_of (jtServer j) c = Some k"
  defines "w0 \<equiv> client_world (rcSeed D) (rcMapW D) (rcMapH D) (nat (rcPlayerCount D)) 5"
  shows "sim_ok w0 \<and> map fbTick (frames_at k (jtServer j)) = map (\<lambda>i. 1 + of_nat i) [0..<length (frames_at k (jtServer j))] \<and>
    sim.run w0 (map frame_cmds (frames_at k (jtServer j))) = (Inr (rmWorld (room_at (jtServer j) k)) :: unit fault + World)"
proof -
  let ?s = "jtServer j"
  from joint_run_inv [OF assms(3,1,2)] have ok: "rooms_ok D ?s" "members_ok ?s" by (simp_all add: joint_inv_def sys_ok_def)
  then have "room_tracks D (frames_at k ?s) (room_at ?s k)" using assms(4) by (simp add: members_ok_def rooms_ok_def)
  moreover have "sim_ok w0" unfolding w0_def sim_ok_iff by (rule client_world_ok [OF assms(1,2)])
  ultimately show ?thesis by (auto simp: room_tracks_def sealed_by_def w0_def)
qed

section \<open>Properties\<close>

text \<open>C1: lockstep end to end. The server runs with any clients and any interleaving; the network loses,
  repeats and reorders what goes to and from the client of connection \<open>c\<close>, which plays in room
  \<open>k\<close>. Let \<open>gs\<close> be the frames that the room has sealed since the client's session was given its place, in state
  \<open>s1\<close>. Dispatching what the client has read never panics and calls its frame handler with some of \<open>gs\<close>, in
  order, each at most once. As long as no payload has found the client's inbox full (such a payload is dropped for good),
  these are the first of \<open>gs\<close> without a gap; handling them gives the world of the
  simulation run on their commands, after one empty step for each frame sealed before it joined; and a client that
  joined before the first frame and has read everything has exactly the room's world.\<close>

theorem end_to_end:
  assumes "cfg_ok D" and "rcPlayerCount D \<le> 65536"
    and "(joint_step D c)\<^sup>*\<^sup>* (joint_start D (NewConn p q ch' m u)) j"
    and "room_of (jtServer j) c = Some k" and "fits (sent_to c (jtServer j))"
    and "length (frames_at k (jtServer j)) < 2 ^ 32"
  defines "w0 \<equiv> client_world (rcSeed D) (rcMapW D) (rcMapH D) (nat (rcPlayerCount D)) 5"
  shows "\<exists>s1 gs cbs hs. joined_from D c k s1 (jtServer j) \<and> frames_at k (jtServer j) = frames_at k s1 @ gs \<and>
    frames_to c (jtServer j) = map enc_frame gs \<and>
    RunDispatchLoop (jtGot j) = Inr cbs \<and> on_frame_calls cbs = hs \<and> subseq hs gs \<and>
    (undropped (jtClient j) (jtGot j) \<longrightarrow>
      hs = take (length hs) gs \<and> (jtGot j = sent_to c (jtServer j) \<longrightarrow> hs = gs) \<and>
      (hs \<noteq> [] \<longrightarrow> (\<exists>rs w. (on_frames hs \<lparr>plWorld = w0, plLastTick = 0\<rparr> :: unit fault + _) =
          Inr (rs, \<lparr>plWorld = w, plLastTick = of_nat (length (frames_at k s1) + length hs)\<rparr>) \<and>
        sim.run w0 (replicate (length (frames_at k s1)) [] @ map frame_cmds hs) = (Inr w :: unit fault + World) \<and>
        (frames_at k s1 = [] \<and> jtGot j = sent_to c (jtServer j) \<longrightarrow> w = rmWorld (room_at (jtServer j) k)))))"
proof -
  let ?s = "jtServer j" and ?fs = "frames_at k (jtServer j)"
  from joint_frames [OF assms(1-5)] obtain s1 gs hs where j: "joined_from D c k s1 ?s" "?fs = frames_at k s1 @ gs"
      "frames_to c ?s = map enc_frame gs" "filter is_frame (jtGot j) = map enc_frame hs" "subseq hs gs"
      "list_all (\<lambda>fb. wire_ok (MFrameBundle fb)) gs"
      "undropped (jtClient j) (jtGot j) \<Longrightarrow> filter is_frame (jtGot j) = map enc_frame (take (length hs) gs)"
    by blast
  have "list_all (\<lambda>fb. wire_ok (MFrameBundle fb)) hs"
    using j(6) by (auto simp: list_all_iff elim: list_emb_set [OF j(5)])
  from RunDispatchLoop_payloads [OF j(4) this] obtain cbs where
    cbs: "RunDispatchLoop (jtGot j) = Inr cbs" "on_frame_calls cbs = hs" by blast
  have "hs = take (length hs) gs \<and> (jtGot j = sent_to c ?s \<longrightarrow> hs = gs) \<and>
      (hs \<noteq> [] \<longrightarrow> (\<exists>rs w. (on_frames hs \<lparr>plWorld = w0, plLastTick = 0\<rparr> :: unit fault + _) =
          Inr (rs, \<lparr>plWorld = w, plLastTick = of_nat (length (frames_at k s1) + length hs)\<rparr>) \<and>
        sim.run w0 (replicate (length (frames_at k s1)) [] @ map frame_cmds hs) = (Inr w :: unit fault + World) \<and>
        (frames_at k s1 = [] \<and> jtGot j = sent_to c ?s \<longrightarrow> w = rmWorld (room_at ?s k))))"
    if u: "undropped (jtClient j) (jtGot j)"
  proof -
    have "list_all (\<lambda>fb. wire_ok (MFrameBundle fb)) (take (length hs) gs)"
      using j(6) by (auto simp: list_all_iff dest: in_set_takeD)
    from RunDispatchLoop_payloads [OF j(7) [OF u] this] cbs have h: "hs = take (length hs) gs" by auto
    have all: "hs = gs" if "jtGot j = sent_to c ?s"
    proof -
      have "map enc_frame hs = map enc_frame gs" using that j(3,4) by (simp add: frames_to_def)
      then have "length hs = length gs" using map_eq_imp_length_eq by blast
      with h show ?thesis by simp
    qed
    from joint_room_world [OF assms(1-4)] have world: "sim_ok w0" "map fbTick ?fs = map (\<lambda>i. 1 + of_nat i) [0..<length ?fs]"
        "sim.run w0 (map frame_cmds ?fs) = (Inr (rmWorld (room_at ?s k)) :: unit fault + World)"
      by (simp_all add: w0_def)
    have "hs = take (length hs) (drop (length (frames_at k s1)) ?fs)" using h by (simp add: j(2))
    from on_frames_from [OF world(1,2) assms(6) this] all world(3) h show ?thesis by (fastforce simp: j(2))
  qed
  with j(1-3,5) cbs show ?thesis by blast
qed

lemma game_run:
  "case sys_run two_players (joining @ in_order) (start two_players) of Inl e \<Rightarrow> False
    | Inr s \<Rightarrow> room_of s 0 = Some 0 \<and> list_all (\<lambda>d. d \<noteq> [] \<and> length d < 50) (sent_to 0 s) \<and> length (sent_to 0 s) = 3 \<and> length (frames_at 0 s) = 1 \<and>
        length (frames_to 0 s) = 1 \<and> Conns (syListener s) = [0] \<and>
        list_all (\<lambda>i. tracked 1000000000 (conn_at s 0) (1 + of_nat i)) [0..<3] \<and>
        (let b = recv_all (wire_to 0 s) (NewConn 0 ''s'' False 8 0)
         in cnInbox b = sent_to 0 s \<and> rbNextExpected (cnReorder b) = 4)"
  by code_simp

theorem end_to_end_witness:
  "\<exists>j s1 cbs rs w. (joint_step two_players 0)\<^sup>*\<^sup>* (joint_start two_players (NewConn 0 ''s'' False 8 0)) j \<and>
    joined_from two_players 0 0 s1 (jtServer j) \<and> frames_at 0 s1 = [] \<and>
    RunDispatchLoop (jtGot j) = Inr cbs \<and> on_frame_calls cbs = frames_at 0 (jtServer j) \<and>
    length (frames_at 0 (jtServer j)) = 1 \<and>
    (on_frames (on_frame_calls cbs) \<lparr>plWorld = client_world 42 100 100 2 5, plLastTick = 0\<rparr> :: unit fault + _) =
      Inr (rs, \<lparr>plWorld = w, plLastTick = 1\<rparr>) \<and> w = rmWorld (room_at (jtServer j) 0)"
proof -
  let ?b = "NewConn 0 ''s'' False 8 0"
  from game_run obtain s where s: "sys_run two_players (joining @ in_order) (start two_players) = Inr s"
    "room_of s 0 = Some 0" "list_all (\<lambda>d. d \<noteq> [] \<and> length d < 50) (sent_to 0 s)" "length (sent_to 0 s) = 3" "length (frames_at 0 s) = 1"
    "length (frames_to 0 s) = 1" "cnInbox (recv_all (wire_to 0 s) ?b) = sent_to 0 s"
    "rbNextExpected (cnReorder (recv_all (wire_to 0 s) ?b)) = 4"
    by (auto split: sum.splits simp: Let_def)
  have "fits (sent_to 0 s)" using s(3,4) by (auto simp: fits_def list_all_iff)
  let ?j1 = "\<lparr>jtServer = s, jtClient = ?b, jtGot = []\<rparr>"
  let ?j2 = "?j1\<lparr>jtClient := recv_all (wire_to 0 s) ?b\<rparr>"
  let ?j = "?j2\<lparr>jtClient := (jtClient ?j2)\<lparr>cnInbox := []\<rparr>, jtGot := jtGot ?j2 @ sent_to 0 s\<rparr>"
  have "(joint_step two_players 0)\<^sup>*\<^sup>* (joint_start two_players ?b) ?j1"
    using joint_server_run [of two_players _ "joint_start two_players ?b"] s(1) by (simp add: joint_start_def)
  moreover have "(joint_step two_players 0)\<^sup>*\<^sup>* ?j1 ?j2" using joint_recv_all [of "wire_to 0 s" 0 ?j1] by simp
  moreover have "(joint_step two_players 0)\<^sup>*\<^sup>* ?j2 ?j" using s(7) by (intro joint_read_all) simp
  ultimately have run: "(joint_step two_players 0)\<^sup>*\<^sup>* (joint_start two_players ?b) ?j" by (meson rtranclp_trans)
  have j: "jtServer ?j = s" "jtGot ?j = sent_to 0 s" "undropped (jtClient ?j) (jtGot ?j)"
    using s(4,8) by (simp_all add: undropped_def)
  from end_to_end [OF two_players_ok run, of 0, unfolded j(1)] s(2,5) \<open>fits _\<close> j(2,3) obtain s1 gs cbs where
    c: "joined_from two_players 0 0 s1 s" "frames_at 0 s = frames_at 0 s1 @ gs" "frames_to 0 s = map enc_frame gs"
      "RunDispatchLoop (jtGot ?j) = Inr cbs" "on_frame_calls cbs = gs"
      "gs \<noteq> [] \<longrightarrow> (\<exists>rs w. (on_frames gs \<lparr>plWorld = client_world 42 100 100 2 5, plLastTick = 0\<rparr> :: unit fault + _) =
        Inr (rs, \<lparr>plWorld = w, plLastTick = of_nat (length (frames_at 0 s1) + length gs)\<rparr>) \<and>
        (frames_at 0 s1 = [] \<longrightarrow> w = rmWorld (room_at s 0)))"
    by (auto simp: two_players_def)
  have g: "length gs = 1" "frames_at 0 s1 = []" using arg_cong [OF c(3), of length] arg_cong [OF c(2), of length] s(5,6) by simp_all
  then have "gs \<noteq> []" by auto
  with c(6) g obtain rs w where "(on_frames gs \<lparr>plWorld = client_world 42 100 100 2 5, plLastTick = 0\<rparr> :: unit fault + _) =
      Inr (rs, \<lparr>plWorld = w, plLastTick = 1\<rparr>)" "w = rmWorld (room_at s 0)" by auto
  with run c(1,2,4,5) g s(5) show ?thesis
    by (intro exI [of _ ?j] exI [of _ s1] exI [of _ cbs] exI [of _ rs] exI [of _ w]) simp
qed

end
