(* ===== verification/Recovery.thy ===== *)
theory Recovery
  imports EndToEnd
begin

text \<open>
  A client can always be brought up to date. While the server's connection still tracks what the client
  has not received, one round of retransmissions that gets through, however much was lost before, lets
  the client read everything; handling the frames in it gives the room's world.
\<close>

section \<open>The next packet arrives\<close>


section \<open>What the client does\<close>






section \<open>What the server does\<close>







section \<open>Properties\<close>



end
