(* ===== verification/Stalled.thy ===== *)
theory Stalled
  imports Network
begin

text \<open>
  What an unreliable send on a connection (\<^verbatim>\<open>Conn.SendUnreliable\<close>) does to the reliable stream of that
  connection, in the runs of theory Network. The send takes a sequence number; the datagram is
  not tracked and not reliable, so the receiver's reorder buffer never sees the number. From then
  on the receiver can not pass it. The payloads that are sent later are numbered as if an empty
  payload stood in the hole, which no data packet may carry.
\<close>

definition with_hole :: "nat \<Rightarrow> byte list list \<Rightarrow> byte list list" where
  "with_hole m sent = take m sent @ [] # drop m sent"


lemma length_with_hole [simp]: "length (with_hole m sent) = Suc (length sent)"
  by (simp add: with_hole_def)





section \<open>The receiver stays at the hole\<close>







section \<open>Every later state\<close>








section \<open>Properties\<close>






end
