(* ===== verification/Spec2Isabelle.thy ===== *)
theory Spec2Isabelle
  imports Trig Chaos Monitor LoadTest FakeClient Pace Inbound Recovery Stalled
begin

text \<open>
  A lockstep server for real-time strategy games, its client library and its tools, written in Go.

  \<^bold>\<open>The program.\<close> A client speaks to the server over UDP through a small reliable transport. The
  server puts clients into rooms. A room seals a tick at a fixed rate: it collects the commands named for the
  tick, broadcasts them as a frame and steps its own world by them. Every client steps a copy of the world by the
  frames and reports a hash of it; the room compares the hashes. All of it stands on a simulation in
  fixed-point arithmetic that must compute the same everywhere. A game can be recorded and replayed.

  \<^bold>\<open>The theories\<close> follow the packages of \<^verbatim>\<open>src/\<close>, each importing the ones it calls.

  \<^item> \<^verbatim>\<open>Prelude\<close>: machine integers, the result type of fallible Go code (\<open>Inr\<close> a value,
    \<open>Inl (Err e)\<close> a returned error, \<open>Inl Panic\<close> a run-time panic), little-endian readers and writers,
    Go maps as association lists, and two interfaces as locales: \<open>record_codec\<close> (fixed-width records) and
    \<open>bounded_log\<close> (a log that keeps the last entries).
  \<^item> \<^verbatim>\<open>Fixed\<close>, \<^verbatim>\<open>Trig\<close> (\<^verbatim>\<open>internal/sim/fixed\<close>): Q16.16 numbers as 32-bit words, vectors, sine
    and arc tangent. Every operation is related to exact integer arithmetic with its wrap-around.
  \<^item> \<^verbatim>\<open>World\<close>, \<^verbatim>\<open>Snapshot\<close>, \<^verbatim>\<open>Simulation\<close> (\<^verbatim>\<open>internal/sim\<close>): the world, its commands, \<open>Step\<close>,
    the generator, snapshots and the hash. \<^verbatim>\<open>Simulation\<close> holds the locale \<open>simulation\<close>, what the other
    components rely on, and its interpretation on \<open>Step\<close>, \<open>Marshal\<close>, \<open>Unmarshal\<close> and \<open>Hash\<close>.
  \<^item> \<^verbatim>\<open>Wire\<close> (\<^verbatim>\<open>internal/wire\<close>): the messages and their codec.
  \<^item> \<^verbatim>\<open>Packet\<close>, \<^verbatim>\<open>Retx\<close>, \<^verbatim>\<open>Reorder\<close>, \<^verbatim>\<open>Conn\<close>, \<^verbatim>\<open>Listener\<close>, \<^verbatim>\<open>Chaos\<close> (\<^verbatim>\<open>internal/transport\<close> and
    \<^verbatim>\<open>cmd/chaos-shim\<close>): datagrams, the retransmission queue, the reorder buffer (locale \<open>in_order\<close>), a
    connection, the table of connections, and what drops and delays packets. \<^verbatim>\<open>Network\<close> joins two connections
    by a network that loses, repeats and reorders, as the step relation \<open>link_step\<close>; \<^verbatim>\<open>Stalled\<close> is
    what an unreliable send does to such a run.
  \<^item> \<^verbatim>\<open>InputBuf\<close>, \<^verbatim>\<open>Adaptive\<close>, \<^verbatim>\<open>HashAgg\<close>, \<^verbatim>\<open>Room\<close>, \<^verbatim>\<open>Pace\<close> (\<^verbatim>\<open>internal/lockstep\<close>): the commands
    waiting for their ticks, the input delay, the verdict on hashes, the room with disconnection and resume
    (step relation \<open>room_step\<close>), and the clock that drives its loop.
  \<^item> \<^verbatim>\<open>Registry\<close> (\<^verbatim>\<open>internal/room\<close>): the rooms by id; and what a started room satisfies.
  \<^item> \<^verbatim>\<open>Server\<close>, \<^verbatim>\<open>System\<close>, \<^verbatim>\<open>Inbound\<close>, \<^verbatim>\<open>Monitor\<close> (\<^verbatim>\<open>cmd/server\<close>): the goroutine of a connection; the whole running
    server as a function of a list of events, one for each thing that one of its goroutines can do next; what
    reaches its rooms, and the life a room can have (\<open>room_life\<close>); its flags, its metrics and its two pages.
  \<^item> \<^verbatim>\<open>Client\<close> (\<^verbatim>\<open>pkg/rtsclient\<close>), \<^verbatim>\<open>Bots\<close>, \<^verbatim>\<open>FakeClient\<close> (\<^verbatim>\<open>cmd/fake-client\<close>), \<^verbatim>\<open>LoadTest\<close>
    (\<^verbatim>\<open>cmd/load-test\<close>): the handshake, the loops, the frame handler that steps the copy, the random commands,
    the fake client as a whole, the clients and the verdict of the load test.
  \<^item> \<^verbatim>\<open>EndToEnd\<close>, \<^verbatim>\<open>Recovery\<close>: the running server, one client and the network between them; and how
    the client is brought up to date after losses.
  \<^item> \<^verbatim>\<open>Replay\<close> (\<^verbatim>\<open>internal/replay\<close>, \<^verbatim>\<open>cmd/replay-play\<close>): file format, writer, reader, verification.
  \<^item> \<^verbatim>\<open>Obs\<close>, \<^verbatim>\<open>ObsText\<close> (\<^verbatim>\<open>internal/obs\<close>): metrics, the trace ring, and the text written of both.

  \<^bold>\<open>Conventions.\<close> A struct is a record whose fields carry a two-letter prefix, a method a function that
  returns the new record, and the definition keeps the Go name where it can. A pointer that is shared is an
  index into a list (the heap). A map is an association list in an arbitrary order. What the program gets from
  outside (the clock, the socket's errors, random numbers, the writer's errors, which goroutine runs) is an argument:
  the theorems hold for every answer. Integers have their width and wrap; durations and Go's \<^verbatim>\<open>int\<close> are
  integers where no bound is in question. A mutex makes its methods run one at a time, so each is one step.

  \<^bold>\<open>What is shown.\<close> The arithmetic is exact up to its stated wrap-around; the square root is the floor of the
  root. A step of the world is total, keeps its invariant and does not depend on the order in which units are
  stored. Codecs round-trip and never panic on any bytes. A connection's reader sees a subsequence of what
  was sent, acknowledgements stop exactly the packets received, retransmission ends and makes progress. A room
  refines the bare simulation under every interleaving; the answer to a resuming player (no client handles it
  yet) determines the room's world; ticks come no earlier
  than their rate allows and are not put off. The running server never panics, and each member of a room is
  given exactly the frames sealed since its session was about to be given its place (\<open>joined_from\<close>). Every command that a session forwards is in one sealed frame, of the
  tick it names, or still waits, and no other is; a desync is only found where two players reported different
  hashes. Together: what the client of a connection has read, over any network,
  calls its handler with frames of its room since it joined, in order; as long as no payload has found its inbox full it
  leaves none out, and its world is the room's world once it has read all of them. While, besides, the server still tracks
  what is missing, each of it fits in one read and there is room to reorder it, one round of retransmissions lets it read all. Recorded games verify. Where the code does something else than it means to, the
  behaviour is proved as it is: motion that overflows, a stream stalled by an unreliable send, frames too large to be read, a
  join overtaken by a frame, an address left bound to a removed connection, bots that draw from the world's
  generator, metrics that are never updated.

  \<^bold>\<open>Bounds.\<close> Reads fill 2048 bytes. A connection's inbox holds 256 payloads unless it is configured otherwise, the reorder buffer
  512 packets, a room's channel 1024 messages and its history 200 frames; a packet is repeated at most
  \<open>MaxRetries\<close> times. The statements about streams assume fewer than \<open>2 ^ 32\<close> packets or ticks and payloads
  below 65536 bytes, beyond which the code's counters wrap. The hypothesis \<open>cfg_ok\<close> (a tick rate between 1 and a
  thousand million, a map below 32768 cells a side that holds every player's units) is needed: the code does not check its flags. No
  definition uses fuel; loops over the environment's answers end with the list of answers.

  \<^bold>\<open>Ghosts.\<close> \<open>sySent\<close>, \<open>syWire\<close> and \<open>syFrames\<close> of a \<open>system\<close>, and \<open>lkSent\<close>, \<open>lkGot\<close> of a link, record what happened;
  the answer of the socket for a \<open>Send\<close> is numbered by \<open>sySent\<close>, and nothing else reads them. \<open>run_forwards\<close> lists what the sessions put into the rooms' channels, from the events.

  \<^bold>\<open>Not modelled.\<close> \<^verbatim>\<open>internal/obs/log.go\<close> and all logging; parsing of flags, signals, address
  resolution and the HTTP plumbing; closing of sockets; the floating-point conversions and the initialization of
  the sine table (a parameter); the printing of floats (a parameter). The players of a room are read by the room's
  goroutine and written by others without a lock in the code; the model lets each such access be one step.
\<close>

section \<open>Lockstep across the system\<close>

text \<open>C2: lockstep consistency. A client that builds its world from the configuration's seed and map,
  with the server's numbers of players and units, and handles every frame a room has broadcast from its first tick on,
  ends with exactly the room's world and tick, and the hashes it reports are those of the
  simulation after each frame.\<close>

theorem lockstep_consistency:
  assumes "cfg_ok cfg" and "rcPlayerCount cfg \<le> 65536" and "(NewRoom cfg :: unit fault + Room) = Inr r0"
    and "room_run (SpawnInitialUnits 5 r0) fs r" and "length fs < 2 ^ 32"
  defines "w0 \<equiv> client_world (rcSeed cfg) (rcMapW cfg) (rcMapH cfg) (nat (rcPlayerCount cfg)) 5"
  shows "\<exists>hs. (on_frames fs \<lparr>plWorld = w0, plLastTick = 0\<rparr> :: unit fault + _) =
      Inr (zip (map fbTick fs) hs, \<lparr>plWorld = rmWorld r, plLastTick = rmTick r\<rparr>) \<and>
    (sim.trace w0 (map frame_cmds fs) :: unit fault + _) = Inr hs \<and> length hs = length fs"
proof -
  let ?r = "SpawnInitialUnits 5 r0"
  from started_room_live [OF assms(1-3)] have l: "room_live ?r" and t: "rmTick ?r = 0" by auto
  have w: "rmWorld ?r = w0" unfolding w0_def by (rule initial_worlds_agree [OF assms(3)])
  from room_run_sealed [OF assms(4) l] have s: "sealed_by ?r fs r" by blast
  have ok: "sim_ok w0" using l w by (auto simp: sim_ok_iff room_live_def room_ok_def)
  from on_frames_run [of "\<lparr>plWorld = w0, plLastTick = 0\<rparr>" fs, where 'e = unit] s t ok assms(5)
  obtain hs w where c: "(sim.run w0 (map frame_cmds fs) :: unit fault + _) = Inr w"
    "(sim.trace w0 (map frame_cmds fs) :: unit fault + _) = Inr hs"
    "(on_frames fs \<lparr>plWorld = w0, plLastTick = 0\<rparr> :: unit fault + _) =
      Inr (zip (map fbTick fs) hs, \<lparr>plWorld = w, plLastTick = of_nat (length fs)\<rparr>)"
    by (auto simp: sealed_by_def)
  have "w = rmWorld r" "rmTick r = of_nat (length fs)" using s c(1) by (simp_all add: sealed_by_def w t)
  moreover have "\<exists>hs. (sim.trace w0 (map frame_cmds fs) :: unit fault + _) = Inr hs \<and> length hs = length fs"
    using sim.trace_total [OF ok, of "map frame_cmds fs"] by simp
  then have "length hs = length fs" using c(2) by simp
  ultimately show ?thesis using c by simp
qed

theorem lockstep_consistency_witness:
  "\<exists>fs r hs. room_run arena fs r \<and> length fs = 5 \<and>
    (on_frames fs \<lparr>plWorld = client_world 42 100 100 2 5, plLastTick = 0\<rparr> :: unit fault + _) =
      Inr (zip (map fbTick fs) hs, \<lparr>plWorld = rmWorld r, plLastTick = rmTick r\<rparr>)"
proof -
  obtain r0 where r0: "(NewRoom two_players :: unit fault + Room) = Inr r0" "arena = SpawnInitialUnits 5 r0"
    using arena_eq by blast
  obtain fs r where f: "room_run arena fs r" "length fs = 5" using room_can_run [OF arena_live(1)] by blast
  have c: "rcSeed two_players = 42" "rcMapW two_players = 100" "rcMapH two_players = 100" "nat (rcPlayerCount two_players) = 2"
    by (simp_all add: two_players_def)
  from lockstep_consistency [OF two_players_ok r0(1), of fs r] f show ?thesis unfolding r0(2) c by auto
qed





section \<open>Lockstep over the network\<close>

text \<open>The frames among the first messages of a sequence are the first frames of it.\<close>

lemma frames_of_take: "frames_of (take k ms) = take (length (frames_of (take k ms))) (frames_of ms)"
proof -
  have "frames_of ms = frames_of (take k ms) @ frames_of (drop k ms)"
    by (simp add: frames_of_def flip: concat_append map_append)
  then show ?thesis by (metis append_eq_conv_conj)
qed

text \<open>Lockstep over an unreliable network. When the messages \<open>ms\<close> that a connection was
  given to send contain a room's frames in order, then, whatever the network did and however far it has
  got, dispatching what the client has read calls the frame handler with the room's first frames, and
  handling them gives the room's world after these frames. When all has been read, it is the
  room's present world.\<close>

theorem lockstep_over_network:
  assumes "cfg_ok cfg" and "rcPlayerCount cfg \<le> 65536" and "(NewRoom cfg :: unit fault + Room) = Inr r0"
    and "room_run (SpawnInitialUnits 5 r0) fs r" and "length fs < 2 ^ 32"
    and "link_reachable (new_link (NewConn i a ch n t) (NewConn j b ch' m u)) st"
    and "lkSent st = map encode_or_nil ms" and "list_all wire_ok ms" and "frames_of ms = fs"
    and "length ms \<le> cnInboxSize (lkB st)"
  shows "\<exists>cbs k hs w. RunDispatchLoop (lkGot st) = Inr cbs \<and> on_frame_calls cbs = take k fs \<and>
    (on_frames (take k fs) \<lparr>plWorld = rmWorld (SpawnInitialUnits 5 r0), plLastTick = 0\<rparr> :: unit fault + _) =
      Inr (hs, \<lparr>plWorld = w, plLastTick = of_nat (length (take k fs))\<rparr>) \<and>
    sim.run (rmWorld (SpawnInitialUnits 5 r0)) (map frame_cmds (take k fs)) = (Inr w :: unit fault + World) \<and>
    (lkGot st = lkSent st \<longrightarrow> w = rmWorld r)"
proof -
  let ?r = "SpawnInitialUnits 5 r0" and ?g = "length (lkGot st)"
  from started_room_live [OF assms(1-3)] have l: "room_live ?r" and t: "rmTick ?r = 0" by auto
  from room_run_sealed [OF assms(4) l] have s: "sealed_by ?r fs r" by blast
  have got: "lkGot st = map encode_or_nil (take ?g ms)"
    using delivered_in_order [OF assms(6)] assms(7,10) by (simp add: take_map)
  have "list_all wire_ok (take ?g ms)" using assms(8) by (auto simp: list_all_iff dest: in_set_takeD)
  from RunDispatchLoop_frames [OF this] obtain cbs where
    c: "RunDispatchLoop (lkGot st) = Inr cbs" "on_frame_calls cbs = frames_of (take ?g ms)" using got by metis
  let ?k = "length (frames_of (take ?g ms))"
  have k: "frames_of (take ?g ms) = take ?k fs" using frames_of_take [of ?g ms] unfolding assms(9) .
  let ?fs = "take ?k fs" and ?p = "\<lparr>plWorld = rmWorld ?r, plLastTick = 0\<rparr>"
  have "sim_ok (plWorld ?p)" using l by (simp add: sim_ok_iff room_live_def room_ok_def)
  moreover have "map fbTick ?fs = map (\<lambda>i. plLastTick ?p + 1 + of_nat i) [0..<length ?fs]"
  proof -
    have "map fbTick ?fs = take ?k (map (\<lambda>i. 1 + of_nat i) [0..<length fs])"
      using s by (simp add: sealed_by_def t flip: take_map)
    then show ?thesis by (cases "?k \<le> length fs") (simp_all add: take_map)
  qed
  moreover have "unat (plLastTick ?p) + length ?fs < 2 ^ 32" using assms(5) by simp
  ultimately obtain hs w where
    w: "(sim.run (plWorld ?p) (map frame_cmds ?fs) :: unit fault + _) = Inr w"
      "(on_frames ?fs ?p :: unit fault + _) =
        Inr (zip (map fbTick ?fs) hs, \<lparr>plWorld = w, plLastTick = plLastTick ?p + of_nat (length ?fs)\<rparr>)"
    using on_frames_run [of ?p ?fs, where 'e = unit] by blast
  have "w = rmWorld r" if "lkGot st = lkSent st"
  proof -
    have "?g = length ms" using that assms(7) by simp
    then have "?fs = fs" using assms(9) by simp
    then show ?thesis using w(1) s by (simp add: sealed_by_def)
  qed
  then show ?thesis using c k w by (intro exI [of _ cbs] exI [of _ ?k]) auto
qed

lemma arena_first_frame:
  "\<exists>r. room_run arena [next_frame arena] r \<and> fbCmds (next_frame arena) = []"
proof -
  have a: "rmInbox arena = []" "rmInputBuf arena = NewInputBuf"
    using NewRoom_ok [of two_players, where 'e = unit] two_players_ok
    by (auto simp: arena_def cfg_ok_def SpawnInitialUnits_def)
  then have d: "drainInbox arena = (Inr arena :: unit fault + Room)" by (simp add: drainInbox_def)
  have "room_ok arena" using arena_live(1) by (simp add: room_live_def)
  from sealTick_ok [OF this, of 0 True, where 'e = unit] obtain out r where
    "sealTick 0 True arena = (Inr (out, r) :: unit fault + _)" by blast
  from room_run.more [OF room_run.none room_step.tick [OF d this]] show ?thesis
    using a by (auto simp: next_frame_def)
qed

theorem lockstep_over_network_witness:
  "\<exists>r st cbs w. room_run arena [next_frame arena] r \<and>
    link_reachable (new_link (NewConn 1 ''b'' False 0 0) (NewConn 1 ''a'' False 0 0)) st \<and>
    lkGot st = [encode_or_nil (MFrameBundle (next_frame arena))] \<and> RunDispatchLoop (lkGot st) = Inr cbs \<and>
    on_frame_calls cbs = [next_frame arena] \<and>
    (sim.run (rmWorld arena) [frame_cmds (next_frame arena)] :: unit fault + World) = Inr w \<and> w = rmWorld r"
proof -
  obtain r0 where r0: "(NewRoom two_players :: unit fault + Room) = Inr r0" "arena = SpawnInitialUnits 5 r0"
    using arena_eq by blast
  obtain r where r: "room_run arena [next_frame arena] r" "fbCmds (next_frame arena) = []"
    using arena_first_frame by blast
  let ?m = "MFrameBundle (next_frame arena)"
  have "length (encode_or_nil ?m) = 8" by (simp add: encode_or_nil_def length_encodeFrameBundle r(2))
  then have "encode_or_nil ?m \<noteq> []" "length (encode_or_nil ?m) \<le> readBufferSize - HeaderSize"
    by (auto simp: readBufferSize_def HeaderSize_def)
  from one_payload [OF this] obtain st where
    st: "link_reachable (new_link (NewConn 1 ''b'' False 0 0) (NewConn 1 ''a'' False 0 0)) st"
      "lkSent st = map encode_or_nil [?m]" "lkGot st = [encode_or_nil ?m]" "cnInboxSize (lkB st) = 256" by auto
  have w: "list_all wire_ok [?m]" "frames_of [?m] = [next_frame arena]" "length [?m] \<le> cnInboxSize (lkB st)"
    using r(2) st(4) by (simp_all add: frames_of_def)
  from lockstep_over_network [OF two_players_ok r0(1) r(1) [unfolded r0(2)] _ st(1,2) w(1) _ w(3)] w(2) st(2,3)
  obtain cbs k hs v where c: "RunDispatchLoop (lkGot st) = Inr cbs" "on_frame_calls cbs = take k [next_frame arena]"
      "(sim.run (rmWorld arena) (map frame_cmds (take k [next_frame arena])) :: unit fault + World) = Inr v"
      "v = rmWorld r" by (auto simp: r0(2))
  have "on_frame_calls cbs = [next_frame arena]"
    using RunDispatchLoop_frames [OF w(1)] c(1) w(2) st(3) by auto
  with c(2) have "take k [next_frame arena] = [next_frame arena]" by simp
  with c r(1) st(1,3) show ?thesis by (intro exI [of _ r] exI [of _ st] exI [of _ cbs] exI [of _ v]) simp
qed

end
